theory Spec2Isabelle
  imports Main "HOL-Library.Multiset"
begin

section \<open>The document tree\<close>

text \<open>
  The highlighter works on the browser's document tree. A node is a text node (a string
  payload) or an element (a tag, attributes, a background colour and an ordered list of
  children). JavaScript holds nodes by reference, so every node carries an identity
  (a natural number); a reference is that number, a nullable reference is an option.
  The trees the script can reach form a forest: the document, and the nodes that were
  created or removed and hang in no parent (each the root of its own tree).
  Strings are lists of characters; a character stands for one UTF-16 code unit.
\<close>

record einfo =
  tagName :: string
  attributes :: "(string \<times> string) list"
  backgroundColor :: string

datatype dnode = Text nat string | Element nat einfo "dnode list"

datatype js_error =
  TypeError | IndexSizeError | HierarchyRequestError | NotFoundError | CantParseJSON

fun nid :: "dnode \<Rightarrow> nat" where
  "nid (Text i s) = i"
| "nid (Element i e cs) = i"

fun kids :: "dnode \<Rightarrow> dnode list" where
  "kids (Text i s) = []"
| "kids (Element i e cs) = cs"

fun subtrees :: "dnode \<Rightarrow> dnode list" where
  "subtrees (Text i s) = [Text i s]"
| "subtrees (Element i e cs) = Element i e cs # concat (map subtrees cs)"

definition nodes :: "dnode list \<Rightarrow> dnode list" where
  "nodes f = concat (map subtrees f)"

definition lookup :: "dnode list \<Rightarrow> nat \<Rightarrow> dnode option" where
  "lookup f k = find (\<lambda>n. nid n = k) (nodes f)"

definition parent_of :: "dnode list \<Rightarrow> nat \<Rightarrow> dnode option" where
  "parent_of f k = find (\<lambda>n. k \<in> set (map nid (kids n))) (nodes f)"

definition parentNode :: "dnode list \<Rightarrow> nat \<Rightarrow> nat option" where
  "parentNode f k = map_option nid (parent_of f k)"

definition childNodes :: "dnode list \<Rightarrow> nat \<Rightarrow> nat list" where
  "childNodes f k = (case lookup f k of None \<Rightarrow> [] | Some n \<Rightarrow> map nid (kids n))"

definition hasChildNodes :: "dnode list \<Rightarrow> nat \<Rightarrow> bool" where
  "hasChildNodes f k = (childNodes f k \<noteq> [])"

definition firstChild :: "dnode list \<Rightarrow> nat \<Rightarrow> nat option" where
  "firstChild f k = (case childNodes f k of [] \<Rightarrow> None | c # cs \<Rightarrow> Some c)"

fun before :: "nat \<Rightarrow> nat list \<Rightarrow> nat option" where
  "before k [] = None"
| "before k [x] = None"
| "before k (x # y # ys) =
     (if x = k then None else if y = k then Some x else before k (y # ys))"

fun after :: "nat \<Rightarrow> nat list \<Rightarrow> nat option" where
  "after k [] = None"
| "after k [x] = None"
| "after k (x # y # ys) = (if x = k then Some y else after k (y # ys))"

definition previousSibling :: "dnode list \<Rightarrow> nat \<Rightarrow> nat option" where
  "previousSibling f k =
     (case parent_of f k of None \<Rightarrow> None | Some p \<Rightarrow> before k (map nid (kids p)))"

definition nextSibling :: "dnode list \<Rightarrow> nat \<Rightarrow> nat option" where
  "nextSibling f k =
     (case parent_of f k of None \<Rightarrow> None | Some p \<Rightarrow> after k (map nid (kids p)))"

text \<open>The node type constants of the configuration module are the DOM's own.\<close>

definition ELEMENT_NODE :: nat where
  "ELEMENT_NODE = 1"

definition TEXT_NODE :: nat where
  "TEXT_NODE = 3"

fun nodeType_of :: "dnode \<Rightarrow> nat" where
  "nodeType_of (Text i s) = TEXT_NODE"
| "nodeType_of (Element i e cs) = ELEMENT_NODE"

definition nodeType :: "dnode list \<Rightarrow> nat \<Rightarrow> nat option" where
  "nodeType f k = map_option nodeType_of (lookup f k)"

text \<open>\<open>nodeValue\<close> is the payload of a text node and null for an element.\<close>

definition nodeValue :: "dnode list \<Rightarrow> nat \<Rightarrow> string option" where
  "nodeValue f k = (case lookup f k of Some (Text i s) \<Rightarrow> Some s | _ \<Rightarrow> None)"

fun textContent_of :: "dnode \<Rightarrow> string" where
  "textContent_of (Text i s) = s"
| "textContent_of (Element i e cs) = concat (map textContent_of cs)"

definition textContent :: "dnode list \<Rightarrow> nat \<Rightarrow> string" where
  "textContent f k = (case lookup f k of None \<Rightarrow> [] | Some n \<Rightarrow> textContent_of n)"

text \<open>A new node takes an identity that no node of the forest has.\<close>

definition fresh :: "dnode list \<Rightarrow> nat" where
  "fresh f = Suc (fold max (map nid (nodes f)) 0)"

subsection \<open>Mutation\<close>

text \<open>
  Every mutation of the DOM is a function from the forest to the new forest. A mutation
  rewrites the list of children of one element (\<open>edit_kids\<close>), or the list of roots.
\<close>

fun edit_kids :: "nat \<Rightarrow> (dnode list \<Rightarrow> dnode list) \<Rightarrow> dnode list \<Rightarrow> dnode list" where
  "edit_kids p g [] = []"
| "edit_kids p g (Text i s # f) = Text i s # edit_kids p g f"
| "edit_kids p g (Element i e cs # f) =
     (if i = p then Element i e (g cs) # f
      else Element i e (edit_kids p g cs) # edit_kids p g f)"

text \<open>Rewriting the list in which the node \<open>k\<close> stands: its siblings, or the roots.\<close>

definition edit_siblings :: "nat \<Rightarrow> (dnode list \<Rightarrow> dnode list) \<Rightarrow> dnode list \<Rightarrow> dnode list" where
  "edit_siblings k g f = (case parentNode f k of None \<Rightarrow> g f | Some p \<Rightarrow> edit_kids p g f)"

fun set_value_in :: "nat \<Rightarrow> string \<Rightarrow> dnode list \<Rightarrow> dnode list" where
  "set_value_in k v [] = []"
| "set_value_in k v (Text i s # cs) =
     (if i = k then Text i v # cs else Text i s # set_value_in k v cs)"
| "set_value_in k v (Element i e ks # cs) = Element i e ks # set_value_in k v cs"

text \<open>The assignment \<open>node.nodeValue = v\<close>; it does nothing on an element.\<close>

definition set_value :: "dnode list \<Rightarrow> nat \<Rightarrow> string \<Rightarrow> dnode list" where
  "set_value f k v = edit_siblings k (set_value_in k v) f"

definition without :: "nat \<Rightarrow> dnode list \<Rightarrow> dnode list" where
  "without k cs = filter (\<lambda>c. nid c \<noteq> k) cs"

text \<open>Taking a node, with all below it, out of wherever it hangs.\<close>

definition take_out :: "dnode list \<Rightarrow> nat \<Rightarrow> dnode list" where
  "take_out f k = edit_siblings k (without k) f"

fun insert_at :: "dnode \<Rightarrow> nat option \<Rightarrow> dnode list \<Rightarrow> dnode list" where
  "insert_at n None cs = cs @ [n]"
| "insert_at n (Some r) [] = [n]"
| "insert_at n (Some r) (c # cs) =
     (if nid c = r then n # c # cs else c # insert_at n (Some r) cs)"

text \<open>
  \<open>Node.removeChild\<close>, seen from the child: the node leaves its parent and becomes the
  root of a tree of its own. A node without a parent stays as it is.
\<close>

definition detach :: "dnode list \<Rightarrow> nat \<Rightarrow> dnode list" where
  "detach f k =
     (case parentNode f k of
        None \<Rightarrow> f
      | Some p \<Rightarrow>
          (case lookup f k of None \<Rightarrow> f | Some n \<Rightarrow> edit_kids p (without k) f @ [n]))"

text \<open>
  \<open>parent.insertBefore(node, child)\<close> of the DOM: the parent must be an element, the
  node must not contain the parent, a given reference child must be a child of the
  parent; the node leaves its old place and goes before the child (at the end when
  the child is null).
\<close>

definition insertBefore :: "dnode list \<Rightarrow> nat \<Rightarrow> nat \<Rightarrow> nat option \<Rightarrow> js_error + dnode list" where
  "insertBefore f p n r =
     (case lookup f p of
        None \<Rightarrow> Inl TypeError
      | Some (Text i s) \<Rightarrow> Inl HierarchyRequestError
      | Some (Element i e cs) \<Rightarrow>
          (case lookup f n of
             None \<Rightarrow> Inl TypeError
           | Some sub \<Rightarrow>
               if p \<in> set (map nid (subtrees sub)) then Inl HierarchyRequestError
               else if (case r of None \<Rightarrow> False | Some c \<Rightarrow> parentNode f c \<noteq> Some p)
               then Inl NotFoundError
               else Inr (edit_kids p (insert_at sub (if r = Some n then nextSibling f n else r))
                          (take_out f n))))"

definition appendChild :: "dnode list \<Rightarrow> nat \<Rightarrow> nat \<Rightarrow> js_error + dnode list" where
  "appendChild f p n = insertBefore f p n None"

text \<open>
  \<open>Text.splitText(offset)\<close>: the node keeps the first \<open>offset\<close> code units, a new text
  node takes the rest and comes right after it; the new node is returned. An offset
  beyond the length is an IndexSizeError.
\<close>

fun split_in :: "nat \<Rightarrow> nat \<Rightarrow> nat \<Rightarrow> dnode list \<Rightarrow> dnode list" where
  "split_in k off new [] = []"
| "split_in k off new (Text i s # cs) =
     (if i = k then Text i (take off s) # Text new (drop off s) # cs
      else Text i s # split_in k off new cs)"
| "split_in k off new (Element i e ks # cs) = Element i e ks # split_in k off new cs"

definition splitText :: "dnode list \<Rightarrow> nat \<Rightarrow> nat \<Rightarrow> js_error + (dnode list \<times> nat)" where
  "splitText f k off =
     (case lookup f k of
        Some (Text i s) \<Rightarrow>
          if length s < off then Inl IndexSizeError
          else Inr (edit_siblings k (split_in k off (fresh f)) f, fresh f)
      | _ \<Rightarrow> Inl TypeError)"

section \<open>JavaScript values and JSON\<close>

text \<open>
  What \<open>JSON.parse\<close> can return, and \<open>undefined\<close>. A number is kept exactly as a
  decimal: \<open>Num m e\<close> stands for \<open>m * 10 ^ e\<close> (the rounding to a double is not modelled).
\<close>

datatype jsval =
  Undefined | Null | Bool bool | Num int int | Str string
  | Arr "jsval list" | Obj "(string \<times> jsval) list"

definition is_ws :: "char \<Rightarrow> bool" where
  "is_ws c = (c = CHR '' '' \<or> c = CHR 0x09 \<or> c = CHR 0x0A \<or> c = CHR 0x0D)"

definition is_digit :: "char \<Rightarrow> bool" where
  "is_digit c = (48 \<le> (of_char c :: nat) \<and> (of_char c :: nat) \<le> 57)"

definition digits_val :: "string \<Rightarrow> nat" where
  "digits_val ds = fold (\<lambda>c n. 10 * n + ((of_char c :: nat) - 48)) ds 0"

fun show_nat :: "nat \<Rightarrow> string" where
  "show_nat n =
     (if n < 10 then [char_of (48 + n)]
      else show_nat (n div 10) @ [char_of (48 + n mod 10)])"

declare show_nat.simps [simp del]

fun strip_prefix :: "string \<Rightarrow> string \<Rightarrow> string option" where
  "strip_prefix [] s = Some s"
| "strip_prefix (p # ps) [] = None"
| "strip_prefix (p # ps) (c # cs) = (if p = c then strip_prefix ps cs else None)"

fun take_digits :: "string \<Rightarrow> string \<times> string" where
  "take_digits [] = ([], [])"
| "take_digits (c # cs) =
     (if is_digit c then (case take_digits cs of (ds, r) \<Rightarrow> (c # ds, r)) else ([], c # cs))"

definition parse_frac :: "string \<Rightarrow> (string \<times> string) option" where
  "parse_frac s =
     (case s of
        [] \<Rightarrow> Some ([], [])
      | c # cs \<Rightarrow>
          if c = CHR ''.'' then
            (case take_digits cs of (ds, r) \<Rightarrow> if ds = [] then None else Some (ds, r))
          else Some ([], s))"

definition parse_exp :: "string \<Rightarrow> (int \<times> string) option" where
  "parse_exp s =
     (case s of
        [] \<Rightarrow> Some (0, [])
      | c # cs \<Rightarrow>
          if c = CHR ''e'' \<or> c = CHR ''E'' then
            (case cs of
               [] \<Rightarrow> None
             | d # ds \<Rightarrow>
                 (let neg = (d = CHR ''-'');
                      body = (if d = CHR ''-'' \<or> d = CHR ''+'' then ds else cs)
                  in case take_digits body of
                       (es, r) \<Rightarrow>
                         if es = [] then None
                         else Some ((if neg then - int (digits_val es) else int (digits_val es)), r)))
          else Some (0, s))"

definition parse_number :: "string \<Rightarrow> (jsval \<times> string) option" where
  "parse_number s =
     (let neg = (case s of [] \<Rightarrow> False | c # cs \<Rightarrow> c = CHR ''-'');
          s1 = (if neg then tl s else s)
      in case take_digits s1 of
           (ip, s2) \<Rightarrow>
             if ip = [] \<or> (1 < length ip \<and> hd ip = CHR ''0'') then None
             else
               (case parse_frac s2 of
                  None \<Rightarrow> None
                | Some (fp, s3) \<Rightarrow>
                    (case parse_exp s3 of
                       None \<Rightarrow> None
                     | Some (ex, s4) \<Rightarrow>
                         Some (Num ((if neg then - 1 else 1) * int (digits_val (ip @ fp)))
                                   (ex - int (length fp)), s4))))"

definition hex_val :: "char \<Rightarrow> nat option" where
  "hex_val c =
     (let n = (of_char c :: nat)
      in if 48 \<le> n \<and> n \<le> 57 then Some (n - 48)
         else if 97 \<le> n \<and> n \<le> 102 then Some (n - 87)
         else if 65 \<le> n \<and> n \<le> 70 then Some (n - 55)
         else None)"

definition simple_escape :: "char \<Rightarrow> char option" where
  "simple_escape e =
     (if e = CHR 0x22 then Some (CHR 0x22)
      else if e = CHR 0x5C then Some (CHR 0x5C)
      else if e = CHR ''/'' then Some (CHR ''/'')
      else if e = CHR ''b'' then Some (CHR 0x08)
      else if e = CHR ''f'' then Some (CHR 0x0C)
      else if e = CHR ''n'' then Some (CHR 0x0A)
      else if e = CHR ''r'' then Some (CHR 0x0D)
      else if e = CHR ''t'' then Some (CHR 0x09)
      else None)"

text \<open>
  The body of a string literal, after the opening quote. A \<open>\\u\<close> escape gives the code
  unit; the characters of this model have eight bits, so the unit is taken modulo 256.
\<close>

fun parse_string :: "string \<Rightarrow> (string \<times> string) option" where
  "parse_string [] = None"
| "parse_string (c # cs) =
     (if c = CHR 0x22 then Some ([], cs)
      else if c = CHR 0x5C then
        (case cs of
           [] \<Rightarrow> None
         | e # r \<Rightarrow>
             if e = CHR ''u'' then
               (case r of
                  a # b # c' # d # r' \<Rightarrow>
                    (case (hex_val a, hex_val b, hex_val c', hex_val d) of
                       (Some x1, Some x2, Some x3, Some x4) \<Rightarrow>
                         (case parse_string r' of
                            None \<Rightarrow> None
                          | Some (s, t) \<Rightarrow> Some (char_of (16 * x3 + x4) # s, t))
                     | _ \<Rightarrow> None)
                | _ \<Rightarrow> None)
             else
               (case simple_escape e of
                  None \<Rightarrow> None
                | Some ch \<Rightarrow>
                    (case parse_string r of
                       None \<Rightarrow> None
                     | Some (s, t) \<Rightarrow> Some (ch # s, t))))
      else if (of_char c :: nat) < 32 then None
      else (case parse_string cs of None \<Rightarrow> None | Some (s, t) \<Rightarrow> Some (c # s, t)))"

datatype tok = LBrack | RBrack | LBrace | RBrace | Comma | Colon | Scalar jsval

text \<open>One token from the front of the input (which does not start with white space).\<close>

definition next_tok :: "string \<Rightarrow> (tok \<times> string) option" where
  "next_tok s =
     (case s of
        [] \<Rightarrow> None
      | c # cs \<Rightarrow>
          if c = CHR ''['' then Some (LBrack, cs)
          else if c = CHR '']'' then Some (RBrack, cs)
          else if c = CHR ''{'' then Some (LBrace, cs)
          else if c = CHR ''}'' then Some (RBrace, cs)
          else if c = CHR '','' then Some (Comma, cs)
          else if c = CHR '':'' then Some (Colon, cs)
          else if c = CHR 0x22 then
            (case parse_string cs of None \<Rightarrow> None | Some (str, r) \<Rightarrow> Some (Scalar (Str str), r))
          else if c = CHR ''t'' then
            map_option (\<lambda>r. (Scalar (Bool True), r)) (strip_prefix ''true'' s)
          else if c = CHR ''f'' then
            map_option (\<lambda>r. (Scalar (Bool False), r)) (strip_prefix ''false'' s)
          else if c = CHR ''n'' then
            map_option (\<lambda>r. (Scalar Null, r)) (strip_prefix ''null'' s)
          else
            (case parse_number s of None \<Rightarrow> None | Some (v, r) \<Rightarrow> Some (Scalar v, r)))"

lemma take_digits_length: "take_digits s = (ds, r) \<Longrightarrow> length s = length ds + length r"
  by (induction s arbitrary: ds r) (auto split: if_splits prod.splits)

lemma strip_prefix_length: "strip_prefix p s = Some r \<Longrightarrow> length s = length p + length r"
  by (induction p s rule: strip_prefix.induct) (auto split: if_splits)

lemma parse_string_length: "parse_string s = Some (str, r) \<Longrightarrow> length r < length s"
proof (induction s arbitrary: str r rule: parse_string.induct)
  case 1
  then show ?case by simp
next
  case (2 c cs)
  show ?case
  proof (cases "c = CHR 0x22")
    case True
    with "2.prems" show ?thesis by simp
  next
    case notq: False
    show ?thesis
    proof (cases "c = CHR 0x5C")
      case False
      with notq "2.prems" "2.IH"(3) show ?thesis
        by (fastforce split: if_splits option.splits)
    next
      case bs: True
      show ?thesis
      proof (cases cs)
        case Nil
        with bs notq "2.prems" show ?thesis by simp
      next
        case (Cons e r0)
        show ?thesis
        proof (cases "e = CHR ''u''")
          case False
          with bs notq Cons "2.prems" "2.IH"(2) show ?thesis
            by (fastforce split: if_splits option.splits)
        next
          case True
          with bs notq Cons "2.prems" "2.IH"(1) show ?thesis
            by (fastforce split: if_splits option.splits list.splits)
        qed
      qed
    qed
  qed
qed

lemma parse_number_length: "parse_number s = Some (v, r) \<Longrightarrow> length r < length s"
proof -
  assume a: "parse_number s = Some (v, r)"
  define n where "n = (case s of [] \<Rightarrow> False | c # cs \<Rightarrow> c = CHR ''-'')"
  define t where "t = (if n then tl s else s)"
  obtain ip s2 where td: "take_digits t = (ip, s2)" by force
  have lt: "length t \<le> length s" by (simp add: t_def)
  from a td have ip: "ip \<noteq> []"
    by (auto simp: parse_number_def Let_def n_def t_def split: if_splits)
  from a td ip obtain fp s3 where pf: "parse_frac s2 = Some (fp, s3)"
    by (auto simp: parse_number_def Let_def n_def t_def split: if_splits option.splits)
  from a td ip pf obtain ex where pe: "parse_exp s3 = Some (ex, r)"
    by (auto simp: parse_number_def Let_def n_def t_def split: if_splits option.splits)
  from pf have l3: "length s3 \<le> length s2"
    by (auto simp: parse_frac_def split: list.splits if_splits prod.splits dest: take_digits_length)
  from pe have l4: "length r \<le> length s3"
    by (auto simp: parse_exp_def Let_def split: list.splits if_splits prod.splits
        dest!: take_digits_length)
  from take_digits_length [OF td] ip have "length s2 < length t"
    by (cases ip) auto
  with l3 l4 lt show ?thesis by linarith
qed

lemma next_tok_length: "next_tok s = Some (t, r) \<Longrightarrow> length r < length s"
  by (auto simp: next_tok_def split: list.splits if_splits option.splits
      dest: parse_string_length parse_number_length dest!: strip_prefix_length)

function tokenize :: "string \<Rightarrow> tok list option" where
  "tokenize [] = Some []"
| "tokenize (c # cs) =
     (if is_ws c then tokenize cs
      else
        (case next_tok (c # cs) of
           None \<Rightarrow> None
         | Some (t, r) \<Rightarrow> (case tokenize r of None \<Rightarrow> None | Some ts \<Rightarrow> Some (t # ts))))"
  by pat_completeness auto
termination
  by (relation "measure length") (auto dest: next_tok_length)

text \<open>
  The grammar, as a machine with a stack of the containers that are open: an array with
  the elements read so far (latest first), an object with its members, a key that waits
  for its value.
\<close>

datatype frame = FArr "jsval list" | FObj "(string \<times> jsval) list" | FKey string

datatype expect =
  ExpValue | ExpValueOrClose | ExpKeyOrClose | ExpKey | ExpColon | ExpCommaOrClose | Done jsval

fun put_value :: "jsval \<Rightarrow> frame list \<Rightarrow> (frame list \<times> expect) option" where
  "put_value v [] = Some ([], Done v)"
| "put_value v (FArr acc # stk) = Some (FArr (v # acc) # stk, ExpCommaOrClose)"
| "put_value v (FKey k # FObj acc # stk) = Some (FObj ((k, v) # acc) # stk, ExpCommaOrClose)"
| "put_value v stk = None"

fun parse_step :: "tok \<Rightarrow> frame list \<times> expect \<Rightarrow> (frame list \<times> expect) option" where
  "parse_step t (stk, Done v) = None"
| "parse_step (Scalar v) (stk, ExpValue) = put_value v stk"
| "parse_step (Scalar v) (stk, ExpValueOrClose) = put_value v stk"
| "parse_step (Scalar (Str k)) (stk, ExpKeyOrClose) = Some (FKey k # stk, ExpColon)"
| "parse_step (Scalar (Str k)) (stk, ExpKey) = Some (FKey k # stk, ExpColon)"
| "parse_step LBrack (stk, ExpValue) = Some (FArr [] # stk, ExpValueOrClose)"
| "parse_step LBrack (stk, ExpValueOrClose) = Some (FArr [] # stk, ExpValueOrClose)"
| "parse_step LBrace (stk, ExpValue) = Some (FObj [] # stk, ExpKeyOrClose)"
| "parse_step LBrace (stk, ExpValueOrClose) = Some (FObj [] # stk, ExpKeyOrClose)"
| "parse_step RBrack (FArr acc # stk, ExpValueOrClose) = put_value (Arr (rev acc)) stk"
| "parse_step RBrack (FArr acc # stk, ExpCommaOrClose) = put_value (Arr (rev acc)) stk"
| "parse_step RBrace (FObj acc # stk, ExpKeyOrClose) = put_value (Obj (rev acc)) stk"
| "parse_step RBrace (FObj acc # stk, ExpCommaOrClose) = put_value (Obj (rev acc)) stk"
| "parse_step Comma (FArr acc # stk, ExpCommaOrClose) = Some (FArr acc # stk, ExpValue)"
| "parse_step Comma (FObj acc # stk, ExpCommaOrClose) = Some (FObj acc # stk, ExpKey)"
| "parse_step Colon (stk, ExpColon) = Some (stk, ExpValue)"
| "parse_step t st = None"

fun parse_toks :: "tok list \<Rightarrow> frame list \<times> expect \<Rightarrow> jsval option" where
  "parse_toks [] (stk, Done v) = Some v"
| "parse_toks [] st = None"
| "parse_toks (t # ts) st =
     (case parse_step t st of None \<Rightarrow> None | Some st' \<Rightarrow> parse_toks ts st')"

text \<open>\<open>JSON.parse\<close>: \<open>None\<close> stands for the SyntaxError it throws.\<close>

definition JSON_parse :: "string \<Rightarrow> jsval option" where
  "JSON_parse s =
     (case tokenize s of None \<Rightarrow> None | Some ts \<Rightarrow> parse_toks ts ([], ExpValue))"

subsection \<open>Reading properties and converting values\<close>

text \<open>
  \<open>v[i]\<close> for a value that is neither null nor undefined (on those the read throws a
  TypeError, which the callers check first). An object answers with its own property
  of that name; a later duplicate key of the JSON text wins.
\<close>

definition js_prop :: "jsval \<Rightarrow> nat \<Rightarrow> jsval" where
  "js_prop v i =
     (case v of
        Arr xs \<Rightarrow> if i < length xs then xs ! i else Undefined
      | Str s \<Rightarrow> if i < length s then Str [s ! i] else Undefined
      | Obj kvs \<Rightarrow> (case map_of (rev kvs) (show_nat i) of None \<Rightarrow> Undefined | Some x \<Rightarrow> x)
      | _ \<Rightarrow> Undefined)"

fun split_on :: "char \<Rightarrow> string \<Rightarrow> string list" where
  "split_on c [] = [[]]"
| "split_on c (x # xs) =
     (if x = c then [] # split_on c xs
      else (case split_on c xs of [] \<Rightarrow> [[x]] | p # ps \<Rightarrow> (x # p) # ps))"

text \<open>
  A string used as a key of a node list names an element only when it is the canonical
  decimal form of an index. Any other key gives something that is not a node, and the
  next use of it throws a TypeError: both are \<open>None\<close> here.
\<close>

definition index_of_key :: "string \<Rightarrow> nat option" where
  "index_of_key s =
     (if s \<noteq> [] \<and> list_all is_digit s \<and> (s = ''0'' \<or> hd s \<noteq> CHR ''0'')
      then Some (digits_val s) else None)"

definition item :: "nat list \<Rightarrow> nat \<Rightarrow> nat option" where
  "item cs i = (if i < length cs then Some (cs ! i) else None)"

definition item_key :: "nat list \<Rightarrow> string \<Rightarrow> nat option" where
  "item_key cs s = (case index_of_key s of None \<Rightarrow> None | Some i \<Rightarrow> item cs i)"

text \<open>
  The number a string converts to, when it is a natural number: decimal digits, white
  space around them allowed, the empty string being 0. The other spellings JavaScript
  accepts (a sign, a fraction, an exponent, a radix prefix) are read as NaN here; the
  serializer never writes them into a path.
\<close>

definition trim :: "string \<Rightarrow> string" where
  "trim s = rev (dropWhile is_ws (rev (dropWhile is_ws s)))"

definition to_nat_str :: "string \<Rightarrow> nat option" where
  "to_nat_str s = (if list_all is_digit (trim s) then Some (digits_val (trim s)) else None)"

text \<open>
  The conversion of an argument to an \<open>unsigned long\<close> (the offset of \<open>splitText\<close>):
  the number it converts to, truncated, modulo \<open>2 ^ 32\<close>; NaN becomes 0.
\<close>

fun to_unsigned_long :: "jsval \<Rightarrow> nat" where
  "to_unsigned_long Undefined = 0"
| "to_unsigned_long Null = 0"
| "to_unsigned_long (Bool b) = (if b then 1 else 0)"
| "to_unsigned_long (Num m e) =
     nat ((if 0 \<le> e then m * 10 ^ nat e
           else sgn m * (\<bar>m\<bar> div 10 ^ nat (- e))) mod 2 ^ 32)"
| "to_unsigned_long (Str s) = (case to_nat_str s of None \<Rightarrow> 0 | Some n \<Rightarrow> n mod 2 ^ 32)"
| "to_unsigned_long (Arr [x]) =
     (case x of Obj kvs \<Rightarrow> 0 | Bool b \<Rightarrow> 0 | _ \<Rightarrow> to_unsigned_long x)"
| "to_unsigned_long (Arr xs) = 0"
| "to_unsigned_long (Obj kvs) = 0"

section \<open>The helpers of the dom module\<close>

text \<open>
  Modelled from the spec: the module \<open>dom.js\<close> (the wrapper object \<open>dom(el)\<close> with
  \<open>remove\<close>, \<open>wrap\<close>, \<open>unwrap\<close>, \<open>insertBefore\<close>, \<open>insertAfter\<close>, \<open>prepend\<close>, \<open>append\<close>,
  \<open>normalizeTextNodes\<close>, \<open>color\<close>, \<open>parents\<close>, \<open>fromHTML\<close>) is not among the sources. The
  spec names these as tree primitives (node creation, navigation, node removal) and
  says what each is used for; they are written here on the DOM operations above.
\<close>

text \<open>Modelled from the spec: \<open>dom(el).remove()\<close>, node removal.\<close>

definition dom_remove :: "dnode list \<Rightarrow> nat \<Rightarrow> dnode list" where
  "dom_remove f k = detach f k"

text \<open>
  Modelled from the spec: \<open>dom(el).wrap(wrapper)\<close>, "wrap the text node in it": the
  wrapper takes the place of the node in the node's parent and the node becomes the
  wrapper's last child; the wrapper is returned.
\<close>

definition wrap :: "dnode list \<Rightarrow> nat \<Rightarrow> nat \<Rightarrow> dnode list \<times> (js_error + nat)" where
  "wrap f k w =
     (case parentNode f k of
        None \<Rightarrow>
          (case appendChild f w k of Inl e \<Rightarrow> (f, Inl e) | Inr f2 \<Rightarrow> (f2, Inr w))
      | Some p \<Rightarrow>
          (case insertBefore f p w (Some k) of
             Inl e \<Rightarrow> (f, Inl e)
           | Inr f1 \<Rightarrow>
               (case appendChild f1 w k of Inl e \<Rightarrow> (f1, Inl e) | Inr f2 \<Rightarrow> (f2, Inr w))))"

text \<open>
  Modelled from the spec: \<open>dom().fromHTML(html)[0]\<close>, the first node that the text
  parses to as HTML ("an element reconstructed from the stored wrapper template").
  Parsing HTML is the platform's; it is a parameter of the model, a function from the
  value to the parsed node (none when the text holds no node). The parsed node is a
  tree without identities, which \<open>instantiate\<close> turns into new nodes.
\<close>

datatype html = HText string | HElement einfo "html list"

fun instantiate :: "nat \<Rightarrow> html \<Rightarrow> dnode \<times> nat"
  and instantiate_list :: "nat \<Rightarrow> html list \<Rightarrow> dnode list \<times> nat" where
  "instantiate i (HText s) = (Text i s, Suc i)"
| "instantiate i (HElement e hs) =
     (case instantiate_list (Suc i) hs of (cs, j) \<Rightarrow> (Element i e cs, j))"
| "instantiate_list i [] = ([], i)"
| "instantiate_list i (h # hs) =
     (case instantiate i h of
        (c, j) \<Rightarrow> (case instantiate_list j hs of (cs, k) \<Rightarrow> (c # cs, k)))"

definition create_from :: "dnode list \<Rightarrow> html \<Rightarrow> dnode list \<times> nat" where
  "create_from f h = (f @ [fst (instantiate (fresh f) h)], fresh f)"

section \<open>Deserializing highlights\<close>

text \<open>
  \<open>deserializeHighlights\<close> of text-highlighter.js. A step that throws inside
  \<open>deserializationFn\<close> is caught by the caller, so the function returns the forest as
  it is at that moment together with the error.
\<close>

fun walk_path :: "dnode list \<Rightarrow> nat option \<Rightarrow> string list \<Rightarrow> js_error + nat option" where
  "walk_path f node [] = Inr node"
| "walk_path f node (idx # rest) =
     (if idx = [] then Inr node
      else
        (case node of
           None \<Rightarrow> Inl TypeError
         | Some n \<Rightarrow> walk_path f (item_key (childNodes f n) idx) rest))"

definition falsy_value :: "dnode list \<Rightarrow> nat \<Rightarrow> bool" where
  "falsy_value f k = (case nodeValue f k of None \<Rightarrow> True | Some s \<Rightarrow> s = [])"

definition carve ::
  "(jsval \<Rightarrow> html option) \<Rightarrow> dnode list \<Rightarrow> nat \<Rightarrow> jsval \<Rightarrow> jsval \<Rightarrow> jsval
     \<Rightarrow> dnode list \<times> (js_error + nat)" where
  "carve fromHTML f node wrapper offset len =
     (case splitText f node (to_unsigned_long offset) of
        Inl e \<Rightarrow> (f, Inl e)
      | Inr (f1, hlNode) \<Rightarrow>
          (case splitText f1 hlNode (to_unsigned_long len) of
             Inl e \<Rightarrow> (f1, Inl e)
           | Inr (f2, rest) \<Rightarrow>
               (let f3 = (case nextSibling f2 hlNode of
                            None \<Rightarrow> f2
                          | Some nx \<Rightarrow> if falsy_value f2 nx then dom_remove f2 nx else f2);
                    f4 = (case previousSibling f3 hlNode of
                            None \<Rightarrow> f3
                          | Some pv \<Rightarrow> if falsy_value f3 pv then dom_remove f3 pv else f3)
                in case fromHTML wrapper of
                     None \<Rightarrow> (f4, Inl TypeError)
                   | Some h \<Rightarrow> (case create_from f4 h of (f5, w) \<Rightarrow> wrap f5 hlNode w))))"

definition deserializationFn ::
  "(jsval \<Rightarrow> html option) \<Rightarrow> nat \<Rightarrow> dnode list \<Rightarrow> jsval \<Rightarrow> dnode list \<times> (js_error + nat)" where
  "deserializationFn fromHTML el f hlDescriptor =
     (if hlDescriptor = Undefined \<or> hlDescriptor = Null then (f, Inl TypeError)
      else
        (case js_prop hlDescriptor 2 of
           Str ps \<Rightarrow>
             (let path = split_on (CHR '':'') ps;
                  elIndex = last path
              in case walk_path f (Some el) (butlast path) of
                   Inl e \<Rightarrow> (f, Inl e)
                 | Inr None \<Rightarrow> (f, Inl TypeError)
                 | Inr (Some node) \<Rightarrow>
                     (let cn = childNodes f node;
                          target =
                            (case to_nat_str elIndex of
                               Some (Suc j) \<Rightarrow>
                                 if (case item cn j of
                                       None \<Rightarrow> False
                                     | Some c \<Rightarrow> nodeType f c = Some TEXT_NODE)
                                 then item cn j
                                 else item_key cn elIndex
                             | _ \<Rightarrow> item_key cn elIndex)
                      in case target of
                           None \<Rightarrow> (f, Inl TypeError)
                         | Some t \<Rightarrow>
                             carve fromHTML f t (js_prop hlDescriptor 0)
                               (js_prop hlDescriptor 3) (js_prop hlDescriptor 4)))
         | _ \<Rightarrow> (f, Inl TypeError)))"

text \<open>
  The loop over the descriptors, with its try and catch: a failing descriptor adds its
  cause to the warnings and the loop goes on.
\<close>

fun deserializeAll ::
  "(jsval \<Rightarrow> html option) \<Rightarrow> nat \<Rightarrow> dnode list \<Rightarrow> jsval list
     \<Rightarrow> dnode list \<times> nat list \<times> js_error list" where
  "deserializeAll fromHTML el f [] = (f, [], [])"
| "deserializeAll fromHTML el f (d # ds) =
     (case deserializationFn fromHTML el f d of
        (f1, Inl e) \<Rightarrow>
          (case deserializeAll fromHTML el f1 ds of (f2, hs, ws) \<Rightarrow> (f2, hs, e # ws))
      | (f1, Inr h) \<Rightarrow>
          (case deserializeAll fromHTML el f1 ds of (f2, hs, ws) \<Rightarrow> (f2, h # hs, ws)))"

text \<open>
  The result is an error thrown to the caller, or the forest, the highlights created
  and the causes that were logged as warnings.
\<close>

definition deserializeHighlights ::
  "(jsval \<Rightarrow> html option) \<Rightarrow> nat \<Rightarrow> dnode list \<Rightarrow> string
     \<Rightarrow> js_error + (dnode list \<times> nat list \<times> js_error list)" where
  "deserializeHighlights fromHTML el f json =
     (if json = [] then Inr (f, [], [])
      else
        (case JSON_parse json of
           None \<Rightarrow> Inl CantParseJSON
         | Some (Arr hlDescriptors) \<Rightarrow> Inr (deserializeAll fromHTML el f hlDescriptors)
         | Some other \<Rightarrow> Inl TypeError))"

section \<open>Example documents\<close>

definition yellow_span :: einfo where
  "yellow_span =
     \<lparr>tagName = ''SPAN'', attributes = [(''data-highlighted'', ''true'')],
      backgroundColor = ''yellow''\<rparr>"

definition p_elem :: einfo where
  "p_elem = \<lparr>tagName = ''P'', attributes = [], backgroundColor = []\<rparr>"

definition no_html :: "jsval \<Rightarrow> html option" where
  "no_html v = None"

definition fox_doc :: "dnode list" where
  "fox_doc = [Element 0 p_elem [Text 1 ''The quick brown fox'']]"

section \<open>Errors of deserializeHighlights\<close>

lemma parse_not_json: "JSON_parse ''not json'' = None"
  by code_simp

lemma parse_one_tuple: "JSON_parse ''[[1]]'' = Some (Arr [Arr [Num 1 0]])"
  by code_simp

lemma parse_empty: "JSON_parse [] = None"
  by (simp add: JSON_parse_def)

lemma descriptor_without_path:
  "deserializationFn fromHTML el f (Arr [Num 1 0]) = (f, Inl TypeError)"
  by (simp add: deserializationFn_def js_prop_def)

lemma deserializeAll_length:
  "deserializeAll fromHTML el f ds = (f', hs, ws) \<Longrightarrow> length hs + length ws = length ds"
proof (induction ds arbitrary: f f' hs ws)
  case Nil
  then show ?case by simp
next
  case (Cons d ds)
  obtain f1 r where d: "deserializationFn fromHTML el f d = (f1, r)"
    by (cases "deserializationFn fromHTML el f d")
  obtain f2 hs2 ws2 where rest: "deserializeAll fromHTML el f1 ds = (f2, hs2, ws2)"
    by (cases "deserializeAll fromHTML el f1 ds")
  from Cons.IH [OF rest] have "length hs2 + length ws2 = length ds" .
  with Cons.prems d rest show ?case
    by (cases r) auto
qed

text \<open>
  C9. For the empty string, the only falsy string, \<open>deserializeHighlights\<close> returns an
  empty array of highlights: it does not throw, logs nothing and leaves the tree as it
  is, although the empty string is not parseable JSON.
\<close>

theorem deserializeHighlights_empty_string:
  "deserializeHighlights fromHTML el f [] = Inr (f, [], []) \<and> JSON_parse [] = None"
  by (simp add: deserializeHighlights_def parse_empty)

text \<open>
  C7. On the input \<open>not json\<close> \<open>deserializeHighlights\<close> throws the parse error. On
  \<open>[[1]]\<close> it does not throw: the one descriptor fails (a TypeError, logged as a warning),
  the tree is untouched and the array of highlights returned is empty.
\<close>

theorem deserializeHighlights_scenario:
  "deserializeHighlights fromHTML el f ''not json'' = Inl CantParseJSON \<and>
   deserializeHighlights fromHTML el f ''[[1]]'' = Inr (f, [], [TypeError])"
  by (simp add: deserializeHighlights_def parse_not_json parse_one_tuple descriptor_without_path)

text \<open>
  C6, as the claim states it, fails: the text \<open>[[1]]\<close> parses to an array whose element
  is not a 5-tuple, and \<open>deserializeHighlights\<close> returns normally.
\<close>

theorem wrong_tuple_shape_not_fatal:
  "JSON_parse ''[[1]]'' = Some (Arr [Arr [Num 1 0]]) \<and>
   deserializeHighlights no_html 0 fox_doc ''[[1]]'' = Inr (fox_doc, [], [TypeError])"
  by (simp add: deserializeHighlights_def parse_one_tuple descriptor_without_path)

text \<open>
  C6, amended. For a non-empty input, \<open>deserializeHighlights\<close> throws exactly when the
  text is not parseable (the parse error) or parses to something that is not an array
  (a TypeError, a different error). When the text parses to an array it never throws,
  whatever the shape of the elements: every element gives a highlight or a logged
  warning.
\<close>

theorem deserializeHighlights_fatal_errors:
  "json \<noteq> [] \<Longrightarrow>
   (JSON_parse json = None \<longrightarrow>
      deserializeHighlights fromHTML el f json = Inl CantParseJSON) \<and>
   (\<forall>v. JSON_parse json = Some v \<longrightarrow> (\<forall>ds. v \<noteq> Arr ds) \<longrightarrow>
      deserializeHighlights fromHTML el f json = Inl TypeError) \<and>
   (\<forall>ds. JSON_parse json = Some (Arr ds) \<longrightarrow>
      (\<exists>f' hs ws. deserializeHighlights fromHTML el f json = Inr (f', hs, ws) \<and>
         length hs + length ws = length ds))"
proof (intro conjI allI impI)
  assume "json \<noteq> []" "JSON_parse json = None"
  then show "deserializeHighlights fromHTML el f json = Inl CantParseJSON"
    by (simp add: deserializeHighlights_def)
next
  fix v
  assume "json \<noteq> []" "JSON_parse json = Some v" "\<forall>ds. v \<noteq> Arr ds"
  then show "deserializeHighlights fromHTML el f json = Inl TypeError"
    by (cases v) (simp_all add: deserializeHighlights_def)
next
  fix ds
  assume a: "json \<noteq> []" "JSON_parse json = Some (Arr ds)"
  obtain f' hs ws where r: "deserializeAll fromHTML el f ds = (f', hs, ws)"
    by (cases "deserializeAll fromHTML el f ds")
  from deserializeAll_length [OF r] a r
  show "\<exists>f' hs ws. deserializeHighlights fromHTML el f json = Inr (f', hs, ws) \<and>
         length hs + length ws = length ds"
    by (simp add: deserializeHighlights_def)
qed

lemma parse_object: "JSON_parse ''{}'' = Some (Obj [])"
  by code_simp

theorem deserializeHighlights_fatal_errors_witness:
  "deserializeHighlights no_html 0 fox_doc ''not json'' = Inl CantParseJSON \<and>
   deserializeHighlights no_html 0 fox_doc ''{}'' = Inl TypeError \<and>
   deserializeHighlights no_html 0 fox_doc ''[[1]]'' = Inr (fox_doc, [], [TypeError])"
  using deserializeHighlights_fatal_errors [of "''not json''" no_html 0 fox_doc]
    deserializeHighlights_fatal_errors [of "''{}''" no_html 0 fox_doc]
    deserializeHighlights_fatal_errors [of "''[[1]]''" no_html 0 fox_doc]
  by (simp add: parse_not_json parse_object parse_one_tuple deserializeHighlights_def
      descriptor_without_path)

section \<open>Reasoning about forests\<close>

definition ids :: "dnode list \<Rightarrow> nat list" where
  "ids f = map nid (nodes f)"

lemma forest_induct [case_names Nil Text Element]:
  assumes "P []"
    and "\<And>i s f. P f \<Longrightarrow> P (Text i s # f)"
    and "\<And>i e cs f. P cs \<Longrightarrow> P f \<Longrightarrow> P (Element i e cs # f)"
  shows "P f"
proof (induction f rule: measure_induct_rule [where f = "size_list size"])
  case (less f)
  show ?case
  proof (cases f)
    case Nil
    with assms(1) show ?thesis by simp
  next
    case (Cons t f')
    show ?thesis
    proof (cases t)
      case (Text i s)
      with Cons less [of f'] assms(2) show ?thesis by simp
    next
      case (Element i e cs)
      with Cons less [of f'] less [of cs] assms(3) show ?thesis by simp
    qed
  qed
qed

lemma find_append:
  "find P (xs @ ys) = (case find P xs of None \<Rightarrow> find P ys | Some x \<Rightarrow> Some x)"
  by (induction xs) auto

lemma find_distinct:
  "distinct (map g xs) \<Longrightarrow> x \<in> set xs \<Longrightarrow> find (\<lambda>y. g y = g x) xs = Some x"
  by (induction xs) (auto simp: image_iff)

lemma nodes_simps [simp]:
  "nodes [] = []"
  "nodes (Text i s # f) = Text i s # nodes f"
  "nodes (Element i e cs # f) = Element i e cs # nodes cs @ nodes f"
  by (simp_all add: nodes_def)

lemma nodes_append [simp]: "nodes (f @ g) = nodes f @ nodes g"
  by (simp add: nodes_def)

lemma ids_simps [simp]:
  "ids [] = []"
  "ids (Text i s # f) = i # ids f"
  "ids (Element i e cs # f) = i # ids cs @ ids f"
  by (simp_all add: ids_def)

lemma ids_append [simp]: "ids (f @ g) = ids f @ ids g"
  by (simp add: ids_def)

lemma lookup_simps [simp]:
  "lookup [] k = None"
  "lookup (Text i s # f) k = (if i = k then Some (Text i s) else lookup f k)"
  "lookup (Element i e cs # f) k =
     (if i = k then Some (Element i e cs)
      else (case lookup cs k of None \<Rightarrow> lookup f k | Some n \<Rightarrow> Some n))"
  unfolding lookup_def by (simp_all add: find_append)

lemma parent_of_simps [simp]:
  "parent_of [] k = None"
  "parent_of (Text i s # f) k = parent_of f k"
  "parent_of (Element i e cs # f) k =
     (if k \<in> nid ` set cs then Some (Element i e cs)
      else (case parent_of cs k of None \<Rightarrow> parent_of f k | Some n \<Rightarrow> Some n))"
  unfolding parent_of_def by (simp_all add: find_append cong: option.case_cong)

lemma lookup_nid: "lookup f k = Some n \<Longrightarrow> nid n = k"
  by (auto simp: lookup_def dest: find_Some_iff [THEN iffD1])

lemma lookup_in_nodes: "lookup f k = Some n \<Longrightarrow> n \<in> set (nodes f)"
  by (auto simp: lookup_def find_Some_iff)

lemma lookup_None_iff: "lookup f k = None \<longleftrightarrow> k \<notin> set (ids f)"
  by (auto simp: lookup_def ids_def find_None_iff)

lemma roots_in_ids: "t \<in> set f \<Longrightarrow> nid t \<in> set (ids f)"
  by (induction f rule: forest_induct) auto

lemma kids_in_nodes: "n \<in> set (nodes f) \<Longrightarrow> c \<in> set (kids n) \<Longrightarrow> c \<in> set (nodes f)"
proof (induction f rule: forest_induct)
  case Nil
  then show ?case by simp
next
  case (Text i s f)
  then show ?case by auto
next
  case (Element i e cs f)
  have "c \<in> set cs \<Longrightarrow> c \<in> set (nodes cs)"
    by (cases c; induction cs rule: forest_induct) auto
  with Element show ?case by auto
qed

lemma lookup_unique:
  "distinct (ids f) \<Longrightarrow> n \<in> set (nodes f) \<Longrightarrow> lookup f (nid n) = Some n"
  unfolding ids_def lookup_def by (rule find_distinct)


lemma nodes_kids_subset: "n \<in> set (nodes f) \<Longrightarrow> set (nodes (kids n)) \<subseteq> set (nodes f)"
  by (induction f rule: forest_induct) auto

lemma in_nodes_ids: "n \<in> set (nodes f) \<Longrightarrow> nid n \<in> set (ids f)"
  by (simp add: ids_def)

lemma ids_obtain: "k \<in> set (ids f) \<Longrightarrow> \<exists>n \<in> set (nodes f). nid n = k"
  by (auto simp: ids_def)

lemma roots_subset_nodes: "set f \<subseteq> set (nodes f)"
proof
  fix t assume "t \<in> set f"
  then show "t \<in> set (nodes f)"
    by (induction f rule: forest_induct) auto
qed

lemma kid_not_root:
  "distinct (ids f) \<Longrightarrow> P \<in> set (nodes f) \<Longrightarrow> c \<in> set (kids P) \<Longrightarrow> nid c \<notin> nid ` set f"
proof (induction f rule: forest_induct)
  case Nil
  then show ?case by simp
next
  case (Text i s f)
  from Text.prems have "c \<in> set (nodes f)" by (auto dest: kids_in_nodes)
  then have "nid c \<in> set (ids f)" by (rule in_nodes_ids)
  with Text show ?case by auto
next
  case (Element i e cs f)
  from Element.prems(1) have d: "distinct (ids cs)" "distinct (ids f)"
    "i \<notin> set (ids cs)" "i \<notin> set (ids f)" "set (ids cs) \<inter> set (ids f) = {}"
    by auto
  have roots: "nid ` set f \<subseteq> set (ids f)" by (auto dest: roots_in_ids)
  from Element.prems(2) consider "P = Element i e cs" | "P \<in> set (nodes cs)" | "P \<in> set (nodes f)"
    by auto
  then show ?case
  proof cases
    case 1
    with Element.prems(3) have "c \<in> set cs" by simp
    then have "nid c \<in> set (ids cs)" by (rule roots_in_ids)
    with d roots show ?thesis by auto
  next
    case 2
    with Element.prems(3) have "c \<in> set (nodes cs)" by (auto dest: kids_in_nodes)
    then have "nid c \<in> set (ids cs)" by (rule in_nodes_ids)
    with d roots show ?thesis by auto
  next
    case 3
    with Element.prems(3) have "c \<in> set (nodes f)" by (auto dest: kids_in_nodes)
    then have "nid c \<in> set (ids f)" by (rule in_nodes_ids)
    moreover from Element.IH(2) [OF d(2) 3 Element.prems(3)] have "nid c \<notin> nid ` set f" .
    ultimately show ?thesis using d by auto
  qed
qed

lemma parent_of_in_ids: "parent_of f k = Some P \<Longrightarrow> k \<in> set (ids f)"
proof -
  assume "parent_of f k = Some P"
  then have "P \<in> set (nodes f)" "k \<in> nid ` set (kids P)"
    by (auto simp: parent_of_def find_Some_iff)
  then obtain c where "c \<in> set (kids P)" "nid c = k" by auto
  with \<open>P \<in> set (nodes f)\<close> show ?thesis
    by (auto dest: kids_in_nodes in_nodes_ids)
qed

lemma parent_of_Some_D:
  "parent_of f k = Some P \<Longrightarrow> P \<in> set (nodes f) \<and> k \<in> nid ` set (kids P)"
  by (auto simp: parent_of_def find_Some_iff)

lemma parent_of_unique:
  "distinct (ids f) \<Longrightarrow> P \<in> set (nodes f) \<Longrightarrow> k \<in> nid ` set (kids P) \<Longrightarrow> parent_of f k = Some P"
proof (induction f rule: forest_induct)
  case Nil
  then show ?case by simp
next
  case (Text i s f)
  then show ?case by auto
next
  case (Element i e cs f)
  from Element.prems(1) have d: "distinct (ids cs)" "distinct (ids f)"
    "i \<notin> set (ids cs)" "i \<notin> set (ids f)" "set (ids cs) \<inter> set (ids f) = {}"
    by auto
  from Element.prems(3) obtain c where c: "c \<in> set (kids P)" "nid c = k" by auto
  from Element.prems(2) consider "P = Element i e cs" | "P \<in> set (nodes cs)" | "P \<in> set (nodes f)"
    by auto
  then show ?case
  proof cases
    case 1
    with Element.prems(3) show ?thesis by simp
  next
    case 2
    from kid_not_root [OF d(1) 2 c(1)] c(2) have "k \<notin> nid ` set cs" by simp
    with Element.IH(1) [OF d(1) 2 Element.prems(3)] show ?thesis by simp
  next
    case 3
    from 3 c have "k \<in> set (ids f)" by (auto dest: kids_in_nodes in_nodes_ids)
    with d have notcs: "k \<notin> set (ids cs)" by auto
    then have "k \<notin> nid ` set cs" by (auto dest: roots_in_ids)
    moreover from notcs have "parent_of cs k = None"
      by (cases "parent_of cs k") (auto dest: parent_of_in_ids)
    ultimately show ?thesis using Element.IH(2) [OF d(2) 3 Element.prems(3)] by simp
  qed
qed

lemma size_in_nodes: "n \<in> set (nodes f) \<Longrightarrow> size n \<le> size_list size f"
  by (induction f rule: forest_induct) auto


section \<open>Editing a list of children\<close>

lemma edit_kids_roots [simp]: "map nid (edit_kids p g f) = map nid f"
  by (induction p g f rule: edit_kids.induct) auto

lemma edit_kids_length [simp]: "length (edit_kids p g f) = length f"
  using edit_kids_roots [of p g f] by (metis length_map)

lemma edit_kids_id: "p \<notin> set (ids f) \<Longrightarrow> edit_kids p g f = f"
  by (induction p g f rule: edit_kids.induct) auto

definition edit1 :: "nat \<Rightarrow> (dnode list \<Rightarrow> dnode list) \<Rightarrow> dnode \<Rightarrow> dnode" where
  "edit1 p g n = hd (edit_kids p g [n])"

lemma edit1_simps [simp]:
  "edit1 p g (Text i s) = Text i s"
  "edit1 p g (Element i e cs) =
     (if i = p then Element i e (g cs) else Element i e (edit_kids p g cs))"
  by (simp_all add: edit1_def)

lemma nid_edit1 [simp]: "nid (edit1 p g n) = nid n"
  by (cases n) auto

lemma kids_edit1 [simp]: "nid n \<noteq> p \<Longrightarrow> map nid (kids (edit1 p g n)) = map nid (kids n)"
  by (cases n) auto

lemma edit1_id: "p \<notin> set (ids [n]) \<Longrightarrow> edit1 p g n = n"
  by (cases n) (auto simp: edit_kids_id)

lemma ids_of_node: "n \<in> set (nodes f) \<Longrightarrow> set (ids [n]) \<subseteq> set (ids f)"
  by (induction f rule: forest_induct) auto

lemma lookup_Some_ids: "lookup f k = Some n \<Longrightarrow> set (ids [n]) \<subseteq> set (ids f)"
  by (auto dest!: lookup_in_nodes ids_of_node)

lemma lookup_append:
  "lookup (f @ g) k = (case lookup f k of None \<Rightarrow> lookup g k | Some n \<Rightarrow> Some n)"
  unfolding lookup_def by (simp add: find_append)

lemma lookup_Some_in_ids: "lookup f k = Some n \<Longrightarrow> k \<in> set (ids f)"
  using lookup_None_iff [of f k] by auto

lemma lookup_edit_kids:
  assumes "distinct (ids f)" "lookup f p = Some (Element p e cs)"
    and "set (ids (g cs)) \<inter> (set (ids f) - set (ids cs)) = {}"
  shows "lookup (edit_kids p g f) q =
     (if q = p then Some (Element p e (g cs))
      else if q \<in> set (ids (g cs)) then lookup (g cs) q
      else if q \<in> set (ids cs) then None
      else map_option (edit1 p g) (lookup f q))"
  using assms
proof (induction f rule: forest_induct)
  case Nil
  then show ?case by simp
next
  case (Text i s f)
  from Text.prems have ip: "i \<noteq> p" by (auto split: if_splits)
  with Text.prems have l: "lookup f p = Some (Element p e cs)" by simp
  from Text.prems have d: "distinct (ids f)" "i \<notin> set (ids f)" by auto
  from Text.prems(3) have dj: "set (ids (g cs)) \<inter> (set (ids f) - set (ids cs)) = {}" by auto
  from lookup_Some_ids [OF l] d have ic: "i \<notin> set (ids cs)" by auto
  from Text.prems(3) ic have ig: "i \<notin> set (ids (g cs))" by auto
  from Text.IH [OF d(1) l dj] ip ic ig show ?case by auto
next
  case (Element i e' ks f)
  from Element.prems(1) have d: "distinct (ids ks)" "distinct (ids f)"
    "i \<notin> set (ids ks)" "i \<notin> set (ids f)" "set (ids ks) \<inter> set (ids f) = {}"
    by auto
  show ?case
  proof (cases "i = p")
    case True
    with Element.prems(2) have eq: "e' = e" "ks = cs" by auto
    have "q \<notin> set (ids (g cs)) \<Longrightarrow> lookup (g cs) q = None"
      by (simp add: lookup_None_iff)
    moreover have "q \<in> set (ids (g cs)) \<Longrightarrow> lookup (g cs) q \<noteq> None"
      by (simp add: lookup_None_iff)
    moreover have "q \<in> set (ids cs) \<Longrightarrow> lookup f q = None"
      using d(5) eq by (auto simp: lookup_None_iff)
    moreover have "q \<notin> set (ids cs) \<Longrightarrow> lookup cs q = None"
      by (simp add: lookup_None_iff)
    moreover have "map_option (edit1 p g) (lookup f q) = lookup f q"
    proof (cases "lookup f q")
      case None
      then show ?thesis by simp
    next
      case (Some n)
      from lookup_Some_ids [OF this] d(4) True have "edit1 p g n = n"
        by (auto intro!: edit1_id)
      with Some show ?thesis by simp
    qed
    moreover have "q \<in> set (ids (g cs)) \<Longrightarrow> q \<noteq> p"
      using Element.prems(3) True eq d(3) by auto
    ultimately show ?thesis using True eq
      by (auto split: option.splits)
  next
    case ip: False
    show ?thesis
    proof (cases "p \<in> set (ids ks)")
      case True
      then have l: "lookup ks p = Some (Element p e cs)"
        using Element.prems(2) ip by (auto simp: lookup_None_iff split: option.splits)
      from Element.prems(3) have dj: "set (ids (g cs)) \<inter> (set (ids ks) - set (ids cs)) = {}"
        by auto
      note IH = Element.IH(1) [OF d(1) l dj]
      from True d have pf: "p \<notin> set (ids f)" by auto
      from lookup_Some_ids [OF l] have sub: "set (ids cs) \<subseteq> set (ids ks)" by auto
      with d have ic: "i \<notin> set (ids cs)" by auto
      from Element.prems(3) ic have ig: "i \<notin> set (ids (g cs))" by auto
      have outside: "map_option (edit1 p g) (lookup f q) = lookup f q"
      proof (cases "lookup f q")
        case None
        then show ?thesis by simp
      next
        case (Some n)
        from lookup_Some_ids [OF this] pf have "edit1 p g n = n"
          by (auto intro!: edit1_id)
        with Some show ?thesis by simp
      qed
      have gnone: "q \<notin> set (ids (g cs)) \<Longrightarrow> lookup (g cs) q = None"
        by (simp add: lookup_None_iff)
      have "q \<in> set (ids (g cs)) \<Longrightarrow> lookup (g cs) q \<noteq> None"
        by (simp add: lookup_None_iff)
      moreover have "q \<in> set (ids cs) \<Longrightarrow> lookup f q = None"
        using d(5) sub by (auto simp: lookup_None_iff)
      ultimately show ?thesis
        using IH ip ic ig outside pf gnone
        by (auto simp: edit_kids_id split: option.splits)
    next
      case False
      then have pk: "lookup ks p = None" by (simp add: lookup_None_iff)
      then have l: "lookup f p = Some (Element p e cs)"
        using Element.prems(2) ip by simp
      from Element.prems(3) False lookup_Some_ids [OF l] d
      have dj: "set (ids (g cs)) \<inter> (set (ids f) - set (ids cs)) = {}"
        by auto
      note IH = Element.IH(2) [OF d(2) l dj]
      from lookup_Some_ids [OF l] have sub: "set (ids cs) \<subseteq> set (ids f)" by auto
      with d have ic: "i \<notin> set (ids cs)" by auto
      from Element.prems(3) ic have ig: "i \<notin> set (ids (g cs))" by auto
      have inside: "map_option (edit1 p g) (lookup ks q) = lookup ks q"
      proof (cases "lookup ks q")
        case None
        then show ?thesis by simp
      next
        case (Some n)
        from lookup_Some_ids [OF this] False have "edit1 p g n = n"
          by (auto intro!: edit1_id)
        with Some show ?thesis by simp
      qed
      have gnone: "q \<notin> set (ids (g cs)) \<Longrightarrow> lookup (g cs) q = None"
        by (simp add: lookup_None_iff)
      have "q \<in> set (ids (g cs)) \<Longrightarrow> lookup ks q = None"
        using Element.prems(3) sub d(5) by (auto simp: lookup_None_iff)
      moreover have "q \<in> set (ids cs) \<Longrightarrow> lookup ks q = None"
        using d(5) sub by (auto simp: lookup_None_iff)
      ultimately show ?thesis
        using IH ip ic ig inside False gnone pk
        by (auto simp: edit_kids_id split: option.splits)
    qed
  qed
qed


lemma ids_edit_kids_split:
  assumes "distinct (ids f)" "lookup f p = Some (Element p e cs)"
  shows "\<exists>l1 l2. ids f = l1 @ p # ids cs @ l2 \<and> ids (edit_kids p g f) = l1 @ p # ids (g cs) @ l2"
  using assms
proof (induction f rule: forest_induct)
  case Nil
  then show ?case by simp
next
  case (Text i s f)
  from Text.prems have ip: "i \<noteq> p" by (auto split: if_splits)
  with Text.prems have "lookup f p = Some (Element p e cs)" "distinct (ids f)" by auto
  from Text.IH [OF this(2) this(1)] obtain l1 l2
    where "ids f = l1 @ p # ids cs @ l2" "ids (edit_kids p g f) = l1 @ p # ids (g cs) @ l2" by auto
  then have "ids (Text i s # f) = (i # l1) @ p # ids cs @ l2 \<and>
    ids (edit_kids p g (Text i s # f)) = (i # l1) @ p # ids (g cs) @ l2" by simp
  then show ?case by blast
next
  case (Element i e' ks f)
  from Element.prems(1) have d: "distinct (ids ks)" "distinct (ids f)"
    "i \<notin> set (ids ks)" "i \<notin> set (ids f)" "set (ids ks) \<inter> set (ids f) = {}"
    by auto
  show ?case
  proof (cases "i = p")
    case True
    with Element.prems(2) have eq: "e' = e" "ks = cs" by auto
    with True have "ids (Element i e' ks # f) = [] @ p # ids cs @ ids f \<and>
      ids (edit_kids p g (Element i e' ks # f)) = [] @ p # ids (g cs) @ ids f" by simp
    then show ?thesis by blast
  next
    case ip: False
    show ?thesis
    proof (cases "p \<in> set (ids ks)")
      case True
      then have l: "lookup ks p = Some (Element p e cs)"
        using Element.prems(2) ip by (auto simp: lookup_None_iff split: option.splits)
      from True d have pf: "p \<notin> set (ids f)" by auto
      from Element.IH(1) [OF d(1) l] obtain l1 l2
        where "ids ks = l1 @ p # ids cs @ l2" "ids (edit_kids p g ks) = l1 @ p # ids (g cs) @ l2" by auto
      with ip pf have "ids (Element i e' ks # f) = (i # l1) @ p # ids cs @ (l2 @ ids f) \<and>
        ids (edit_kids p g (Element i e' ks # f)) = (i # l1) @ p # ids (g cs) @ (l2 @ ids f)"
        by (simp add: edit_kids_id)
      then show ?thesis by blast
    next
      case False
      then have pk: "lookup ks p = None" by (simp add: lookup_None_iff)
      then have l: "lookup f p = Some (Element p e cs)"
        using Element.prems(2) ip by simp
      from Element.IH(2) [OF d(2) l] obtain l1 l2
        where "ids f = l1 @ p # ids cs @ l2" "ids (edit_kids p g f) = l1 @ p # ids (g cs) @ l2" by auto
      with ip False have "ids (Element i e' ks # f) = (i # ids ks @ l1) @ p # ids cs @ l2 \<and>
        ids (edit_kids p g (Element i e' ks # f)) = (i # ids ks @ l1) @ p # ids (g cs) @ l2"
        by (simp add: edit_kids_id)
      then show ?thesis by blast
    qed
  qed
qed

lemma set_ids_edit_kids:
  assumes "distinct (ids f)" "lookup f p = Some (Element p e cs)"
  shows "set (ids (edit_kids p g f)) = (set (ids f) - set (ids cs)) \<union> set (ids (g cs))"
proof -
  from ids_edit_kids_split [OF assms, of g] obtain l1 l2
    where "ids f = l1 @ p # ids cs @ l2" "ids (edit_kids p g f) = l1 @ p # ids (g cs) @ l2" by auto
  with assms(1) show ?thesis by auto
qed

lemma distinct_edit_kids:
  assumes "distinct (ids f)" "lookup f p = Some (Element p e cs)"
    and "distinct (ids (g cs))"
    and "set (ids (g cs)) \<inter> (set (ids f) - set (ids cs)) = {}"
  shows "distinct (ids (edit_kids p g f))"
proof -
  from ids_edit_kids_split [OF assms(1,2), of g] obtain l1 l2
    where "ids f = l1 @ p # ids cs @ l2" "ids (edit_kids p g f) = l1 @ p # ids (g cs) @ l2" by auto
  with assms(1,3,4) show ?thesis by auto
qed

lemma childNodes_edit_kids:
  assumes "distinct (ids f)" "lookup f p = Some (Element p e cs)"
    and "set (ids (g cs)) \<inter> (set (ids f) - set (ids cs)) = {}"
  shows "childNodes (edit_kids p g f) q =
     (if q = p then map nid (g cs)
      else if q \<in> set (ids (g cs)) then childNodes (g cs) q
      else if q \<in> set (ids cs) then []
      else childNodes f q)"
proof -
  have "\<And>n. lookup f q = Some n \<Longrightarrow> q \<noteq> p \<Longrightarrow> map nid (kids (edit1 p g n)) = map nid (kids n)"
    by (auto dest: lookup_nid)
  then show ?thesis
    unfolding childNodes_def lookup_edit_kids [of f p e cs g, OF assms]
    by (auto split: option.splits)
qed

section \<open>Navigation in a forest with distinct identities\<close>

lemma parentNode_iff:
  assumes "distinct (ids f)"
  shows "parentNode f k = Some p \<longleftrightarrow> k \<in> set (childNodes f p)"
proof
  assume "parentNode f k = Some p"
  then obtain P where P: "parent_of f k = Some P" "nid P = p"
    by (auto simp: parentNode_def)
  from parent_of_Some_D [OF P(1)] have "P \<in> set (nodes f)" "k \<in> nid ` set (kids P)" by auto
  with lookup_unique [OF assms, of P] P(2) show "k \<in> set (childNodes f p)"
    by (simp add: childNodes_def)
next
  assume k: "k \<in> set (childNodes f p)"
  then obtain P where P1: "lookup f p = Some P"
    by (cases "lookup f p") (auto simp: childNodes_def)
  with k have P2: "k \<in> nid ` set (kids P)" by (simp add: childNodes_def)
  note P = P1 P2
  from parent_of_unique [OF assms lookup_in_nodes [OF P(1)] P(2)] lookup_nid [OF P(1)]
  show "parentNode f k = Some p" by (simp add: parentNode_def)
qed

lemma siblings_via_childNodes:
  assumes "distinct (ids f)" "parentNode f k = Some p"
  shows "previousSibling f k = before k (childNodes f p)"
    and "nextSibling f k = after k (childNodes f p)"
proof -
  from assms(2) obtain P where P: "parent_of f k = Some P" "nid P = p"
    by (auto simp: parentNode_def)
  from parent_of_Some_D [OF P(1)] have "P \<in> set (nodes f)" by auto
  with lookup_unique [OF assms(1), of P] P(2) have "childNodes f p = map nid (kids P)"
    by (simp add: childNodes_def)
  with P show "previousSibling f k = before k (childNodes f p)"
    and "nextSibling f k = after k (childNodes f p)"
    by (simp_all add: previousSibling_def nextSibling_def)
qed

lemma no_parent_no_siblings:
  "parentNode f k = None \<Longrightarrow> previousSibling f k = None \<and> nextSibling f k = None"
  by (simp add: parentNode_def previousSibling_def nextSibling_def)

lemma fold_max_ge: "(a::nat) \<le> fold max xs a"
proof (induction xs arbitrary: a)
  case Nil
  then show ?case by simp
next
  case (Cons y ys)
  have "a \<le> max y a" by simp
  also have "\<dots> \<le> fold max ys (max y a)" by (rule Cons.IH)
  finally show ?case by simp
qed

lemma fold_max_upper: "x \<in> set xs \<Longrightarrow> (x::nat) \<le> fold max xs a"
proof (induction xs arbitrary: a)
  case Nil
  then show ?case by simp
next
  case (Cons y ys)
  show ?case
  proof (cases "x = y")
    case True
    have "y \<le> max y a" by simp
    also have "\<dots> \<le> fold max ys (max y a)" by (rule fold_max_ge)
    finally show ?thesis using True by simp
  next
    case False
    with Cons.prems have "x \<in> set ys" by simp
    from Cons.IH [OF this] show ?thesis by simp
  qed
qed

lemma fresh_not_in_ids: "fresh f \<notin> set (ids f)"
proof
  assume "fresh f \<in> set (ids f)"
  then have "fresh f \<le> fold max (ids f) 0" by (rule fold_max_upper)
  then show False by (simp add: fresh_def ids_def)
qed

section \<open>Refining the boundaries of a range\<close>

text \<open>
  \<open>refineRangeBoundaries\<close> of utils.js. A range gives its two boundary points and the
  common ancestor of its containers.
\<close>

record range =
  startContainer :: nat
  startOffset :: nat
  endContainer :: nat
  endOffset :: nat
  commonAncestorContainer :: nat

text \<open>
  The object returned: \<open>startNode\<close> and \<open>endNode\<close> are its \<open>startContainer\<close> and
  \<open>endContainer\<close>, which may be null.
\<close>

record boundaries =
  startNode :: "nat option"
  endNode :: "nat option"
  goDeeper :: bool

text \<open>
  The loop \<open>while (!endContainer.previousSibling && endContainer.parentNode !== ancestor)
  endContainer = endContainer.parentNode\<close>. When the parent is null the next test reads a
  property of null, a TypeError.
\<close>

partial_function (option) climb :: "dnode list \<Rightarrow> nat \<Rightarrow> nat \<Rightarrow> (js_error + nat) option" where
  "climb f ancestor n =
     (if previousSibling f n = None \<and> parentNode f n \<noteq> Some ancestor
      then (case parentNode f n of
              None \<Rightarrow> Some (Inl TypeError)
            | Some p \<Rightarrow> climb f ancestor p)
      else Some (Inr n))"

declare climb.simps [code]

definition refine_end ::
  "dnode list \<Rightarrow> range \<Rightarrow> (js_error + (dnode list \<times> nat option)) option" where
  "refine_end f r =
     (if endOffset r = 0 then
        (case climb f (commonAncestorContainer r) (endContainer r) of
           None \<Rightarrow> None
         | Some (Inl e) \<Rightarrow> Some (Inl e)
         | Some (Inr w) \<Rightarrow> Some (Inr (f, previousSibling f w)))
      else
        (case lookup f (endContainer r) of
           None \<Rightarrow> Some (Inl TypeError)
         | Some (Text i s) \<Rightarrow>
             if endOffset r < length s then
               (case splitText f i (endOffset r) of
                  Inl e \<Rightarrow> Some (Inl e)
                | Inr (f1, new) \<Rightarrow> Some (Inr (f1, Some i)))
             else Some (Inr (f, Some i))
         | Some (Element i e cs) \<Rightarrow> Some (Inr (f, item (map nid cs) (endOffset r - 1)))))"

definition refine_start ::
  "dnode list \<Rightarrow> range \<Rightarrow> nat option \<Rightarrow> js_error + (dnode list \<times> boundaries)" where
  "refine_start f r endC =
     (case lookup f (startContainer r) of
        None \<Rightarrow> Inl TypeError
      | Some (Text i s) \<Rightarrow>
          if startOffset r = length s then
            Inr (f, \<lparr>startNode = Some i, endNode = endC, goDeeper = False\<rparr>)
          else if 0 < startOffset r then
            (case splitText f i (startOffset r) of
               Inl e \<Rightarrow> Inl e
             | Inr (f1, new) \<Rightarrow>
                 Inr (f1, \<lparr>startNode = Some new,
                           endNode = (if endC = previousSibling f1 new then Some new else endC),
                           goDeeper = True\<rparr>))
          else Inr (f, \<lparr>startNode = Some i, endNode = endC, goDeeper = True\<rparr>)
      | Some (Element i e cs) \<Rightarrow>
          if startOffset r < length cs then
            Inr (f, \<lparr>startNode = item (map nid cs) (startOffset r), endNode = endC,
                     goDeeper = True\<rparr>)
          else Inr (f, \<lparr>startNode = nextSibling f i, endNode = endC, goDeeper = True\<rparr>))"

text \<open>\<open>None\<close> is a loop that does not end.\<close>

definition refineRangeBoundaries ::
  "dnode list \<Rightarrow> range \<Rightarrow> (js_error + (dnode list \<times> boundaries)) option" where
  "refineRangeBoundaries f r =
     (case refine_end f r of
        None \<Rightarrow> None
      | Some (Inl e) \<Rightarrow> Some (Inl e)
      | Some (Inr (f1, endC)) \<Rightarrow> Some (refine_start f1 r endC))"

definition b_elem :: einfo where
  "b_elem = \<lparr>tagName = ''B'', attributes = [], backgroundColor = []\<rparr>"

definition hello_doc :: "dnode list" where
  "hello_doc = [Element 0 p_elem [Text 1 ''hello '', Element 2 b_elem [Text 3 ''world'']]]"

definition hello_range :: range where
  "hello_range = \<lparr>startContainer = 1, startOffset = 2, endContainer = 3, endOffset = 0,
     commonAncestorContainer = 0\<rparr>"


subsection \<open>The walk up\<close>

definition below :: "dnode list \<Rightarrow> nat \<Rightarrow> nat \<Rightarrow> bool" where
  "below f a k = (case lookup f a of None \<Rightarrow> False | Some n \<Rightarrow> k \<in> set (ids (kids n)))"

fun ascent :: "dnode list \<Rightarrow> nat \<Rightarrow> nat list \<Rightarrow> bool" where
  "ascent f a [] = False"
| "ascent f a [w] = True"
| "ascent f a (x # y # ys) =
     (previousSibling f x = None \<and> parentNode f x = Some y \<and> y \<noteq> a \<and> ascent f a (y # ys))"

lemma ids_cases:
  "k \<in> set (ids g) \<Longrightarrow> k \<in> nid ` set g \<or> (\<exists>P \<in> set (nodes g). k \<in> nid ` set (kids P))"
  by (induction g rule: forest_induct) auto

lemma below_parent:
  assumes "distinct (ids f)" "below f a k"
  shows "\<exists>P. parent_of f k = Some P \<and> (nid P = a \<or> below f a (nid P))"
proof -
  from assms(2) obtain A where A: "lookup f a = Some A" "k \<in> set (ids (kids A))"
    by (auto simp: below_def split: option.splits)
  have An: "A \<in> set (nodes f)" by (rule lookup_in_nodes [OF A(1)])
  from ids_cases [OF A(2)] show ?thesis
  proof
    assume "k \<in> nid ` set (kids A)"
    from parent_of_unique [OF assms(1) An this] lookup_nid [OF A(1)] show ?thesis by auto
  next
    assume "\<exists>P \<in> set (nodes (kids A)). k \<in> nid ` set (kids P)"
    then obtain P where P: "P \<in> set (nodes (kids A))" "k \<in> nid ` set (kids P)" by auto
    with nodes_kids_subset [OF An] have "P \<in> set (nodes f)" by auto
    from parent_of_unique [OF assms(1) this P(2)] have "parent_of f k = Some P" .
    moreover from P(1) have "nid P \<in> set (ids (kids A))" by (rule in_nodes_ids)
    with A(1) have "below f a (nid P)" by (simp add: below_def)
    ultimately show ?thesis by auto
  qed
qed

lemma below_size:
  assumes "distinct (ids f)" "below f a k" "lookup f a = Some A"
  shows "\<exists>c. lookup f k = Some c \<and> size c < size A"
proof -
  from assms(2,3) have k: "k \<in> set (ids (kids A))" by (simp add: below_def)
  then obtain c where c: "c \<in> set (nodes (kids A))" "nid c = k" by (auto dest: ids_obtain)
  have An: "A \<in> set (nodes f)" by (rule lookup_in_nodes [OF assms(3)])
  with nodes_kids_subset [OF An] c have "c \<in> set (nodes f)" by auto
  from lookup_unique [OF assms(1) this] c(2) have "lookup f k = Some c" by simp
  moreover from size_in_nodes [OF c(1)] c(1) have "size c < size A" by (cases A) auto
  ultimately show ?thesis by auto
qed

lemma kid_size: "c \<in> set (kids P) \<Longrightarrow> size c < size P"
proof (cases P)
  case (Text i s)
  assume "c \<in> set (kids P)"
  with Text show ?thesis by simp
next
  case (Element i e cs)
  assume "c \<in> set (kids P)"
  with Element have "c \<in> set cs" by simp
  then have "size c \<le> size_list size cs" by (rule size_list_estimation') simp
  with Element show ?thesis by simp
qed

lemma climb_below:
  assumes wf: "distinct (ids f)" and A: "lookup f a = Some A"
  shows "below f a n \<Longrightarrow>
    \<exists>ws. ws \<noteq> [] \<and> hd ws = n \<and> ascent f a ws \<and> climb f a n = Some (Inr (last ws)) \<and>
      below f a (last ws) \<and>
      (previousSibling f (last ws) = None \<longrightarrow> parentNode f (last ws) = Some a)"
proof (induction "size A - size (the (lookup f n))" arbitrary: n rule: less_induct)
  case less
  from below_parent [OF wf less.prems] obtain P
    where P: "parent_of f n = Some P" "nid P = a \<or> below f a (nid P)" by auto
  then have pn: "parentNode f n = Some (nid P)" by (simp add: parentNode_def)
  show ?case
  proof (cases "previousSibling f n = None \<and> parentNode f n \<noteq> Some a")
    case False
    have c: "climb f a n = Some (Inr n)"
      by (subst climb.simps) (simp only: False if_False)
    from False have s: "previousSibling f n = None \<longrightarrow> parentNode f n = Some a"
      by auto
    have "[n] \<noteq> [] \<and> hd [n] = n \<and> ascent f a [n] \<and> climb f a n = Some (Inr (last [n])) \<and>
      below f a (last [n]) \<and>
      (previousSibling f (last [n]) = None \<longrightarrow> parentNode f (last [n]) = Some a)"
      using c s less.prems by simp
    then show ?thesis by (rule exI)
  next
    case True
    with pn P(2) have bP: "below f a (nid P)" and na: "nid P \<noteq> a" by auto
    from parent_of_Some_D [OF P(1)] have Pn: "P \<in> set (nodes f)" and kn: "n \<in> nid ` set (kids P)"
      by auto
    from kn obtain c where c: "c \<in> set (kids P)" "nid c = n" by auto
    from kids_in_nodes [OF Pn c(1)] have "c \<in> set (nodes f)" .
    from lookup_unique [OF wf this] c(2) have lc: "lookup f n = Some c" by simp
    from lookup_unique [OF wf Pn] have lP: "lookup f (nid P) = Some P" .
    from c(1) have "size c < size P" by (rule kid_size)
    moreover from below_size [OF wf bP A] lP have "size P < size A" by simp
    ultimately have "size A - size (the (lookup f (nid P))) < size A - size (the (lookup f n))"
      using lc lP by simp
    from less.hyps [OF this bP] obtain ws where wsall: "ws \<noteq> [] \<and> hd ws = nid P \<and>
      ascent f a ws \<and> climb f a (nid P) = Some (Inr (last ws)) \<and> below f a (last ws) \<and>
      (previousSibling f (last ws) = None \<longrightarrow> parentNode f (last ws) = Some a)" ..
    then have ws: "ws \<noteq> []" "hd ws = nid P" "ascent f a ws"
      "climb f a (nid P) = Some (Inr (last ws))" "below f a (last ws)"
      "previousSibling f (last ws) = None \<longrightarrow> parentNode f (last ws) = Some a"
      by blast+
    from ws(1,2) obtain ys where wsd: "ws = nid P # ys" by (cases ws) auto
    have "climb f a n = climb f a (nid P)"
      by (subst climb.simps) (simp only: True if_True pn option.case simp_thms option.inject na)
    with ws(4) have 1: "climb f a n = Some (Inr (last ws))" by simp
    have 2: "ascent f a (n # ws)" using True pn na ws(3) unfolding wsd by simp
    have l: "last (n # ws) = last ws" using ws(1) by simp
    have "n # ws \<noteq> [] \<and> hd (n # ws) = n \<and> ascent f a (n # ws) \<and>
      climb f a n = Some (Inr (last (n # ws))) \<and> below f a (last (n # ws)) \<and>
      (previousSibling f (last (n # ws)) = None \<longrightarrow> parentNode f (last (n # ws)) = Some a)"
      unfolding l using 1 2 ws(5,6) by simp
    then show ?thesis by (rule exI)
  qed
qed


subsection \<open>Splitting a text node\<close>

fun ins_after :: "nat \<Rightarrow> nat \<Rightarrow> nat list \<Rightarrow> nat list" where
  "ins_after S N [] = []"
| "ins_after S N (x # xs) = (if x = S then x # N # xs else x # ins_after S N xs)"

lemma set_ins_after: "S \<in> set ks \<Longrightarrow> set (ins_after S N ks) = insert N (set ks)"
  by (induction ks) auto

lemma before_in_set: "before k xs = Some y \<Longrightarrow> y \<in> set xs"
  by (induction k xs rule: before.induct) (auto split: if_splits)

lemma before_new:
  "S \<in> set ks \<Longrightarrow> N \<notin> set ks \<Longrightarrow> before N (ins_after S N ks) = Some S"
proof (induction ks)
  case Nil
  then show ?case by simp
next
  case (Cons x xs)
  show ?case
  proof (cases "x = S")
    case True
    with Cons.prems show ?thesis by auto
  next
    case False
    with Cons.prems have IH: "before N (ins_after S N xs) = Some S" using Cons.IH by auto
    from Cons.prems False have "xs \<noteq> []" by auto
    then obtain y ys where xs: "xs = y # ys" by (cases xs) auto
    from IH False Cons.prems xs show ?thesis by (auto split: if_splits)
  qed
qed

lemma before_old:
  "distinct ks \<Longrightarrow> N \<notin> set ks \<Longrightarrow> x \<noteq> N \<Longrightarrow>
   before x (ins_after S N ks) = (if before x ks = Some S then Some N else before x ks)"
proof (induction x ks rule: before.induct)
  case (1 k)
  then show ?case by simp
next
  case (2 k x)
  then show ?case by simp
next
  case (3 k x y ys)
  then show ?case by (auto dest: before_in_set)
qed

lemma split_in_roots:
  "Text S s \<in> set cs \<Longrightarrow> distinct (map nid cs) \<Longrightarrow>
   map nid (split_in S off N cs) = ins_after S N (map nid cs)"
proof (induction S off N cs rule: split_in.induct)
  case (1 k off new)
  then show ?case by simp
next
  case (2 k off new i s cs)
  then show ?case by (auto simp: image_iff)
next
  case (3 k off new i e ks cs)
  from 3 have "i \<noteq> k" by (auto simp: image_iff)
  with 3 show ?case by auto
qed

lemma ids_split_in:
  "Text S s \<in> set cs \<Longrightarrow> \<exists>l1 l2. ids cs = l1 @ S # l2 \<and> ids (split_in S off N cs) = l1 @ S # N # l2"
proof (induction S off N cs rule: split_in.induct)
  case (1 k off new)
  then show ?case by simp
next
  case (2 k off new i s' cs)
  show ?case
  proof (cases "i = k")
    case True
    then have "ids (Text i s' # cs) = [] @ k # ids cs \<and>
      ids (split_in k off new (Text i s' # cs)) = [] @ k # new # ids cs" by simp
    then show ?thesis by blast
  next
    case False
    with 2 obtain l1 l2 where "ids cs = l1 @ k # l2" "ids (split_in k off new cs) = l1 @ k # new # l2"
      by auto
    with False have "ids (Text i s' # cs) = (i # l1) @ k # l2 \<and>
      ids (split_in k off new (Text i s' # cs)) = (i # l1) @ k # new # l2" by simp
    then show ?thesis by blast
  qed
next
  case (3 k off new i e ks cs)
  then obtain l1 l2 where "ids cs = l1 @ k # l2" "ids (split_in k off new cs) = l1 @ k # new # l2"
    by auto
  then have "ids (Element i e ks # cs) = (i # ids ks @ l1) @ k # l2 \<and>
    ids (split_in k off new (Element i e ks # cs)) = (i # ids ks @ l1) @ k # new # l2" by simp
  then show ?case by blast
qed

lemma childNodes_Cons_Text [simp]:
  "childNodes (Text i s # f) q = (if q = i then [] else childNodes f q)"
  by (simp add: childNodes_def)

lemma childNodes_Cons_Element:
  "childNodes (Element i e ks # f) q =
     (if q = i then map nid ks else if q \<in> set (ids ks) then childNodes ks q else childNodes f q)"
proof (cases "lookup ks q")
  case None
  then have "q \<notin> set (ids ks)" by (simp add: lookup_None_iff)
  with None show ?thesis by (simp add: childNodes_def)
next
  case (Some n)
  then have "q \<in> set (ids ks)" by (rule lookup_Some_in_ids)
  with Some show ?thesis by (simp add: childNodes_def)
qed

lemma childNodes_not_in: "q \<notin> set (ids f) \<Longrightarrow> childNodes f q = []"
  by (simp add: childNodes_def lookup_None_iff [THEN iffD2])

lemma childNodes_split_in:
  "N \<notin> set (ids cs) \<Longrightarrow> childNodes (split_in S off N cs) q = childNodes cs q"
proof (induction S off N cs rule: split_in.induct)
  case (1 k off new)
  then show ?case by simp
next
  case (2 k off new i s cs)
  then show ?case by (auto simp: childNodes_not_in)
next
  case (3 k off new i e ks cs)
  then show ?case by (auto simp: childNodes_Cons_Element)
qed


lemma edit_kids_ident: "edit_kids p (\<lambda>cs. cs) f = f"
  by (induction p "\<lambda>cs::dnode list. cs" f rule: edit_kids.induct) auto

lemma lookup_in_kids:
  assumes "distinct (ids f)" "lookup f p = Some (Element p e cs)" "q \<in> set (ids cs)"
  shows "lookup cs q = lookup f q"
proof -
  have dj: "set (ids ((\<lambda>cs. cs) cs)) \<inter> (set (ids f) - set (ids cs)) = {}" by auto
  from ids_edit_kids_split [OF assms(1,2), of "\<lambda>cs. cs"] assms(1)
  have "p \<notin> set (ids cs)" by auto
  with assms(3) have "q \<noteq> p" by auto
  with lookup_edit_kids [of f p e cs "\<lambda>cs. cs" q, OF assms(1,2) dj] assms(3)
  show ?thesis by (simp add: edit_kids_ident)
qed

lemma childNodes_in_kids:
  assumes "distinct (ids f)" "lookup f p = Some (Element p e cs)" "q \<in> set (ids cs)"
  shows "childNodes cs q = childNodes f q"
  using lookup_in_kids [OF assms] by (simp add: childNodes_def)

lemma distinct_kids:
  assumes "distinct (ids f)" "lookup f p = Some (Element p e cs)"
  shows "distinct (ids cs)"
proof -
  from ids_edit_kids_split [OF assms, of "\<lambda>cs. cs"] obtain l1 l2
    where "ids f = l1 @ p # ids cs @ l2" by auto
  with assms(1) show ?thesis by simp
qed

lemma distinct_roots: "distinct (ids f) \<Longrightarrow> distinct (map nid f)"
proof (induction f)
  case Nil
  then show ?case by simp
next
  case (Cons t f)
  have sub: "nid ` set f \<subseteq> set (ids f)" by (auto dest: roots_in_ids)
  from Cons.prems have "distinct (ids f)" "nid t \<notin> set (ids f)"
    by (cases t; simp)+
  with Cons.IH sub show ?case by auto
qed

lemma kid_of_parent:
  assumes wf: "distinct (ids f)" and l: "lookup f k = Some n" and p: "parentNode f k = Some p"
  shows "\<exists>e cs. lookup f p = Some (Element p e cs) \<and> n \<in> set cs"
proof -
  from p obtain P where P: "parent_of f k = Some P" "nid P = p"
    by (auto simp: parentNode_def)
  from parent_of_Some_D [OF P(1)] have Pn: "P \<in> set (nodes f)" and "k \<in> nid ` set (kids P)"
    by auto
  then obtain c where c: "c \<in> set (kids P)" "nid c = k" by auto
  from kids_in_nodes [OF Pn c(1)] have "c \<in> set (nodes f)" .
  from lookup_unique [OF wf this] c(2) l have "c = n" by simp
  with c(1) have nk: "n \<in> set (kids P)" by simp
  from lookup_unique [OF wf Pn] P(2) have lP: "lookup f p = Some P" by simp
  from nk obtain i e cs where "P = Element i e cs" by (cases P) auto
  with lP nk P(2) show ?thesis by auto
qed

lemma split_effect:
  fixes off :: nat
  assumes wf: "distinct (ids f)" and lS: "lookup f S = Some (Text S s)"
    and pS: "parentNode f S = Some p" and N: "N \<notin> set (ids f)"
  defines "f1 \<equiv> edit_kids p (split_in S off N) f"
  shows "distinct (ids f1)"
    and "childNodes f1 q = (if q = p then ins_after S N (childNodes f p) else childNodes f q)"
    and "S \<in> set (childNodes f p)"
proof -
  from kid_of_parent [OF wf lS pS] obtain e cs
    where lp: "lookup f p = Some (Element p e cs)" and Scs: "Text S s \<in> set cs" by auto
  from lookup_Some_ids [OF lp] have sub: "set (ids cs) \<subseteq> set (ids f)" by auto
  with N have Ncs: "N \<notin> set (ids cs)" by auto
  from distinct_kids [OF wf lp] have dcs: "distinct (ids cs)" .
  from ids_split_in [OF Scs, of off N] obtain l1 l2
    where l: "ids cs = l1 @ S # l2" "ids (split_in S off N cs) = l1 @ S # N # l2" by auto
  from l dcs Ncs have dg: "distinct (ids (split_in S off N cs))" by auto
  from l have sg: "set (ids (split_in S off N cs)) = insert N (set (ids cs))" by auto
  with N have dj: "set (ids (split_in S off N cs)) \<inter> (set (ids f) - set (ids cs)) = {}" by auto
  show "distinct (ids f1)"
    unfolding f1_def by (rule distinct_edit_kids [of f p e cs "split_in S off N", OF wf lp dg dj])
  have cp: "childNodes f p = map nid cs" using lp by (simp add: childNodes_def)
  from Scs show "S \<in> set (childNodes f p)" unfolding cp by force
  have roots: "map nid (split_in S off N cs) = ins_after S N (map nid cs)"
    by (rule split_in_roots [OF Scs distinct_roots [OF dcs]])
  have inner: "childNodes (split_in S off N cs) q = childNodes cs q"
    by (rule childNodes_split_in [OF Ncs])
  have Nf: "childNodes f N = []" "childNodes cs N = []"
    using N Ncs by (simp_all add: childNodes_not_in)
  have "q \<in> set (ids cs) \<Longrightarrow> childNodes cs q = childNodes f q"
    by (rule childNodes_in_kids [OF wf lp])
  then show "childNodes f1 q = (if q = p then ins_after S N (childNodes f p) else childNodes f q)"
    unfolding f1_def childNodes_edit_kids [of f p e cs "split_in S off N", OF wf lp dj]
    using roots inner cp sg Nf by auto
qed


lemma childNodes_subset_ids: "set (childNodes f p) \<subseteq> set (ids f)"
proof (cases "lookup f p")
  case None
  then show ?thesis by (simp add: childNodes_def)
next
  case (Some P)
  have "nid ` set (kids P) \<subseteq> set (ids f)"
    using kids_in_nodes [OF lookup_in_nodes [OF Some]] by (auto dest: in_nodes_ids)
  with Some show ?thesis by (simp add: childNodes_def)
qed

lemma distinct_childNodes: "distinct (ids f) \<Longrightarrow> distinct (childNodes f p)"
proof (cases "lookup f p")
  case None
  then show ?thesis by (simp add: childNodes_def)
next
  case (Some P)
  assume wf: "distinct (ids f)"
  show ?thesis
  proof (cases P)
    case (Text i s)
    with Some show ?thesis by (simp add: childNodes_def)
  next
    case (Element i e cs)
    with Some lookup_nid [OF Some] have l: "lookup f p = Some (Element p e cs)" by simp
    from distinct_roots [OF distinct_kids [OF wf l]] l show ?thesis
      by (simp add: childNodes_def)
  qed
qed

lemma parentNode_in_ids: "parentNode f k = Some p \<Longrightarrow> k \<in> set (ids f)"
  by (auto simp: parentNode_def dest: parent_of_in_ids)

lemma split_nav:
  fixes off :: nat
  assumes wf: "distinct (ids f)" and lS: "lookup f S = Some (Text S s)"
    and pS: "parentNode f S = Some p" and N: "N \<notin> set (ids f)"
  defines "f1 \<equiv> edit_kids p (split_in S off N) f"
  shows "previousSibling f1 N = Some S"
    and "x \<noteq> N \<Longrightarrow> previousSibling f1 x =
           (if previousSibling f x = Some S then Some N else previousSibling f x)"
proof -
  note eff = split_effect(1) [OF wf lS pS N, of off, folded f1_def]
    split_effect(2) [OF wf lS pS N, of off, folded f1_def]
    split_effect(3) [OF wf lS pS N]
  define ks where "ks = childNodes f p"
  have cn: "\<And>q. childNodes f1 q = (if q = p then ins_after S N ks else childNodes f q)"
    unfolding ks_def by (rule eff(2))
  have Sks: "S \<in> set ks" unfolding ks_def by (rule eff(3))
  have Nks: "N \<notin> set ks" unfolding ks_def using childNodes_subset_ids [of f p] N by auto
  have dks: "distinct ks" unfolding ks_def by (rule distinct_childNodes [OF wf])
  have "N \<in> set (childNodes f1 p)" using cn [of p] Sks by (simp add: set_ins_after)
  then have pN: "parentNode f1 N = Some p" by (simp add: parentNode_iff [OF eff(1)])
  from siblings_via_childNodes(1) [OF eff(1) pN] cn [of p] before_new [OF Sks Nks]
  show "previousSibling f1 N = Some S" by simp
  assume xN: "x \<noteq> N"
  show "previousSibling f1 x = (if previousSibling f x = Some S then Some N else previousSibling f x)"
  proof (cases "parentNode f x")
    case None
    have "parentNode f1 x = None"
    proof (cases "parentNode f1 x")
      case (Some q)
      then have "x \<in> set (childNodes f1 q)" by (simp add: parentNode_iff [OF eff(1)])
      with cn [of q] xN Sks have "x \<in> set (childNodes f q)"
        by (auto simp: set_ins_after ks_def split: if_splits)
      then have "parentNode f x = Some q" by (simp add: parentNode_iff [OF wf])
      with None show ?thesis by simp
    qed simp
    with None show ?thesis by (simp add: no_parent_no_siblings)
  next
    case (Some q)
    then have xq: "x \<in> set (childNodes f q)" by (simp add: parentNode_iff [OF wf])
    note old = siblings_via_childNodes(1) [OF wf Some]
    show ?thesis
    proof (cases "q = p")
      case True
      with xq Sks have "x \<in> set (childNodes f1 p)"
        using cn [of p] by (simp add: set_ins_after ks_def)
      then have "parentNode f1 x = Some p" by (simp add: parentNode_iff [OF eff(1)])
      from siblings_via_childNodes(1) [OF eff(1) this] cn [of p]
      have "previousSibling f1 x = before x (ins_after S N ks)" by simp
      also have "\<dots> = (if before x ks = Some S then Some N else before x ks)"
        by (rule before_old [OF dks Nks xN])
      finally show ?thesis using old True by (simp add: ks_def)
    next
      case False
      with xq have "x \<in> set (childNodes f1 q)" using cn [of q] by simp
      then have "parentNode f1 x = Some q" by (simp add: parentNode_iff [OF eff(1)])
      from siblings_via_childNodes(1) [OF eff(1) this] cn [of q] False old
      have same: "previousSibling f1 x = previousSibling f x" by simp
      have "previousSibling f x \<noteq> Some S"
      proof
        assume "previousSibling f x = Some S"
        with old have "before x (childNodes f q) = Some S" by simp
        then have "S \<in> set (childNodes f q)" by (rule before_in_set)
        then have "parentNode f S = Some q" by (simp add: parentNode_iff [OF wf])
        with pS False show False by simp
      qed
      with same show ?thesis by simp
    qed
  qed
qed


subsection \<open>The end boundary for an end offset of 0\<close>

definition start_splits :: "dnode list \<Rightarrow> range \<Rightarrow> bool" where
  "start_splits f r =
     (case lookup f (startContainer r) of
        Some (Text i s) \<Rightarrow> 0 < startOffset r \<and> startOffset r < length s
      | _ \<Rightarrow> False)"

definition start_in_range :: "dnode list \<Rightarrow> range \<Rightarrow> bool" where
  "start_in_range f r =
     (parentNode f (startContainer r) \<noteq> None \<and>
      (case lookup f (startContainer r) of
         Some (Text i s) \<Rightarrow> startOffset r \<le> length s
       | _ \<Rightarrow> True))"

lemma below_in_ids: "below f a k \<Longrightarrow> k \<in> set (ids f)"
proof -
  assume "below f a k"
  then obtain A where A: "lookup f a = Some A" "k \<in> set (ids (kids A))"
    by (auto simp: below_def split: option.splits)
  from nodes_kids_subset [OF lookup_in_nodes [OF A(1)]] A(2) show ?thesis
    by (auto simp: ids_def)
qed

lemma refine_start_end:
  assumes wf: "distinct (ids f)" and st: "start_in_range f r" and w: "w \<in> set (ids f)"
  shows "\<exists>f' b. refine_start f r (previousSibling f w) = Inr (f', b) \<and>
     endNode b = previousSibling f' w \<and>
     endNode b = (if start_splits f r \<and> previousSibling f w = Some (startContainer r)
                  then startNode b else previousSibling f w)"
proof -
  from st obtain p where p: "parentNode f (startContainer r) = Some p"
    by (auto simp: start_in_range_def)
  from parentNode_in_ids [OF p] obtain n where n: "lookup f (startContainer r) = Some n"
    by (cases "lookup f (startContainer r)") (auto simp: lookup_None_iff)
  show ?thesis
  proof (cases n)
    case (Element i e cs)
    with n show ?thesis by (simp add: refine_start_def start_splits_def)
  next
    case (Text i s)
    with n lookup_nid [OF n] have l: "lookup f (startContainer r) = Some (Text (startContainer r) s)"
      by simp
    from st l have le: "startOffset r \<le> length s" by (simp add: start_in_range_def)
    show ?thesis
    proof (cases "0 < startOffset r \<and> startOffset r < length s")
      case False
      with l le show ?thesis by (auto simp: refine_start_def start_splits_def)
    next
      case True
      define N where "N = fresh f"
      define f1 where "f1 = edit_kids p (split_in (startContainer r) (startOffset r) N) f"
      have N: "N \<notin> set (ids f)" unfolding N_def by (rule fresh_not_in_ids)
      with w have wN: "w \<noteq> N" by auto
      have sp: "splitText f (startContainer r) (startOffset r) = Inr (f1, N)"
        using l True p by (simp add: splitText_def edit_siblings_def f1_def N_def)
      note nav = split_nav [where off = "startOffset r", OF wf l p N, folded f1_def]
      have pw: "previousSibling f1 w =
        (if previousSibling f w = Some (startContainer r) then Some N else previousSibling f w)"
        by (rule nav(2) [OF wN])
      have rs: "refine_start f r (previousSibling f w) =
        Inr (f1, \<lparr>startNode = Some N,
                  endNode = (if previousSibling f w = previousSibling f1 N then Some N
                             else previousSibling f w),
                  goDeeper = True\<rparr>)"
        using l True sp by (simp add: refine_start_def)
      have ss: "start_splits f r" using l True by (simp add: start_splits_def)
      have "refine_start f r (previousSibling f w) = Inr (f1, \<lparr>startNode = Some N,
                  endNode = (if previousSibling f w = previousSibling f1 N then Some N
                             else previousSibling f w),
                  goDeeper = True\<rparr>) \<and>
        endNode \<lparr>startNode = Some N,
                  endNode = (if previousSibling f w = previousSibling f1 N then Some N
                             else previousSibling f w),
                  goDeeper = True\<rparr> = previousSibling f1 w \<and>
        endNode \<lparr>startNode = Some N,
                  endNode = (if previousSibling f w = previousSibling f1 N then Some N
                             else previousSibling f w),
                  goDeeper = True\<rparr> =
          (if start_splits f r \<and> previousSibling f w = Some (startContainer r)
           then startNode \<lparr>startNode = Some N,
                  endNode = (if previousSibling f w = previousSibling f1 N then Some N
                             else previousSibling f w),
                  goDeeper = True\<rparr> else previousSibling f w)"
        using rs nav(1) pw ss by simp
      then show ?thesis by blast
    qed
  qed
qed


definition hello_split :: "dnode list" where
  "hello_split =
     [Element 0 p_elem [Text 1 ''he'', Text 4 ''llo '', Element 2 b_elem [Text 3 ''world'']]]"



section \<open>More helpers of the dom module\<close>

text \<open>
  Modelled from the spec: \<open>dom(el).insertBefore(ref)\<close> and \<open>dom(el).insertAfter(ref)\<close>,
  which "reinsert" the node "as a sibling" of the reference node, before it or after
  it. A reference node without a parent has no siblings: a TypeError.
\<close>

definition dom_insertBefore :: "dnode list \<Rightarrow> nat \<Rightarrow> nat \<Rightarrow> js_error + dnode list" where
  "dom_insertBefore f el ref =
     (case parentNode f ref of
        None \<Rightarrow> Inl TypeError
      | Some p \<Rightarrow> insertBefore f p el (Some ref))"

definition dom_insertAfter :: "dnode list \<Rightarrow> nat \<Rightarrow> nat \<Rightarrow> js_error + dnode list" where
  "dom_insertAfter f el ref =
     (case parentNode f ref of
        None \<Rightarrow> Inl TypeError
      | Some p \<Rightarrow> insertBefore f p el (nextSibling f ref))"

text \<open>
  Modelled from the spec: \<open>dom(el).prepend(src.childNodes)\<close> and
  \<open>dom(el).append(src.childNodes)\<close>, "absorb that sibling's children into this marker
  (prepend for a preceding sibling, append for a following one)". The argument is
  always the list of all children of another element \<open>src\<close>: they leave \<open>src\<close> and
  go, in their order, to the front or to the end of the children of \<open>el\<close>.
\<close>

definition dom_prepend :: "dnode list \<Rightarrow> nat \<Rightarrow> nat \<Rightarrow> dnode list" where
  "dom_prepend f el src =
     (case lookup f src of
        Some (Element i e moved) \<Rightarrow>
          edit_kids el (\<lambda>cs. moved @ cs) (edit_kids src (\<lambda>cs. []) f)
      | _ \<Rightarrow> f)"

definition dom_append :: "dnode list \<Rightarrow> nat \<Rightarrow> nat \<Rightarrow> dnode list" where
  "dom_append f el src =
     (case lookup f src of
        Some (Element i e moved) \<Rightarrow>
          edit_kids el (\<lambda>cs. cs @ moved) (edit_kids src (\<lambda>cs. []) f)
      | _ \<Rightarrow> f)"

text \<open>
  Modelled from the spec: \<open>dom(el).normalizeTextNodes()\<close>, "coalesce any now-adjacent
  text-node children into a single text node". The first text node of a run takes the
  text of the run; the others leave the tree, each with its own text.
\<close>

fun is_text :: "dnode \<Rightarrow> bool" where
  "is_text (Text i s) = True"
| "is_text (Element i e cs) = False"

function coalesce :: "dnode list \<Rightarrow> dnode list" where
  "coalesce [] = []"
| "coalesce (Text i s # cs) =
     Text i (s @ concat (map textContent_of (takeWhile is_text cs)))
       # coalesce (dropWhile is_text cs)"
| "coalesce (Element i e ks # cs) = Element i e ks # coalesce cs"
  by pat_completeness auto
termination
  by (relation "measure length") (auto simp: le_imp_less_Suc length_dropWhile_le)

function coalesced :: "dnode list \<Rightarrow> dnode list" where
  "coalesced [] = []"
| "coalesced (Text i s # cs) = takeWhile is_text cs @ coalesced (dropWhile is_text cs)"
| "coalesced (Element i e ks # cs) = coalesced cs"
  by pat_completeness auto
termination
  by (relation "measure length") (auto simp: le_imp_less_Suc length_dropWhile_le)

definition normalizeTextNodes :: "dnode list \<Rightarrow> nat \<Rightarrow> dnode list" where
  "normalizeTextNodes f el =
     (case lookup f el of
        Some (Element i e cs) \<Rightarrow> edit_kids el coalesce f @ coalesced cs
      | _ \<Rightarrow> f)"

text \<open>
  Modelled from the spec: \<open>dom(el).unwrap()\<close>, the inverse of \<open>wrap\<close> ("unwrap on
  removal"): the children of the wrapper take its place among the children of its
  parent, the emptied wrapper leaves the tree; the children are returned. A wrapper
  without a parent cannot give its place to anything: a TypeError.
\<close>

fun splice :: "nat \<Rightarrow> dnode list \<Rightarrow> dnode list \<Rightarrow> dnode list" where
  "splice k new [] = []"
| "splice k new (c # cs) = (if nid c = k then new @ cs else c # splice k new cs)"

definition unwrap :: "dnode list \<Rightarrow> nat \<Rightarrow> js_error + (dnode list \<times> nat list)" where
  "unwrap f el =
     (case parentNode f el of
        None \<Rightarrow> Inl TypeError
      | Some p \<Rightarrow>
          (case lookup f el of
             Some (Element i e cs) \<Rightarrow>
               Inr (edit_kids p (splice el cs) f @ [Element i e []], map nid cs)
           | _ \<Rightarrow> Inl TypeError))"

text \<open>
  Modelled from the spec: \<open>dom(el).color()\<close>, the style (colour) of an element "however
  the tree primitive exposes" it; a text node has no style to read: a TypeError.
\<close>

definition color :: "dnode list \<Rightarrow> nat \<Rightarrow> js_error + string" where
  "color f k =
     (case lookup f k of
        Some (Element i e cs) \<Rightarrow> Inr (backgroundColor e)
      | _ \<Rightarrow> Inl TypeError)"

text \<open>
  Modelled from the spec: \<open>dom(el).parents()\<close>, the ancestors of a node, the nearest
  first; the helper is used for the depth of a node only.
\<close>

fun ancestors :: "nat \<Rightarrow> dnode list \<Rightarrow> nat list option" where
  "ancestors k [] = None"
| "ancestors k (Text i s # f) = (if i = k then Some [] else ancestors k f)"
| "ancestors k (Element i e cs # f) =
     (if i = k then Some []
      else (case ancestors k cs of None \<Rightarrow> ancestors k f | Some up \<Rightarrow> Some (up @ [i])))"

definition parents :: "dnode list \<Rightarrow> nat \<Rightarrow> nat list" where
  "parents f k = (case ancestors k f of None \<Rightarrow> [] | Some up \<Rightarrow> up)"

section \<open>The functions of utils.js\<close>

definition haveSameColor :: "dnode list \<Rightarrow> nat \<Rightarrow> nat \<Rightarrow> js_error + bool" where
  "haveSameColor f a b =
     (case color f a of
        Inl e \<Rightarrow> Inl e
      | Inr ca \<Rightarrow> (case color f b of Inl e \<Rightarrow> Inl e | Inr cb \<Rightarrow> Inr (ca = cb)))"

fun indexOf :: "'a \<Rightarrow> 'a list \<Rightarrow> nat" where
  "indexOf v [] = 0"
| "indexOf v (x # xs) = (if x = v then 0 else Suc (indexOf v xs))"

definition unique :: "'a list \<Rightarrow> 'a list" where
  "unique arr = map snd (filter (\<lambda>(idx, v). indexOf v arr = idx) (enumerate 0 arr))"

text \<open>
  \<open>sortByDepth\<close>: \<open>Array.prototype.sort\<close> is stable, and so is \<open>sort_key\<close>. The depth of a
  node is the number of its ancestors.
\<close>

definition sortByDepth :: "dnode list \<Rightarrow> nat list \<Rightarrow> bool \<Rightarrow> nat list" where
  "sortByDepth f arr descending =
     (if descending then sort_key (\<lambda>k. - int (length (parents f k))) arr
      else sort_key (\<lambda>k. int (length (parents f k))) arr)"

section \<open>The highlighter\<close>

text \<open>
  The attribute that marks a highlight; text-highlighter.js says of \<open>isHighlight\<close> that
  all highlights have the attribute \<open>data-highlighted\<close>.
\<close>

definition DATA_ATTR :: string where
  "DATA_ATTR = ''data-highlighted''"

definition hasAttribute :: "einfo \<Rightarrow> string \<Rightarrow> bool" where
  "hasAttribute e a = (a \<in> set (map fst (attributes e)))"

definition isHighlight :: "dnode list \<Rightarrow> nat option \<Rightarrow> bool" where
  "isHighlight f el =
     (case el of
        None \<Rightarrow> False
      | Some k \<Rightarrow>
          (case lookup f k of
             Some (Element i e cs) \<Rightarrow> hasAttribute e DATA_ATTR
           | _ \<Rightarrow> False))"

subsection \<open>mergeSiblingHighlights\<close>

definition shouldMerge :: "dnode list \<Rightarrow> nat \<Rightarrow> nat option \<Rightarrow> js_error + bool" where
  "shouldMerge f current node =
     (case node of
        None \<Rightarrow> Inr False
      | Some n \<Rightarrow>
          if nodeType f n \<noteq> Some ELEMENT_NODE then Inr False
          else
            (case haveSameColor f current n of
               Inl e \<Rightarrow> Inl e
             | Inr same \<Rightarrow> Inr (same \<and> isHighlight f node)))"

definition absorb_prev :: "dnode list \<Rightarrow> nat \<Rightarrow> nat option \<Rightarrow> js_error + dnode list" where
  "absorb_prev f highlight prev =
     (case shouldMerge f highlight prev of
        Inl e \<Rightarrow> Inl e
      | Inr m \<Rightarrow>
          (case prev of
             None \<Rightarrow> Inr f
           | Some pv \<Rightarrow>
               if m then Inr (dom_remove (dom_prepend f highlight pv) pv) else Inr f))"

definition absorb_next :: "dnode list \<Rightarrow> nat \<Rightarrow> nat option \<Rightarrow> js_error + dnode list" where
  "absorb_next f highlight next =
     (case shouldMerge f highlight next of
        Inl e \<Rightarrow> Inl e
      | Inr m \<Rightarrow>
          (case next of
             None \<Rightarrow> Inr f
           | Some nx \<Rightarrow>
               if m then Inr (dom_remove (dom_append f highlight nx) nx) else Inr f))"

text \<open>The body of the loop: both siblings are read before anything is merged.\<close>

definition merge_one :: "dnode list \<Rightarrow> nat \<Rightarrow> js_error + dnode list" where
  "merge_one f highlight =
     (let prev = previousSibling f highlight;
          next = nextSibling f highlight
      in case absorb_prev f highlight prev of
           Inl e \<Rightarrow> Inl e
         | Inr f1 \<Rightarrow>
             (case absorb_next f1 highlight next of
                Inl e \<Rightarrow> Inl e
              | Inr f2 \<Rightarrow> Inr (normalizeTextNodes f2 highlight)))"

fun mergeSiblingHighlights :: "dnode list \<Rightarrow> nat list \<Rightarrow> js_error + dnode list" where
  "mergeSiblingHighlights f [] = Inr f"
| "mergeSiblingHighlights f (highlight # highlights) =
     (case merge_one f highlight of
        Inl e \<Rightarrow> Inl e
      | Inr f1 \<Rightarrow> mergeSiblingHighlights f1 highlights)"


text \<open>A paragraph with three adjacent markers of one style.\<close>

definition abc_doc :: "dnode list" where
  "abc_doc =
     [Element 0 p_elem
        [Element 1 yellow_span [Text 2 ''a''], Element 3 yellow_span [Text 4 ''b''],
         Element 5 yellow_span [Text 6 ''c'']]]"

text \<open>
  The paragraph of three after the pass over its second and third marker: one marker
  is left, the emptied markers and the text nodes joined to the first are roots.
\<close>

definition abc_merged :: "dnode list" where
  "abc_merged =
     [Element 0 p_elem [Element 3 yellow_span [Text 2 ''abc'']],
      Element 1 yellow_span [], Element 5 yellow_span [], Text 4 ''b'', Text 6 ''c'']"

section \<open>Working below one element\<close>

text \<open>
  The functions of the highlighter change the children of one element \<open>p\<close> and move
  nodes out of the tree. \<open>ctx f p X R\<close> is the forest \<open>f\<close> with \<open>X\<close> as the children of
  \<open>p\<close> and with the further roots \<open>R\<close>.
\<close>

definition ctx :: "dnode list \<Rightarrow> nat \<Rightarrow> dnode list \<Rightarrow> dnode list \<Rightarrow> dnode list" where
  "ctx f p X R = edit_kids p (\<lambda>cs. X) f @ R"

lemma edit_kids_comp:
  "edit_kids p g2 (edit_kids p g1 f) = edit_kids p (\<lambda>cs. g2 (g1 cs)) f"
  by (induction p g1 f rule: edit_kids.induct) auto

lemma edit_kids_same:
  assumes "distinct (ids f)" "lookup f p = Some (Element p e cs)" "g cs = cs"
  shows "edit_kids p g f = f"
  using assms(1,2)
proof (induction f rule: forest_induct)
  case Nil
  then show ?case by simp
next
  case (Text i s f)
  then show ?case by (auto split: if_splits)
next
  case (Element i e' ks f)
  from Element.prems(1) have d: "distinct (ids ks)" "distinct (ids f)"
    "set (ids ks) \<inter> set (ids f) = {}" by auto
  show ?case
  proof (cases "i = p")
    case True
    with Element.prems assms(3) show ?thesis by simp
  next
    case False
    show ?thesis
    proof (cases "lookup ks p")
      case None
      then have "p \<notin> set (ids ks)" by (simp add: lookup_None_iff)
      then have "edit_kids p g ks = ks" by (rule edit_kids_id)
      moreover from None False Element.prems have "lookup f p = Some (Element p e cs)" by simp
      ultimately show ?thesis using Element.IH(2) d False by simp
    next
      case (Some n)
      with False Element.prems have l: "lookup ks p = Some (Element p e cs)" by simp
      from Element.IH(1) [OF d(1) l] have 1: "edit_kids p g ks = ks" .
      from lookup_Some_in_ids [OF l] d(3) have "p \<notin> set (ids f)" by auto
      then have "edit_kids p g f = f" by (rule edit_kids_id)
      with 1 False show ?thesis by simp
    qed
  qed
qed

lemma ctx_initial:
  "distinct (ids f) \<Longrightarrow> lookup f p = Some (Element p e cs) \<Longrightarrow> ctx f p cs [] = f"
  by (simp add: ctx_def edit_kids_same)

lemma edit_kids_append:
  "a \<notin> set (ids R) \<Longrightarrow> edit_kids a g (F @ R) = edit_kids a g F @ R"
  by (induction a g F rule: edit_kids.induct) (auto simp: edit_kids_id)

text \<open>The conditions under which \<open>ctx f p X R\<close> is a forest again.\<close>

definition fits :: "dnode list \<Rightarrow> dnode list \<Rightarrow> dnode list \<Rightarrow> dnode list \<Rightarrow> bool" where
  "fits f cs X R \<longleftrightarrow>
     distinct (ids X @ ids R) \<and> set (ids X @ ids R) \<inter> (set (ids f) - set (ids cs)) = {}"

lemma fits_perm:
  "distinct (ids cs) \<Longrightarrow> set (ids X @ ids R) = set (ids cs) \<Longrightarrow> distinct (ids X @ ids R) \<Longrightarrow>
   fits f cs X R"
  by (auto simp: fits_def)

lemma ctx_distinct:
  assumes "distinct (ids f)" "lookup f p = Some (Element p e cs)" "fits f cs X R"
  shows "distinct (ids (ctx f p X R))"
proof -
  from ids_edit_kids_split [OF assms(1,2), of "\<lambda>cs. X"] obtain l1 l2
    where l: "ids f = l1 @ p # ids cs @ l2" "ids (edit_kids p (\<lambda>cs. X) f) = l1 @ p # ids X @ l2"
    by auto
  with assms(1,3) show ?thesis
    unfolding ctx_def fits_def by auto
qed

lemma ctx_lookup:
  assumes "distinct (ids f)" "lookup f p = Some (Element p e cs)" "fits f cs X R"
  shows "lookup (ctx f p X R) p = Some (Element p e X)"
    and "q \<in> set (ids X) \<Longrightarrow> lookup (ctx f p X R) q = lookup X q"
    and "q \<in> set (ids R) \<Longrightarrow> lookup (ctx f p X R) q = lookup R q"
proof -
  from assms(3) have dj: "set (ids ((\<lambda>cs. X) cs)) \<inter> (set (ids f) - set (ids cs)) = {}"
    by (auto simp: fits_def)
  note L = lookup_edit_kids [of f p e cs "\<lambda>cs. X", OF assms(1,2) dj]
  from ids_edit_kids_split [OF assms(1,2), of "\<lambda>cs. X"] obtain l1 l2
    where l: "ids f = l1 @ p # ids cs @ l2" "ids (edit_kids p (\<lambda>cs. X) f) = l1 @ p # ids X @ l2"
    by auto
  show "lookup (ctx f p X R) p = Some (Element p e X)"
    using L [of p] by (simp add: ctx_def lookup_append)
  {
    assume q: "q \<in> set (ids X)"
    with l assms(1,3) have "q \<noteq> p" by (auto simp: fits_def)
    with q L [of q] have "lookup (edit_kids p (\<lambda>cs. X) f) q = lookup X q" by simp
    moreover from q have "lookup X q \<noteq> None" by (simp add: lookup_None_iff)
    ultimately show "lookup (ctx f p X R) q = lookup X q"
      by (auto simp: ctx_def lookup_append split: option.splits)
  }
  {
    assume q: "q \<in> set (ids R)"
    with l assms(1,3) have "q \<notin> set (ids (edit_kids p (\<lambda>cs. X) f))"
      by (auto simp: fits_def)
    then have "lookup (edit_kids p (\<lambda>cs. X) f) q = None" by (simp add: lookup_None_iff)
    then show "lookup (ctx f p X R) q = lookup R q"
      by (simp add: ctx_def lookup_append)
  }
qed

lemma edit_inside:
  assumes "distinct (ids f)" "lookup f p = Some (Element p e cs)"
    and "set (ids X) \<inter> (set (ids f) - set (ids cs)) = {}" "a \<in> set (ids X)"
  shows "edit_kids a g (edit_kids p (\<lambda>cs. X) f) = edit_kids p (\<lambda>cs. edit_kids a g X) f"
  using assms(1,2,3)
proof (induction f rule: forest_induct)
  case Nil
  then show ?case by simp
next
  case (Text i s f)
  from Text.prems have ip: "i \<noteq> p" by (auto split: if_splits)
  with Text.prems have l: "lookup f p = Some (Element p e cs)" by simp
  from Text.prems have d: "distinct (ids f)" "i \<notin> set (ids f)" by auto
  from lookup_Some_ids [OF l] d have "i \<notin> set (ids cs)" by auto
  with Text.prems(3) assms(4) have "i \<noteq> a" by auto
  moreover from Text.prems(3) have "set (ids X) \<inter> (set (ids f) - set (ids cs)) = {}" by auto
  ultimately show ?case using Text.IH [OF d(1) l] by simp
next
  case (Element i e' ks f)
  from Element.prems(1) have d: "distinct (ids ks)" "distinct (ids f)"
    "i \<notin> set (ids ks)" "i \<notin> set (ids f)" "set (ids ks) \<inter> set (ids f) = {}"
    by auto
  show ?case
  proof (cases "i = p")
    case True
    with Element.prems(2) have eq: "ks = cs" by simp
    from Element.prems(3) assms(4) True eq d have "a \<noteq> p" "a \<notin> set (ids f)" by auto
    with True show ?thesis by (simp add: edit_kids_id)
  next
    case ip: False
    show ?thesis
    proof (cases "p \<in> set (ids ks)")
      case True
      then have l: "lookup ks p = Some (Element p e cs)"
        using Element.prems(2) ip by (auto simp: lookup_None_iff split: option.splits)
      from True d have pf: "p \<notin> set (ids f)" by auto
      from lookup_Some_ids [OF l] have sub: "set (ids cs) \<subseteq> set (ids ks)" by auto
      with d have "i \<notin> set (ids cs)" by auto
      with Element.prems(3) assms(4) have ia: "i \<noteq> a" by auto
      from Element.prems(3) assms(4) sub d have af: "a \<notin> set (ids f)" by auto
      from Element.prems(3) have "set (ids X) \<inter> (set (ids ks) - set (ids cs)) = {}" by auto
      from Element.IH(1) [OF d(1) l this] ip ia pf af show ?thesis
        by (simp add: edit_kids_id)
    next
      case False
      then have pk: "lookup ks p = None" by (simp add: lookup_None_iff)
      then have l: "lookup f p = Some (Element p e cs)"
        using Element.prems(2) ip by simp
      from lookup_Some_ids [OF l] have sub: "set (ids cs) \<subseteq> set (ids f)" by auto
      with d have "i \<notin> set (ids cs)" by auto
      with Element.prems(3) assms(4) have ia: "i \<noteq> a" by auto
      from Element.prems(3) assms(4) sub d have ak: "a \<notin> set (ids ks)" by auto
      from Element.prems(3) have "set (ids X) \<inter> (set (ids f) - set (ids cs)) = {}" by auto
      from Element.IH(2) [OF d(2) l this] ip ia False ak show ?thesis
        by (simp add: edit_kids_id)
    qed
  qed
qed

lemma ctx_edit:
  assumes "distinct (ids f)" "lookup f p = Some (Element p e cs)" "fits f cs X R"
    and "a \<in> set (ids X)"
  shows "edit_kids a g (ctx f p X R) = ctx f p (edit_kids a g X) R"
proof -
  from assms(3,4) have aR: "a \<notin> set (ids R)" by (auto simp: fits_def)
  from assms(3) have dj: "set (ids X) \<inter> (set (ids f) - set (ids cs)) = {}"
    by (auto simp: fits_def)
  show ?thesis
    unfolding ctx_def edit_kids_append [OF aR]
    by (simp add: edit_inside [OF assms(1,2) dj assms(4)])
qed

lemma ctx_edit_top:
  assumes "distinct (ids f)" "lookup f p = Some (Element p e cs)" "fits f cs X R"
  shows "edit_kids p g (ctx f p X R) = ctx f p (g X) R"
proof -
  from ids_edit_kids_split [OF assms(1,2), of "\<lambda>cs. X"] obtain l1 l2
    where l: "ids f = l1 @ p # ids cs @ l2" by auto
  with assms(1,3) have "p \<notin> set (ids R)" by (auto simp: fits_def)
  then show ?thesis
    unfolding ctx_def by (simp add: edit_kids_append edit_kids_comp)
qed

lemma root_no_parent:
  assumes "distinct (ids s)" "t \<in> set s"
  shows "parentNode s (nid t) = None"
proof (cases "parent_of s (nid t)")
  case None
  then show ?thesis by (simp add: parentNode_def)
next
  case (Some P)
  from parent_of_Some_D [OF Some] obtain c where "P \<in> set (nodes s)" "c \<in> set (kids P)"
    "nid c = nid t" by auto
  from kid_not_root [OF assms(1) this(1,2)] this(3) assms(2) show ?thesis by auto
qed

lemma ctx_childNodes:
  assumes "distinct (ids f)" "lookup f p = Some (Element p e cs)" "fits f cs X R"
  shows "childNodes (ctx f p X R) p = map nid X"
  using ctx_lookup(1) [OF assms] by (simp add: childNodes_def)

lemma ctx_nav:
  assumes "distinct (ids f)" "lookup f p = Some (Element p e cs)" "fits f cs X R"
    and "a \<in> nid ` set X"
  shows "parentNode (ctx f p X R) a = Some p"
    and "previousSibling (ctx f p X R) a = before a (map nid X)"
    and "nextSibling (ctx f p X R) a = after a (map nid X)"
proof -
  note wf = ctx_distinct [OF assms(1-3)]
  note cn = ctx_childNodes [OF assms(1-3)]
  from assms(4) cn show pn: "parentNode (ctx f p X R) a = Some p"
    by (simp add: parentNode_iff [OF wf])
  from siblings_via_childNodes [OF wf pn] cn
  show "previousSibling (ctx f p X R) a = before a (map nid X)"
    and "nextSibling (ctx f p X R) a = after a (map nid X)" by simp_all
qed

lemma ctx_root:
  assumes "distinct (ids f)" "lookup f p = Some (Element p e cs)" "fits f cs X R"
    and "t \<in> set R"
  shows "parentNode (ctx f p X R) (nid t) = None"
proof -
  from assms(4) have "t \<in> set (ctx f p X R)" by (simp add: ctx_def)
  from root_no_parent [OF ctx_distinct [OF assms(1-3)] this] show ?thesis .
qed

lemma lookup_root: "distinct (ids X) \<Longrightarrow> n \<in> set X \<Longrightarrow> lookup X (nid n) = Some n"
  using roots_subset_nodes [of X] by (auto intro: lookup_unique)

lemma ctx_detach:
  assumes "distinct (ids f)" "lookup f p = Some (Element p e cs)" "fits f cs X R"
    and "n \<in> set X"
  shows "detach (ctx f p X R) (nid n) = ctx f p (without (nid n) X) (R @ [n])"
proof -
  from assms(3) have dX: "distinct (ids X)" by (simp add: fits_def)
  from lookup_root [OF dX assms(4)] have lX: "lookup X (nid n) = Some n" .
  from assms(4) have nin: "nid n \<in> set (ids X)" by (rule roots_in_ids)
  from ctx_lookup(2) [OF assms(1-3) nin] lX have l: "lookup (ctx f p X R) (nid n) = Some n"
    by simp
  from assms(4) have "nid n \<in> nid ` set X" by simp
  from ctx_nav(1) [OF assms(1-3) this] have pn: "parentNode (ctx f p X R) (nid n) = Some p" .
  show ?thesis
    unfolding detach_def pn l
    by (simp add: ctx_edit_top [OF assms(1-3)]) (simp add: ctx_def)
qed

section \<open>Merging two adjacent markers\<close>

lemma edit_kids_at:
  "a \<notin> set (ids pre) \<Longrightarrow>
   edit_kids a g (pre @ Element a e ks # post) = pre @ Element a e (g ks) # post"
proof (induction pre)
  case Nil
  then show ?case by simp
next
  case (Cons t pre)
  then show ?case by (cases t) (auto simp: edit_kids_id)
qed

lemma without_id: "b \<notin> nid ` set xs \<Longrightarrow> without b xs = xs"
  by (induction xs) (auto simp: without_def)

lemma without_at:
  "b \<notin> nid ` set pre \<Longrightarrow> b \<notin> nid ` set post \<Longrightarrow>
   without b (pre @ n # post) = (if nid n = b then pre @ post else pre @ n # post)"
  using without_id [of b pre] without_id [of b post] by (simp add: without_def)

lemma before_decomp:
  "before k xs = Some y \<Longrightarrow> \<exists>l1 l2. xs = l1 @ y # k # l2 \<and> k \<notin> set l1 \<and> y \<noteq> k"
proof (induction k xs rule: before.induct)
  case (1 k)
  then show ?case by simp
next
  case (2 k x)
  then show ?case by simp
next
  case (3 k x y' ys)
  show ?case
  proof (cases "x = k")
    case True
    with 3 show ?thesis by simp
  next
    case xk: False
    show ?thesis
    proof (cases "y' = k")
      case True
      with xk 3 have "x # y' # ys = [] @ y # k # ys \<and> k \<notin> set [] \<and> y \<noteq> k" by simp
      then show ?thesis by blast
    next
      case False
      with xk 3 obtain l1 l2 where "y' # ys = l1 @ y # k # l2" "k \<notin> set l1" "y \<noteq> k"
        by auto
      with xk have "x # y' # ys = (x # l1) @ y # k # l2 \<and> k \<notin> set (x # l1) \<and> y \<noteq> k" by simp
      then show ?thesis by blast
    qed
  qed
qed

lemma after_at: "a \<notin> set l1 \<Longrightarrow> after a (l1 @ a # b # l2) = Some b"
proof (induction l1)
  case Nil
  then show ?case by simp
next
  case (Cons x l1)
  then show ?case by (cases l1) auto
qed

lemma after_last: "a \<notin> set l1 \<Longrightarrow> after a (l1 @ [a]) = None"
proof (induction l1)
  case Nil
  then show ?case by simp
next
  case (Cons x l1)
  then show ?case by (cases l1) auto
qed

lemma before_at: "a \<noteq> b \<Longrightarrow> b \<notin> set l1 \<Longrightarrow> before b (l1 @ a # b # l2) = Some a"
proof (induction l1)
  case Nil
  then show ?case by simp
next
  case (Cons x l1)
  then show ?case by (cases l1) auto
qed

text \<open>Two adjacent siblings, seen in the children of their parent.\<close>

lemma adjacent_siblings:
  assumes wf: "distinct (ids f)" and adj: "previousSibling f B = Some A"
  shows "\<exists>p e pre nA nB post.
     lookup f p = Some (Element p e (pre @ nA # nB # post)) \<and> nid nA = A \<and> nid nB = B"
proof -
  from adj obtain P where P: "parent_of f B = Some P" "before B (map nid (kids P)) = Some A"
    by (auto simp: previousSibling_def split: option.splits)
  from before_decomp [OF P(2)] obtain l1 l2 where l: "map nid (kids P) = l1 @ A # B # l2"
    by auto
  then obtain pre nA nB post where k: "kids P = pre @ nA # nB # post" "nid nA = A" "nid nB = B"
    by (auto simp: map_eq_append_conv map_eq_Cons_conv)
  from parent_of_Some_D [OF P(1)] have Pn: "P \<in> set (nodes f)" by simp
  from k obtain i e cs where PE: "P = Element i e cs" by (cases P) auto
  from lookup_unique [OF wf Pn] PE k
  have "lookup f i = Some (Element i e (pre @ nA # nB # post))" by simp
  with k show ?thesis by blast
qed

subsection \<open>Coalescing text nodes\<close>

lemma textContent_coalesce:
  "concat (map textContent_of (coalesce ks)) = concat (map textContent_of ks)"
proof (induction ks rule: coalesce.induct)
  case 1
  then show ?case by simp
next
  case (2 i s cs)
  have "concat (map textContent_of cs) =
    concat (map textContent_of (takeWhile is_text cs)) @
    concat (map textContent_of (dropWhile is_text cs))"
    by (metis concat_append map_append takeWhile_dropWhile_id)
  with 2 show ?case by simp
next
  case (3 i e ks cs)
  then show ?case by simp
qed

lemma mset_coalesce:
  "mset (ids (coalesce ks)) + mset (ids (coalesced ks)) = mset (ids ks)"
proof (induction ks rule: coalesce.induct)
  case 1
  then show ?case by simp
next
  case (2 i s cs)
  have "mset (ids cs) = mset (ids (takeWhile is_text cs)) + mset (ids (dropWhile is_text cs))"
    by (metis ids_append mset_append takeWhile_dropWhile_id)
  with 2 show ?case by simp
next
  case (3 i e ks cs)
  then show ?case by simp
qed

lemma coalesce_ids:
  "set (ids (coalesce ks)) \<union> set (ids (coalesced ks)) = set (ids ks)"
  "distinct (ids ks) \<Longrightarrow> distinct (ids (coalesce ks) @ ids (coalesced ks))"
proof -
  have m: "mset (ids (coalesce ks) @ ids (coalesced ks)) = mset (ids ks)"
    using mset_coalesce [of ks] by simp
  from mset_eq_setD [OF m] show "set (ids (coalesce ks)) \<union> set (ids (coalesced ks)) = set (ids ks)"
    by simp
  assume "distinct (ids ks)"
  with mset_eq_imp_distinct_iff [OF m] show "distinct (ids (coalesce ks) @ ids (coalesced ks))"
    by simp
qed

subsection \<open>One step of the merge\<close>

lemma lookup_kid:
  assumes "distinct (ids f)" "lookup f p = Some (Element p e cs)" "n \<in> set cs"
  shows "lookup f (nid n) = Some n"
proof -
  from kids_in_nodes [OF lookup_in_nodes [OF assms(2)]] assms(3) have "n \<in> set (nodes f)" by simp
  from lookup_unique [OF assms(1) this] show ?thesis .
qed

lemma fits_initial:
  assumes "distinct (ids f)" "lookup f p = Some (Element p e cs)"
  shows "fits f cs cs []"
  using distinct_kids [OF assms] by (auto simp: fits_def)

lemma shouldMerge_None [simp]: "shouldMerge f a None = Inr False"
  by (simp add: shouldMerge_def)

lemma shouldMerge_marker:
  assumes "lookup f a = Some (Element a ea ka)" "lookup f b = Some (Element b eb kb)"
  shows "shouldMerge f a (Some b) =
     Inr (backgroundColor ea = backgroundColor eb \<and> hasAttribute eb DATA_ATTR)"
  using assms
  by (simp add: shouldMerge_def nodeType_def haveSameColor_def color_def isHighlight_def)

lemma shouldMerge_transfer:
  assumes "lookup f a = Some (Element a ea ka)" "lookup f' a = Some (Element a ea ka')"
    and "lookup f' n = lookup f n"
  shows "shouldMerge f' a (Some n) = shouldMerge f a (Some n)"
proof -
  have "isHighlight f' (Some n) = isHighlight f (Some n)" "nodeType f' n = nodeType f n"
    "color f' n = color f n" "color f' a = color f a"
    using assms by (simp_all add: isHighlight_def nodeType_def color_def)
  then show ?thesis by (simp add: shouldMerge_def haveSameColor_def cong: sum.case_cong)
qed

lemma merge_detached:
  assumes wf: "distinct (ids s)" and r: "Element Y e [] \<in> set s"
  shows "merge_one s Y = Inr s"
proof -
  from root_no_parent [OF wf r] have pn: "parentNode s Y = None" by simp
  from no_parent_no_siblings [OF pn] have sib: "previousSibling s Y = None" "nextSibling s Y = None"
    by simp_all
  have "Element Y e [] \<in> set (nodes s)" using r roots_subset_nodes by auto
  from lookup_unique [OF wf this] have l: "lookup s Y = Some (Element Y e [])" by simp
  have "edit_kids Y coalesce s = s" by (rule edit_kids_same [OF wf l]) simp
  with l sib show ?thesis
    by (simp add: merge_one_def absorb_prev_def absorb_next_def normalizeTextNodes_def)
qed

lemma merge_one_absorbs_next:
  assumes wf: "distinct (ids f)"
    and lp: "lookup f p = Some (Element p e (pre @ Element A eA ksA # Element B eB ksB # post))"
    and hB: "hasAttribute eB DATA_ATTR"
    and col: "backgroundColor eA = backgroundColor eB"
    and prev: "shouldMerge f A (previousSibling f A) = Inr False"
  defines "X \<equiv> pre @ Element A eA (coalesce (ksA @ ksB)) # post"
    and "R \<equiv> Element B eB [] # coalesced (ksA @ ksB)"
  shows "merge_one f A = Inr (ctx f p X R)"
    and "fits f (pre @ Element A eA ksA # Element B eB ksB # post) X R"
proof -
  define cs where "cs = pre @ Element A eA ksA # Element B eB ksB # post"
  note lp' = lp [folded cs_def]
  have dcs: "distinct (ids cs)" by (rule distinct_kids [OF wf lp'])
  have f0: "f = ctx f p cs []" by (simp add: ctx_initial [OF wf lp'])
  have fit0: "fits f cs cs []" by (rule fits_initial [OF wf lp'])
  have lA: "lookup f A = Some (Element A eA ksA)"
    using lookup_kid [OF wf lp', of "Element A eA ksA"] by (simp add: cs_def)
  have lB: "lookup f B = Some (Element B eB ksB)"
    using lookup_kid [OF wf lp', of "Element B eB ksB"] by (simp add: cs_def)
  have Ain: "A \<in> nid ` set cs" by (simp add: cs_def)
  have Apre: "A \<notin> set (ids pre)" "B \<notin> set (ids pre)" "A \<noteq> B" "B \<notin> set (ids ksA)"
    using dcs by (auto simp: cs_def)
  have Broots: "B \<notin> nid ` set pre" "B \<notin> nid ` set post"
    using dcs by (auto simp: cs_def dest: roots_in_ids)
  have nx: "nextSibling f A = Some B"
  proof -
    have "nextSibling (ctx f p cs []) A = after A (map nid cs)"
      by (rule ctx_nav(3) [OF wf lp' fit0 Ain])
    moreover have "A \<notin> set (map nid pre)" using Apre(1) by (auto dest: roots_in_ids)
    then have "after A (map nid cs) = Some B" by (simp add: cs_def after_at)
    ultimately show ?thesis using f0 by simp
  qed
  have ap: "absorb_prev f A (previousSibling f A) = Inr f"
    using prev by (simp add: absorb_prev_def split: option.splits)
  have sm: "shouldMerge f A (Some B) = Inr True"
    using shouldMerge_marker [OF lA lB] hB col by simp
  \<comment> \<open>the children of B leave it and go to the end of the children of A\<close>
  define X1 where "X1 = pre @ Element A eA ksA # Element B eB [] # post"
  define X2 where "X2 = pre @ Element A eA (ksA @ ksB) # Element B eB [] # post"
  define X3 where "X3 = pre @ Element A eA (ksA @ ksB) # post"
  have fit1: "fits f cs X1 []" using dcs by (auto simp: fits_def cs_def X1_def)
  have fit2: "fits f cs X2 []" using dcs by (auto simp: fits_def cs_def X2_def)
  have fit3: "fits f cs X3 [Element B eB []]" using dcs by (auto simp: fits_def cs_def X3_def)
  have e1: "edit_kids B (\<lambda>cs. []) f = ctx f p X1 []"
  proof -
    have "B \<in> set (ids cs)" by (simp add: cs_def)
    from ctx_edit [OF wf lp' fit0 this, of "\<lambda>cs. []"] f0
    have "edit_kids B (\<lambda>cs. []) f = ctx f p (edit_kids B (\<lambda>cs. []) cs) []" by simp
    moreover have "edit_kids B (\<lambda>cs. []) cs = X1"
      using edit_kids_at [of B "pre @ [Element A eA ksA]" "\<lambda>cs. []" eB ksB post] Apre
      by (simp add: cs_def X1_def)
    ultimately show ?thesis by simp
  qed
  have e2: "dom_append f A B = ctx f p X2 []"
  proof -
    have "A \<in> set (ids X1)" by (simp add: X1_def)
    from ctx_edit [OF wf lp' fit1 this, of "\<lambda>cs. cs @ ksB"]
    have "edit_kids A (\<lambda>cs. cs @ ksB) (ctx f p X1 []) =
      ctx f p (edit_kids A (\<lambda>cs. cs @ ksB) X1) []" .
    moreover have "edit_kids A (\<lambda>cs. cs @ ksB) X1 = X2"
      using edit_kids_at [of A pre "\<lambda>cs. cs @ ksB" eA ksA "Element B eB [] # post"] Apre
      by (simp add: X1_def X2_def)
    ultimately show ?thesis using lB e1 by (simp add: dom_append_def)
  qed
  have e3: "dom_remove (dom_append f A B) B = ctx f p X3 [Element B eB []]"
  proof -
    have "Element B eB [] \<in> set X2" by (simp add: X2_def)
    from ctx_detach [OF wf lp' fit2 this]
    have "detach (ctx f p X2 []) B = ctx f p (without B X2) [Element B eB []]" by simp
    moreover have "without B X2 = X3"
      using without_at [of B "pre @ [Element A eA (ksA @ ksB)]" post "Element B eB []"]
        Broots Apre
      by (simp add: X2_def X3_def)
    ultimately show ?thesis by (simp add: dom_remove_def e2)
  qed
  have an: "absorb_next f A (Some B) = Inr (ctx f p X3 [Element B eB []])"
    using sm e3 by (simp add: absorb_next_def)
  have l3: "lookup (ctx f p X3 [Element B eB []]) A = Some (Element A eA (ksA @ ksB))"
  proof -
    have "A \<in> set (ids X3)" by (simp add: X3_def)
    from ctx_lookup(2) [OF wf lp' fit3 this]
    have "lookup (ctx f p X3 [Element B eB []]) A = lookup X3 A" .
    moreover have "distinct (ids X3)" using fit3 by (simp add: fits_def)
    from lookup_root [OF this, of "Element A eA (ksA @ ksB)"]
    have "lookup X3 A = Some (Element A eA (ksA @ ksB))" by (simp add: X3_def)
    ultimately show ?thesis by simp
  qed
  have e4: "normalizeTextNodes (ctx f p X3 [Element B eB []]) A = ctx f p X R"
  proof -
    have "A \<in> set (ids X3)" by (simp add: X3_def)
    from ctx_edit [OF wf lp' fit3 this, of coalesce]
    have "edit_kids A coalesce (ctx f p X3 [Element B eB []]) =
      ctx f p (edit_kids A coalesce X3) [Element B eB []]" .
    moreover have "edit_kids A coalesce X3 = X"
      using edit_kids_at [of A pre coalesce eA "ksA @ ksB" post] Apre
      by (simp add: X3_def X_def)
    ultimately show ?thesis using l3 by (simp add: normalizeTextNodes_def ctx_def R_def)
  qed
  show "merge_one f A = Inr (ctx f p X R)"
    using nx ap an e4 by (simp add: merge_one_def)
  have dk: "distinct (ids (ksA @ ksB))" using dcs by (auto simp: cs_def)
  from coalesce_ids [of "ksA @ ksB"] dk dcs
  show "fits f (pre @ Element A eA ksA # Element B eB ksB # post) X R"
    unfolding fits_def X_def R_def cs_def
    by (auto simp: cs_def)
qed

lemma merge_one_absorbs_prev:
  assumes wf: "distinct (ids f)"
    and lp: "lookup f p = Some (Element p e (pre @ Element A eA ksA # Element B eB ksB # post))"
    and hA: "hasAttribute eA DATA_ATTR"
    and col: "backgroundColor eA = backgroundColor eB"
    and nxt: "shouldMerge f B (nextSibling f B) = Inr False"
  defines "X \<equiv> pre @ Element B eB (coalesce (ksA @ ksB)) # post"
    and "R \<equiv> Element A eA [] # coalesced (ksA @ ksB)"
  shows "merge_one f B = Inr (ctx f p X R)"
    and "fits f (pre @ Element A eA ksA # Element B eB ksB # post) X R"
proof -
  define cs where "cs = pre @ Element A eA ksA # Element B eB ksB # post"
  note lp' = lp [folded cs_def]
  have dcs: "distinct (ids cs)" by (rule distinct_kids [OF wf lp'])
  have f0: "f = ctx f p cs []" by (simp add: ctx_initial [OF wf lp'])
  have fit0: "fits f cs cs []" by (rule fits_initial [OF wf lp'])
  have lA: "lookup f A = Some (Element A eA ksA)"
    using lookup_kid [OF wf lp', of "Element A eA ksA"] by (simp add: cs_def)
  have lB: "lookup f B = Some (Element B eB ksB)"
    using lookup_kid [OF wf lp', of "Element B eB ksB"] by (simp add: cs_def)
  have Bin: "B \<in> nid ` set cs" by (simp add: cs_def)
  have Apre: "A \<notin> set (ids pre)" "B \<notin> set (ids pre)" "A \<noteq> B" "B \<notin> set (ids ksA)"
    using dcs by (auto simp: cs_def)
  have Aroots: "A \<notin> nid ` set pre" "A \<notin> nid ` set post" "B \<notin> nid ` set pre"
    using dcs by (auto simp: cs_def dest: roots_in_ids)
  have pv: "previousSibling f B = Some A"
  proof -
    have "previousSibling (ctx f p cs []) B = before B (map nid cs)"
      by (rule ctx_nav(2) [OF wf lp' fit0 Bin])
    moreover have "B \<notin> set (map nid pre)" using Aroots(3) by simp
    then have "before B (map nid cs) = Some A" using Apre(3) by (simp add: cs_def before_at)
    ultimately show ?thesis using f0 by simp
  qed
  have sm: "shouldMerge f B (Some A) = Inr True"
    using shouldMerge_marker [OF lB lA] hA col by simp
  \<comment> \<open>the children of A leave it and go to the front of the children of B\<close>
  define X1 where "X1 = pre @ Element A eA [] # Element B eB ksB # post"
  define X2 where "X2 = pre @ Element A eA [] # Element B eB (ksA @ ksB) # post"
  define X3 where "X3 = pre @ Element B eB (ksA @ ksB) # post"
  define f1 where "f1 = ctx f p X3 [Element A eA []]"
  have fit1: "fits f cs X1 []" using dcs by (auto simp: fits_def cs_def X1_def)
  have fit2: "fits f cs X2 []" using dcs by (auto simp: fits_def cs_def X2_def)
  have fit3: "fits f cs X3 [Element A eA []]" using dcs by (auto simp: fits_def cs_def X3_def)
  have e1: "edit_kids A (\<lambda>cs. []) f = ctx f p X1 []"
  proof -
    have "A \<in> set (ids cs)" by (simp add: cs_def)
    from ctx_edit [OF wf lp' fit0 this, of "\<lambda>cs. []"] f0
    have "edit_kids A (\<lambda>cs. []) f = ctx f p (edit_kids A (\<lambda>cs. []) cs) []" by simp
    moreover have "edit_kids A (\<lambda>cs. []) cs = X1"
      using edit_kids_at [of A pre "\<lambda>cs. []" eA ksA "Element B eB ksB # post"] Apre
      by (simp add: cs_def X1_def)
    ultimately show ?thesis by simp
  qed
  have e2: "dom_prepend f B A = ctx f p X2 []"
  proof -
    have "B \<in> set (ids X1)" by (simp add: X1_def)
    from ctx_edit [OF wf lp' fit1 this, of "\<lambda>cs. ksA @ cs"]
    have "edit_kids B (\<lambda>cs. ksA @ cs) (ctx f p X1 []) =
      ctx f p (edit_kids B (\<lambda>cs. ksA @ cs) X1) []" .
    moreover have "edit_kids B (\<lambda>cs. ksA @ cs) X1 = X2"
      using edit_kids_at [of B "pre @ [Element A eA []]" "\<lambda>cs. ksA @ cs" eB ksB post] Apre
      by (simp add: X1_def X2_def)
    ultimately show ?thesis using lA e1 by (simp add: dom_prepend_def)
  qed
  have e3: "dom_remove (dom_prepend f B A) A = f1"
  proof -
    have "Element A eA [] \<in> set X2" by (simp add: X2_def)
    from ctx_detach [OF wf lp' fit2 this]
    have "detach (ctx f p X2 []) A = ctx f p (without A X2) [Element A eA []]" by simp
    moreover have "without A X2 = X3"
      using without_at [of A pre "Element B eB (ksA @ ksB) # post" "Element A eA []"]
        without_id [of A "Element B eB (ksA @ ksB) # post"] Aroots Apre
      by (simp add: X2_def X3_def without_def)
    ultimately show ?thesis by (simp add: dom_remove_def e2 f1_def)
  qed
  have ap: "absorb_prev f B (Some A) = Inr f1"
    using sm e3 by (simp add: absorb_prev_def)
  have l3: "lookup f1 B = Some (Element B eB (ksA @ ksB))"
  proof -
    have "B \<in> set (ids X3)" by (simp add: X3_def)
    from ctx_lookup(2) [OF wf lp' fit3 this]
    have "lookup f1 B = lookup X3 B" by (simp add: f1_def)
    moreover have "distinct (ids X3)" using fit3 by (simp add: fits_def)
    from lookup_root [OF this, of "Element B eB (ksA @ ksB)"]
    have "lookup X3 B = Some (Element B eB (ksA @ ksB))" by (simp add: X3_def)
    ultimately show ?thesis by simp
  qed
  \<comment> \<open>the following sibling was read before the merge, and is judged after it\<close>
  have an: "absorb_next f1 B (nextSibling f B) = Inr f1"
  proof (cases "nextSibling f B")
    case None
    then show ?thesis by (simp add: absorb_next_def)
  next
    case (Some n)
    have "nextSibling (ctx f p cs []) B = after B (map nid cs)"
      by (rule ctx_nav(3) [OF wf lp' fit0 Bin])
    with f0 Some have af: "after B (map nid cs) = Some n" by simp
    have nB: "B \<notin> set (map nid pre @ [A])" using Aroots(3) Apre(3) by simp
    have "post \<noteq> [] \<and> n = nid (hd post)"
    proof (cases post)
      case Nil
      with af after_last [OF nB] show ?thesis by (simp add: cs_def)
    next
      case (Cons t ts)
      with af after_at [OF nB, of "nid t" "map nid ts"] show ?thesis by (simp add: cs_def)
    qed
    then have hp: "hd post \<in> set post" "n = nid (hd post)" by simp_all
    from hp have "hd post \<in> set cs" by (simp add: cs_def)
    from lookup_kid [OF wf lp' this] hp have ln: "lookup f n = Some (hd post)" by simp
    from hp have hX: "hd post \<in> set X3" by (simp add: X3_def)
    then have "n \<in> set (ids X3)" using hp(2) by (simp add: roots_in_ids)
    from ctx_lookup(2) [OF wf lp' fit3 this] have "lookup f1 n = lookup X3 n"
      by (simp add: f1_def)
    moreover have "distinct (ids X3)" using fit3 by (simp add: fits_def)
    from lookup_root [OF this hX] hp have "lookup X3 n = Some (hd post)" by simp
    ultimately have "lookup f1 n = lookup f n" using ln by simp
    from shouldMerge_transfer [OF lB l3 this] nxt Some
    have "shouldMerge f1 B (Some n) = Inr False" by simp
    with Some show ?thesis by (simp add: absorb_next_def)
  qed
  have e4: "normalizeTextNodes f1 B = ctx f p X R"
  proof -
    have "B \<in> set (ids X3)" by (simp add: X3_def)
    from ctx_edit [OF wf lp' fit3 this, of coalesce]
    have "edit_kids B coalesce f1 = ctx f p (edit_kids B coalesce X3) [Element A eA []]"
      by (simp add: f1_def)
    moreover have "edit_kids B coalesce X3 = X"
      using edit_kids_at [of B pre coalesce eB "ksA @ ksB" post] Apre
      by (simp add: X3_def X_def)
    ultimately show ?thesis using l3 by (simp add: normalizeTextNodes_def ctx_def R_def)
  qed
  show "merge_one f B = Inr (ctx f p X R)"
    using pv ap an e4 by (simp add: merge_one_def)
  have dk: "distinct (ids (ksA @ ksB))" using dcs by (auto simp: cs_def)
  from coalesce_ids [of "ksA @ ksB"] dk dcs
  show "fits f (pre @ Element A eA ksA # Element B eB ksB # post) X R"
    unfolding fits_def X_def R_def cs_def
    by (auto simp: cs_def)
qed

subsection \<open>Two adjacent markers in the tree\<close>

text \<open>Two adjacent markers of one style, seen in the children of their parent.\<close>

lemma pair_structure:
  assumes wf: "distinct (ids f)"
    and adj: "previousSibling f B = Some A"
    and hA: "isHighlight f (Some A)"
    and hB: "isHighlight f (Some B)"
    and hc: "haveSameColor f A B = Inr True"
  shows "\<exists>p e pre eA ksA eB ksB post.
     lookup f p = Some (Element p e (pre @ Element A eA ksA # Element B eB ksB # post)) \<and>
     hasAttribute eA DATA_ATTR \<and> hasAttribute eB DATA_ATTR \<and>
     backgroundColor eA = backgroundColor eB"
proof -
  from adjacent_siblings [OF wf adj] obtain p e pre nA nB post
    where s: "lookup f p = Some (Element p e (pre @ nA # nB # post)) \<and> nid nA = A \<and> nid nB = B"
    by (elim exE)
  then have lp: "lookup f p = Some (Element p e (pre @ nA # nB # post))"
    and n: "nid nA = A" "nid nB = B" by simp_all
  from lookup_kid [OF wf lp, of nA] n have lA: "lookup f A = Some nA" by simp
  from lookup_kid [OF wf lp, of nB] n have lB: "lookup f B = Some nB" by simp
  from hA lA n obtain eA ksA where A: "nA = Element A eA ksA" "hasAttribute eA DATA_ATTR"
    by (cases nA) (auto simp: isHighlight_def)
  from hB lB n obtain eB ksB where B: "nB = Element B eB ksB" "hasAttribute eB DATA_ATTR"
    by (cases nB) (auto simp: isHighlight_def)
  from hc lA lB A B have "backgroundColor eA = backgroundColor eB"
    by (simp add: haveSameColor_def color_def)
  with lp A B show ?thesis by blast
qed


section \<open>Removing highlights\<close>

text \<open>
  \<open>getHighlights\<close> with the default parameters (\<open>andSelf\<close> true, \<open>grouped\<close> false):
  \<open>querySelectorAll\<close> gives the elements below the container that have the attribute,
  in document order; the container comes last when it has the attribute itself.
\<close>

fun is_marker :: "dnode \<Rightarrow> bool" where
  "is_marker (Text i s) = False"
| "is_marker (Element i e cs) = hasAttribute e DATA_ATTR"

definition getHighlights :: "dnode list \<Rightarrow> nat \<Rightarrow> js_error + nat list" where
  "getHighlights f container =
     (case lookup f container of
        Some (Element i e cs) \<Rightarrow>
          Inr (map nid (filter is_marker (nodes cs)) @
               (if hasAttribute e DATA_ATTR then [container] else []))
      | _ \<Rightarrow> Inl TypeError)"

text \<open>
  The string that \<open>+\<close> makes of a \<open>nodeValue\<close>: the payload of a text node, and
  \<open>null\<close> for the null of an element.
\<close>

definition js_string :: "string option \<Rightarrow> string" where
  "js_string v = (case v of None \<Rightarrow> ''null'' | Some s \<Rightarrow> s)"

definition join_prev :: "dnode list \<Rightarrow> nat \<Rightarrow> nat option \<Rightarrow> dnode list" where
  "join_prev f textNode prev =
     (case prev of
        None \<Rightarrow> f
      | Some pv \<Rightarrow>
          if nodeType f pv = Some TEXT_NODE
          then dom_remove
                 (set_value f textNode (js_string (nodeValue f pv) @ js_string (nodeValue f textNode)))
                 pv
          else f)"

definition join_next :: "dnode list \<Rightarrow> nat \<Rightarrow> nat option \<Rightarrow> dnode list" where
  "join_next f textNode next =
     (case next of
        None \<Rightarrow> f
      | Some nx \<Rightarrow>
          if nodeType f nx = Some TEXT_NODE
          then dom_remove
                 (set_value f textNode (js_string (nodeValue f textNode) @ js_string (nodeValue f nx)))
                 nx
          else f)"

text \<open>The body of the inner loop: both siblings are read before anything is joined.\<close>

definition rejoin :: "dnode list \<Rightarrow> nat \<Rightarrow> dnode list" where
  "rejoin f textNode =
     (let prev = previousSibling f textNode;
          next = nextSibling f textNode
      in join_next (join_prev f textNode prev) textNode next)"

text \<open>The body of the outer loop, with the default \<open>onRemoveHighlight\<close>, which is always true.\<close>

definition remove_one :: "dnode list \<Rightarrow> nat \<Rightarrow> js_error + dnode list" where
  "remove_one f hl =
     (case unwrap f hl of
        Inl e \<Rightarrow> Inl e
      | Inr (f1, textNodes) \<Rightarrow> Inr (fold (\<lambda>textNode g. rejoin g textNode) textNodes f1))"

fun remove_each :: "dnode list \<Rightarrow> nat list \<Rightarrow> js_error + dnode list" where
  "remove_each f [] = Inr f"
| "remove_each f (hl # highlights) =
     (case remove_one f hl of
        Inl e \<Rightarrow> Inl e
      | Inr f1 \<Rightarrow> remove_each f1 highlights)"

definition removeHighlights :: "dnode list \<Rightarrow> nat \<Rightarrow> js_error + dnode list" where
  "removeHighlights f container =
     (case getHighlights f container of
        Inl e \<Rightarrow> Inl e
      | Inr highlights \<Rightarrow> remove_each f (sortByDepth f highlights True))"

section \<open>Joining text nodes\<close>

definition text_of :: "dnode list \<Rightarrow> string" where
  "text_of X = concat (map textContent_of X)"

definition elems :: "dnode list \<Rightarrow> dnode list" where
  "elems X = filter (\<lambda>n. \<not> is_text n) X"

definition texts :: "dnode list \<Rightarrow> dnode list" where
  "texts X = filter is_text X"

lemma text_of_simps [simp]:
  "text_of [] = []"
  "text_of (n # X) = textContent_of n @ text_of X"
  "text_of (X @ Y) = text_of X @ text_of Y"
  by (simp_all add: text_of_def)

lemma elems_simps [simp]:
  "elems [] = []"
  "elems (Text i s # X) = elems X"
  "elems (Element i e ks # X) = Element i e ks # elems X"
  "elems (X @ Y) = elems X @ elems Y"
  by (simp_all add: elems_def)

lemma texts_simps [simp]:
  "texts [] = []"
  "texts (Text i s # X) = Text i s # texts X"
  "texts (Element i e ks # X) = texts X"
  "texts (X @ Y) = texts X @ texts Y"
  by (simp_all add: texts_def)

lemma fits_mset:
  "fits f cs X R \<Longrightarrow> mset (ids X' @ ids R') = mset (ids X @ ids R) \<Longrightarrow> fits f cs X' R'"
  unfolding fits_def
  using mset_eq_setD [of "ids X' @ ids R'" "ids X @ ids R"]
    mset_eq_imp_distinct_iff [of "ids X' @ ids R'" "ids X @ ids R"]
  by simp

lemma before_split:
  "t \<notin> set a \<Longrightarrow> before t (a @ t # b) = (if a = [] then None else Some (last a))"
proof (induction a)
  case Nil
  then show ?case by (cases b) simp_all
next
  case (Cons x a)
  then show ?case by (cases a) auto
qed

lemma after_split:
  "t \<notin> set a \<Longrightarrow> after t (a @ t # b) = (case b of [] \<Rightarrow> None | n # ns \<Rightarrow> Some n)"
proof (induction a)
  case Nil
  then show ?case by (cases b) simp_all
next
  case (Cons x a)
  then show ?case by (cases a) (auto split: list.splits)
qed

lemma set_value_in_at:
  "t \<notin> nid ` set l1 \<Longrightarrow> set_value_in t v (l1 @ Text t s # l2) = l1 @ Text t v # l2"
proof (induction l1)
  case Nil
  then show ?case by simp
next
  case (Cons n l1)
  then show ?case by (cases n) auto
qed

lemma set_value_ctx:
  assumes "distinct (ids f)" "lookup f p = Some (Element p e cs)" "fits f cs X R"
    and "t \<in> nid ` set X"
  shows "set_value (ctx f p X R) t v = ctx f p (set_value_in t v X) R"
  using ctx_nav(1) [OF assms] ctx_edit_top [OF assms(1-3)]
  by (simp add: set_value_def edit_siblings_def)

lemma ctx_lookup_root:
  assumes "distinct (ids f)" "lookup f p = Some (Element p e cs)" "fits f cs X R"
    and "n \<in> set X"
  shows "lookup (ctx f p X R) (nid n) = Some n"
proof -
  from assms(3) have dX: "distinct (ids X)" by (simp add: fits_def)
  from assms(4) have "nid n \<in> set (ids X)" by (rule roots_in_ids)
  from ctx_lookup(2) [OF assms(1-3) this] lookup_root [OF dX assms(4)] show ?thesis by simp
qed

lemma roots_apart:
  assumes "distinct (ids (l1 @ n # l2))"
  shows "nid n \<notin> nid ` set l1" "nid n \<notin> nid ` set l2"
  using distinct_roots [OF assms] by auto


subsection \<open>The preceding sibling\<close>

lemma join_prev_ctx:
  assumes wf: "distinct (ids f)" and lp: "lookup f p = Some (Element p e cs)"
    and fit: "fits f cs (l1 @ Text t s # l2) R"
  shows "\<exists>l1' s' R'.
     join_prev (ctx f p (l1 @ Text t s # l2) R) t
       (previousSibling (ctx f p (l1 @ Text t s # l2) R) t) = ctx f p (l1' @ Text t s' # l2) R' \<and>
     fits f cs (l1' @ Text t s' # l2) R' \<and>
     text_of (l1' @ [Text t s']) = text_of (l1 @ [Text t s]) \<and>
     elems l1' = elems l1 \<and> elems R' = elems R \<and>
     mset (ids l1' @ ids R') = mset (ids l1 @ ids R)"
proof -
  define X where "X = l1 @ Text t s # l2"
  define g where "g = ctx f p X R"
  note fit' = fit [folded X_def]
  have dX: "distinct (ids X)" using fit' by (simp add: fits_def)
  from roots_apart [OF dX [unfolded X_def]] have t1: "t \<notin> nid ` set l1" by simp
  have tin: "t \<in> nid ` set X" by (simp add: X_def)
  have pv: "previousSibling g t = (if l1 = [] then None else Some (nid (last l1)))"
    using ctx_nav(2) [OF wf lp fit' tin] t1 before_split [of t "map nid l1" "map nid l2"]
    by (simp add: g_def X_def last_map)
  have keep: "g = ctx f p (l1 @ Text t s # l2) R \<and> fits f cs (l1 @ Text t s # l2) R \<and>
     text_of (l1 @ [Text t s]) = text_of (l1 @ [Text t s]) \<and>
     elems l1 = elems l1 \<and> elems R = elems R \<and>
     mset (ids l1 @ ids R) = mset (ids l1 @ ids R)"
    using fit by (simp add: g_def X_def)
  show ?thesis
  proof (cases "l1 = []")
    case True
    with pv have "join_prev g t (previousSibling g t) = g" by (simp add: join_prev_def)
    with keep show ?thesis unfolding g_def X_def by metis
  next
    case False
    then obtain l0 pn where l1: "l1 = l0 @ [pn]" by (metis rev_exhaust)
    with pv have pv': "previousSibling g t = Some (nid pn)" by simp
    have pnX: "pn \<in> set X" by (simp add: X_def l1)
    from ctx_lookup_root [OF wf lp fit' pnX] have lpn: "lookup g (nid pn) = Some pn"
      by (simp add: g_def)
    show ?thesis
    proof (cases pn)
      case (Element i e' ks)
      with lpn pv' have "join_prev g t (previousSibling g t) = g"
        by (simp add: join_prev_def nodeType_def TEXT_NODE_def ELEMENT_NODE_def)
      with keep show ?thesis unfolding g_def X_def by metis
    next
      case (Text pv s0)
      have tX: "Text t s \<in> set X" by (simp add: X_def)
      from ctx_lookup_root [OF wf lp fit' tX] have lt: "lookup g t = Some (Text t s)"
        by (simp add: g_def)
      define X1 where "X1 = l1 @ Text t (s0 @ s) # l2"
      define X2 where "X2 = l0 @ Text t (s0 @ s) # l2"
      have sv: "set_value g t (s0 @ s) = ctx f p X1 R"
        using set_value_ctx [OF wf lp fit' tin] set_value_in_at [OF t1]
        by (simp add: g_def X_def X1_def)
      have "ids X1 = ids X" by (simp add: X1_def X_def)
      with fit' have fit1: "fits f cs X1 R" by (simp add: fits_def)
      have pn1: "pn \<in> set X1" by (simp add: X1_def l1)
      have dX1: "distinct (ids X1)" using fit1 by (simp add: fits_def)
      from roots_apart [of l0 pn "Text t (s0 @ s) # l2"] dX1
      have ap: "nid pn \<notin> nid ` set l0" "nid pn \<notin> nid ` set (Text t (s0 @ s) # l2)"
        by (simp_all add: X1_def l1)
      have "without (nid pn) X1 = X2"
        using without_at [OF ap, of pn] by (simp add: X1_def X2_def l1)
      with ctx_detach [OF wf lp fit1 pn1]
      have dt: "detach (ctx f p X1 R) (nid pn) = ctx f p X2 (R @ [pn])" by simp
      have m: "mset (ids X2 @ ids (R @ [pn])) = mset (ids X1 @ ids R)"
        by (simp add: X1_def X2_def l1 Text)
      from fits_mset [OF fit1 m] have fit2: "fits f cs X2 (R @ [pn])" .
      have jp: "join_prev g t (previousSibling g t) = ctx f p X2 (R @ [pn])"
        using pv' lpn lt Text sv dt
        by (simp add: join_prev_def nodeType_def nodeValue_def js_string_def dom_remove_def)
      have "join_prev g t (previousSibling g t) = ctx f p (l0 @ Text t (s0 @ s) # l2) (R @ [pn]) \<and>
        fits f cs (l0 @ Text t (s0 @ s) # l2) (R @ [pn]) \<and>
        text_of (l0 @ [Text t (s0 @ s)]) = text_of (l1 @ [Text t s]) \<and>
        elems l0 = elems l1 \<and> elems (R @ [pn]) = elems R \<and>
        mset (ids l0 @ ids (R @ [pn])) = mset (ids l1 @ ids R)"
        using jp fit2 by (simp add: X2_def l1 Text)
      then show ?thesis unfolding g_def X_def by metis
    qed
  qed
qed


subsection \<open>The following sibling\<close>

lemma join_next_ctx:
  assumes wf: "distinct (ids f)" and lp: "lookup f p = Some (Element p e cs)"
    and fit: "fits f cs (l1 @ Text t s # l2) R"
  shows "\<exists>l2' s' R'.
     join_next (ctx f p (l1 @ Text t s # l2) R) t
       (case l2 of [] \<Rightarrow> None | n # ns \<Rightarrow> Some (nid n)) = ctx f p (l1 @ Text t s' # l2') R' \<and>
     fits f cs (l1 @ Text t s' # l2') R' \<and>
     text_of (Text t s' # l2') = text_of (Text t s # l2) \<and>
     elems l2' = elems l2 \<and> elems R' = elems R \<and>
     mset (ids l2' @ ids R') = mset (ids l2 @ ids R)"
proof -
  define X where "X = l1 @ Text t s # l2"
  define g where "g = ctx f p X R"
  note fit' = fit [folded X_def]
  have dX: "distinct (ids X)" using fit' by (simp add: fits_def)
  from roots_apart [OF dX [unfolded X_def]] have t1: "t \<notin> nid ` set l1" by simp
  have tin: "t \<in> nid ` set X" by (simp add: X_def)
  have keep: "g = ctx f p (l1 @ Text t s # l2) R \<and> fits f cs (l1 @ Text t s # l2) R \<and>
     text_of (Text t s # l2) = text_of (Text t s # l2) \<and>
     elems l2 = elems l2 \<and> elems R = elems R \<and>
     mset (ids l2 @ ids R) = mset (ids l2 @ ids R)"
    using fit by (simp add: g_def X_def)
  show ?thesis
  proof (cases l2)
    case Nil
    then have "join_next g t (case l2 of [] \<Rightarrow> None | n # ns \<Rightarrow> Some (nid n)) = g"
      by (simp add: join_next_def)
    with keep show ?thesis unfolding g_def X_def by metis
  next
    case (Cons nn l0)
    have nnX: "nn \<in> set X" by (simp add: X_def Cons)
    from ctx_lookup_root [OF wf lp fit' nnX] have lnn: "lookup g (nid nn) = Some nn"
      by (simp add: g_def)
    show ?thesis
    proof (cases nn)
      case (Element i e' ks)
      with lnn Cons have "join_next g t (case l2 of [] \<Rightarrow> None | n # ns \<Rightarrow> Some (nid n)) = g"
        by (simp add: join_next_def nodeType_def TEXT_NODE_def ELEMENT_NODE_def)
      with keep show ?thesis unfolding g_def X_def by metis
    next
      case (Text nx s0)
      have tX: "Text t s \<in> set X" by (simp add: X_def)
      from ctx_lookup_root [OF wf lp fit' tX] have lt: "lookup g t = Some (Text t s)"
        by (simp add: g_def)
      define X1 where "X1 = l1 @ Text t (s @ s0) # l2"
      define X2 where "X2 = l1 @ Text t (s @ s0) # l0"
      have sv: "set_value g t (s @ s0) = ctx f p X1 R"
        using set_value_ctx [OF wf lp fit' tin] set_value_in_at [OF t1]
        by (simp add: g_def X_def X1_def)
      have "ids X1 = ids X" by (simp add: X1_def X_def)
      with fit' have fit1: "fits f cs X1 R" by (simp add: fits_def)
      have nn1: "nn \<in> set X1" by (simp add: X1_def Cons)
      have dX1: "distinct (ids X1)" using fit1 by (simp add: fits_def)
      from roots_apart [of "l1 @ [Text t (s @ s0)]" nn l0] dX1
      have ap: "nid nn \<notin> nid ` set (l1 @ [Text t (s @ s0)])" "nid nn \<notin> nid ` set l0"
        by (simp_all add: X1_def Cons)
      have "without (nid nn) X1 = X2"
        using without_at [OF ap, of nn] by (simp add: X1_def X2_def Cons)
      with ctx_detach [OF wf lp fit1 nn1]
      have dt: "detach (ctx f p X1 R) (nid nn) = ctx f p X2 (R @ [nn])" by simp
      have m: "mset (ids X2 @ ids (R @ [nn])) = mset (ids X1 @ ids R)"
        by (simp add: X1_def X2_def Cons Text)
      from fits_mset [OF fit1 m] have fit2: "fits f cs X2 (R @ [nn])" .
      have jn: "join_next g t (case l2 of [] \<Rightarrow> None | n # ns \<Rightarrow> Some (nid n)) =
          ctx f p X2 (R @ [nn])"
        using Cons lnn lt Text sv dt
        by (simp add: join_next_def nodeType_def nodeValue_def js_string_def dom_remove_def)
      have "join_next g t (case l2 of [] \<Rightarrow> None | n # ns \<Rightarrow> Some (nid n)) =
          ctx f p (l1 @ Text t (s @ s0) # l0) (R @ [nn]) \<and>
        fits f cs (l1 @ Text t (s @ s0) # l0) (R @ [nn]) \<and>
        text_of (Text t (s @ s0) # l0) = text_of (Text t s # l2) \<and>
        elems l0 = elems l2 \<and> elems (R @ [nn]) = elems R \<and>
        mset (ids l0 @ ids (R @ [nn])) = mset (ids l2 @ ids R)"
        using jn fit2 by (simp add: X2_def Cons Text)
      then show ?thesis unfolding g_def X_def by metis
    qed
  qed
qed

subsection \<open>The body of the inner loop\<close>

text \<open>
  The text nodes that were children of the marker are, at every moment, children of the
  parent or detached roots: a detached root has no siblings, and nothing happens.
\<close>

lemma rejoin_ctx:
  assumes wf: "distinct (ids f)" and lp: "lookup f p = Some (Element p e cs)"
    and fit: "fits f cs X R"
    and t: "t \<in> nid ` set (texts X) \<union> nid ` set (texts R)"
  shows "\<exists>X' R'. rejoin (ctx f p X R) t = ctx f p X' R' \<and> fits f cs X' R' \<and>
     text_of X' = text_of X \<and> elems X' = elems X \<and> elems R' = elems R \<and>
     mset (ids X' @ ids R') = mset (ids X @ ids R)"
proof (cases "t \<in> nid ` set (texts X)")
  case True
  then obtain n where n: "n \<in> set X" "is_text n" "nid n = t" by (auto simp: texts_def)
  have "\<exists>s. n = Text t s" using n(2,3) by (cases n) auto
  then obtain s where ns: "n = Text t s" ..
  from n(1) have "\<exists>l1 l2. X = l1 @ n # l2" by (rule split_list)
  then obtain l1 l2 where X: "X = l1 @ Text t s # l2" unfolding ns by (elim exE)
  define g where "g = ctx f p X R"
  have dX: "distinct (ids X)" using fit by (simp add: fits_def)
  from roots_apart [OF dX [unfolded X]] have t1: "t \<notin> nid ` set l1" by simp
  have tin: "t \<in> nid ` set X" by (simp add: X)
  have nx: "nextSibling g t = (case l2 of [] \<Rightarrow> None | n # ns \<Rightarrow> Some (nid n))"
    using ctx_nav(3) [OF wf lp fit tin] t1 after_split [of t "map nid l1" "map nid l2"]
    by (simp add: g_def X split: list.splits)
  from join_prev_ctx [OF wf lp fit [unfolded X]] obtain l1' s' R'
    where jp: "join_prev g t (previousSibling g t) = ctx f p (l1' @ Text t s' # l2) R' \<and>
     fits f cs (l1' @ Text t s' # l2) R' \<and>
     text_of (l1' @ [Text t s']) = text_of (l1 @ [Text t s]) \<and>
     elems l1' = elems l1 \<and> elems R' = elems R \<and>
     mset (ids l1' @ ids R') = mset (ids l1 @ ids R)"
    unfolding g_def X by (elim exE)
  then have jp1: "join_prev g t (previousSibling g t) = ctx f p (l1' @ Text t s' # l2) R'"
    and fit1: "fits f cs (l1' @ Text t s' # l2) R'"
    and tx1: "text_of (l1' @ [Text t s']) = text_of (l1 @ [Text t s])"
    and el1: "elems l1' = elems l1" "elems R' = elems R"
    and ms1: "mset (ids l1' @ ids R') = mset (ids l1 @ ids R)" by simp_all
  from join_next_ctx [OF wf lp fit1] obtain l2' s'' R''
    where jn: "join_next (ctx f p (l1' @ Text t s' # l2) R') t
       (case l2 of [] \<Rightarrow> None | n # ns \<Rightarrow> Some (nid n)) = ctx f p (l1' @ Text t s'' # l2') R'' \<and>
     fits f cs (l1' @ Text t s'' # l2') R'' \<and>
     text_of (Text t s'' # l2') = text_of (Text t s' # l2) \<and>
     elems l2' = elems l2 \<and> elems R'' = elems R' \<and>
     mset (ids l2' @ ids R'') = mset (ids l2 @ ids R')"
    by (elim exE)
  then have jn1: "join_next (ctx f p (l1' @ Text t s' # l2) R') t
       (case l2 of [] \<Rightarrow> None | n # ns \<Rightarrow> Some (nid n)) = ctx f p (l1' @ Text t s'' # l2') R''"
    and fit2: "fits f cs (l1' @ Text t s'' # l2') R''"
    and tx2: "text_of (Text t s'' # l2') = text_of (Text t s' # l2)"
    and el2: "elems l2' = elems l2" "elems R'' = elems R'"
    and ms2: "mset (ids l2' @ ids R'') = mset (ids l2 @ ids R')" by simp_all
  have r: "rejoin g t = ctx f p (l1' @ Text t s'' # l2') R''"
    using jp1 jn1 nx by (simp add: rejoin_def)
  have tx: "text_of (l1' @ Text t s'' # l2') = text_of X"
    using tx1 tx2 by (simp add: X)
  have ms: "mset (ids (l1' @ Text t s'' # l2') @ ids R'') = mset (ids X @ ids R)"
  proof -
    have "mset (ids (l1' @ Text t s'' # l2') @ ids R'') =
      mset (ids l1') + {#t#} + (mset (ids l2' @ ids R''))" by simp
    also have "\<dots> = mset (ids l1') + {#t#} + mset (ids l2) + mset (ids R')"
      using ms2 by simp
    also have "\<dots> = mset (ids l1' @ ids R') + {#t#} + mset (ids l2)" by simp
    also have "\<dots> = mset (ids l1 @ ids R) + {#t#} + mset (ids l2)" using ms1 by simp
    also have "\<dots> = mset (ids X @ ids R)" by (simp add: X)
    finally show ?thesis .
  qed
  have "rejoin (ctx f p X R) t = ctx f p (l1' @ Text t s'' # l2') R'' \<and>
     fits f cs (l1' @ Text t s'' # l2') R'' \<and>
     text_of (l1' @ Text t s'' # l2') = text_of X \<and>
     elems (l1' @ Text t s'' # l2') = elems X \<and> elems R'' = elems R \<and>
     mset (ids (l1' @ Text t s'' # l2') @ ids R'') = mset (ids X @ ids R)"
    using r fit2 tx ms el1 el2 unfolding g_def by (simp add: X)
  then show ?thesis by blast
next
  case False
  with t obtain n where n: "n \<in> set R" "is_text n" "nid n = t" by (auto simp: texts_def)
  from ctx_root [OF wf lp fit n(1)] n(3) have "parentNode (ctx f p X R) t = None" by simp
  from no_parent_no_siblings [OF this]
  have "rejoin (ctx f p X R) t = ctx f p X R"
    by (simp add: rejoin_def join_prev_def join_next_def)
  with fit show ?thesis by blast
qed

subsection \<open>The inner loop\<close>

lemma mset_ids_split: "mset (ids X) = mset (map nid (texts X)) + mset (ids (elems X))"
proof (induction X)
  case Nil
  then show ?case by simp
next
  case (Cons n X)
  then show ?case by (cases n) simp_all
qed

lemma text_ids_kept:
  assumes "elems X' = elems X" "elems R' = elems R"
    and "mset (ids X' @ ids R') = mset (ids X @ ids R)"
  shows "nid ` set (texts X') \<union> nid ` set (texts R') = nid ` set (texts X) \<union> nid ` set (texts R)"
proof -
  from assms(3) have "mset (ids X') + mset (ids R') = mset (ids X) + mset (ids R)" by simp
  then have "mset (map nid (texts X')) + mset (map nid (texts R')) =
    mset (map nid (texts X)) + mset (map nid (texts R))"
    unfolding mset_ids_split [of X'] mset_ids_split [of R'] mset_ids_split [of X]
      mset_ids_split [of R] assms(1,2)
    by (simp add: ac_simps)
  then have "mset (map nid (texts X') @ map nid (texts R')) =
    mset (map nid (texts X) @ map nid (texts R))" by simp
  from mset_eq_setD [OF this] show ?thesis by simp
qed

lemma fold_rejoin_ctx:
  assumes wf: "distinct (ids f)" and lp: "lookup f p = Some (Element p e cs)"
  shows "fits f cs X R \<Longrightarrow> set ts \<subseteq> nid ` set (texts X) \<union> nid ` set (texts R) \<Longrightarrow>
     \<exists>X' R'. fold (\<lambda>t g. rejoin g t) ts (ctx f p X R) = ctx f p X' R' \<and> fits f cs X' R' \<and>
       text_of X' = text_of X \<and> elems X' = elems X \<and> elems R' = elems R \<and>
       mset (ids X' @ ids R') = mset (ids X @ ids R)"
proof (induction ts arbitrary: X R)
  case Nil
  then show ?case by auto
next
  case (Cons t ts)
  from Cons.prems(2) have t: "t \<in> nid ` set (texts X) \<union> nid ` set (texts R)" by simp
  from rejoin_ctx [OF wf lp Cons.prems(1) t] obtain X1 R1
    where s: "rejoin (ctx f p X R) t = ctx f p X1 R1 \<and> fits f cs X1 R1 \<and>
     text_of X1 = text_of X \<and> elems X1 = elems X \<and> elems R1 = elems R \<and>
     mset (ids X1 @ ids R1) = mset (ids X @ ids R)"
    by (elim exE)
  then have s1: "rejoin (ctx f p X R) t = ctx f p X1 R1" and fit1: "fits f cs X1 R1"
    and k1: "text_of X1 = text_of X" "elems X1 = elems X" "elems R1 = elems R"
    and m1: "mset (ids X1 @ ids R1) = mset (ids X @ ids R)" by simp_all
  from text_ids_kept [OF k1(2,3) m1] Cons.prems(2)
  have "set ts \<subseteq> nid ` set (texts X1) \<union> nid ` set (texts R1)" by simp
  from Cons.IH [OF fit1 this] obtain X2 R2
    where s2: "fold (\<lambda>t g. rejoin g t) ts (ctx f p X1 R1) = ctx f p X2 R2 \<and> fits f cs X2 R2 \<and>
       text_of X2 = text_of X1 \<and> elems X2 = elems X1 \<and> elems R2 = elems R1 \<and>
       mset (ids X2 @ ids R2) = mset (ids X1 @ ids R1)"
    by (elim exE)
  have "fold (\<lambda>t g. rejoin g t) (t # ts) (ctx f p X R) = ctx f p X2 R2 \<and> fits f cs X2 R2 \<and>
       text_of X2 = text_of X \<and> elems X2 = elems X \<and> elems R2 = elems R \<and>
       mset (ids X2 @ ids R2) = mset (ids X @ ids R)"
    using s1 s2 k1 m1 by simp
  then show ?case by blast
qed

subsection \<open>Unwrapping a marker\<close>

lemma splice_at:
  "h \<notin> nid ` set pre \<Longrightarrow> nid n = h \<Longrightarrow> splice h ks (pre @ n # post) = pre @ ks @ post"
  by (induction pre) auto

lemma texts_all: "\<forall>k\<in>set ks. is_text k \<Longrightarrow> texts ks = ks \<and> elems ks = []"
  by (induction ks) (auto simp: texts_def elems_def)

lemma unwrap_ctx:
  assumes wf: "distinct (ids f)"
    and lp: "lookup f p = Some (Element p e (pre @ Element h eh ks # post))"
  shows "unwrap f h = Inr (ctx f p (pre @ ks @ post) [Element h eh []], map nid ks)"
    and "fits f (pre @ Element h eh ks # post) (pre @ ks @ post) [Element h eh []]"
proof -
  define cs where "cs = pre @ Element h eh ks # post"
  note lp' = lp [folded cs_def]
  have dcs: "distinct (ids cs)" by (rule distinct_kids [OF wf lp'])
  have f0: "ctx f p cs [] = f" by (rule ctx_initial [OF wf lp'])
  have fit0: "fits f cs cs []" by (rule fits_initial [OF wf lp'])
  have "h \<in> nid ` set cs" by (simp add: cs_def)
  from ctx_nav(1) [OF wf lp' fit0 this] f0 have ph: "parentNode f h = Some p" by simp
  have lh: "lookup f h = Some (Element h eh ks)"
    using lookup_kid [OF wf lp', of "Element h eh ks"] by (simp add: cs_def)
  from roots_apart [OF dcs [unfolded cs_def]] have "h \<notin> nid ` set pre" by simp
  then have sp: "splice h ks cs = pre @ ks @ post" by (simp add: cs_def splice_at)
  from ctx_edit_top [OF wf lp' fit0, of "splice h ks"] f0 sp
  have "edit_kids p (splice h ks) f = ctx f p (pre @ ks @ post) []" by simp
  then show "unwrap f h = Inr (ctx f p (pre @ ks @ post) [Element h eh []], map nid ks)"
    using ph lh by (simp add: unwrap_def ctx_def)
  show "fits f (pre @ Element h eh ks # post) (pre @ ks @ post) [Element h eh []]"
    using fit0 unfolding fits_def cs_def by auto
qed

text \<open>A marker with text nodes for children is removed.\<close>

lemma remove_one_ctx:
  assumes wf: "distinct (ids f)"
    and lp: "lookup f p = Some (Element p e (pre @ Element h eh ks # post))"
    and tx: "\<forall>k\<in>set ks. is_text k"
  shows "\<exists>X R. remove_one f h = Inr (ctx f p X R) \<and>
     fits f (pre @ Element h eh ks # post) X R \<and>
     text_of X = text_of (pre @ Element h eh ks # post) \<and>
     elems X = elems (pre @ post) \<and> elems R = [Element h eh []] \<and>
     mset (ids X @ ids R) = mset (ids (pre @ Element h eh ks # post))"
proof -
  define cs where "cs = pre @ Element h eh ks # post"
  note lp' = lp [folded cs_def]
  note u = unwrap_ctx [OF wf lp, folded cs_def]
  from texts_all [OF tx] have tk: "texts ks = ks" "elems ks = []" by simp_all
  then have "set (map nid ks) \<subseteq>
    nid ` set (texts (pre @ ks @ post)) \<union> nid ` set (texts [Element h eh []])" by auto
  from fold_rejoin_ctx [OF wf lp' u(2) this] obtain X R
    where s: "fold (\<lambda>t g. rejoin g t) (map nid ks) (ctx f p (pre @ ks @ post) [Element h eh []]) =
        ctx f p X R \<and> fits f cs X R \<and>
       text_of X = text_of (pre @ ks @ post) \<and> elems X = elems (pre @ ks @ post) \<and>
       elems R = elems [Element h eh []] \<and>
       mset (ids X @ ids R) = mset (ids (pre @ ks @ post) @ ids [Element h eh []])"
    by (elim exE)
  have "remove_one f h = Inr (ctx f p X R) \<and> fits f cs X R \<and>
     text_of X = text_of cs \<and> elems X = elems (pre @ post) \<and> elems R = [Element h eh []] \<and>
     mset (ids X @ ids R) = mset (ids cs)"
    using s u(1) tk by (simp add: remove_one_def cs_def text_of_def)
  then show ?thesis unfolding cs_def by blast
qed

subsection \<open>The elements that stay\<close>

lemma text_of_edit_kids:
  assumes "text_of X = text_of cs"
  shows "\<forall>n\<in>set (nodes F). nid n = p \<longrightarrow> kids n = cs \<Longrightarrow>
     text_of (edit_kids p (\<lambda>c. X) F) = text_of F"
proof (induction F rule: forest_induct)
  case Nil
  then show ?case by simp
next
  case (Text i s f)
  then show ?case by simp
next
  case (Element i e ks f)
  then show ?case using assms by (auto simp: text_of_def)
qed

lemma elems_edit_kids: "map nid (elems (edit_kids p g F)) = map nid (elems F)"
  by (induction p g F rule: edit_kids.induct) auto

lemma elems_subset: "set (elems X) \<subseteq> set X"
  by (auto simp: elems_def)

lemma in_elems: "n \<in> set X \<Longrightarrow> \<not> is_text n \<Longrightarrow> n \<in> set (elems X)"
  by (simp add: elems_def)

lemma nodes_texts: "\<forall>k\<in>set ks. is_text k \<Longrightarrow> nodes ks = ks"
proof (induction ks)
  case Nil
  then show ?case by simp
next
  case (Cons k ks)
  then show ?case by (cases k) simp_all
qed

lemma nodes_root: "n \<in> set (nodes F) \<Longrightarrow> \<exists>c\<in>set F. n \<in> set (nodes [c])"
  by (auto simp: nodes_def)

lemma nodes_of_root: "c \<in> set F \<Longrightarrow> set (nodes [c]) \<subseteq> set (nodes F)"
  by (auto simp: nodes_def)

text \<open>
  The tree \<open>g\<close> after a marker \<open>h\<close> with text nodes for children has been removed from
  the children of \<open>p\<close>: every other element is where it was, with its text and with
  the elements among its children.
\<close>

lemma element_frame:
  assumes wf: "distinct (ids g)"
    and lp: "lookup g p = Some (Element p e (pre @ Element h eh ks # post))"
    and tk: "\<forall>k\<in>set ks. is_text k"
    and fit: "fits g (pre @ Element h eh ks # post) X R"
    and tx: "text_of X = text_of (pre @ Element h eh ks # post)"
    and ex: "elems X = elems (pre @ post)"
    and er: "Element h eh [] \<in> set R"
    and lm: "lookup g m = Some (Element m em km)"
    and mh: "m \<noteq> h"
  shows "\<exists>km'. lookup (ctx g p X R) m = Some (Element m em km') \<and> text_of km' = text_of km \<and>
     nid ` set (elems km') = nid ` set (elems km) - {h}"
proof -
  define cs where "cs = pre @ Element h eh ks # post"
  define g' where "g' = ctx g p X R"
  note lp' = lp [folded cs_def] and fit' = fit [folded cs_def] and tx' = tx [folded cs_def]
  have wf': "distinct (ids g')" unfolding g'_def by (rule ctx_distinct [OF wf lp' fit'])
  have dcs: "distinct (ids cs)" by (rule distinct_kids [OF wf lp'])
  have dX: "distinct (ids X)" using fit' by (simp add: fits_def)
  have hroot: "Element h eh [] \<in> set g'" using er by (simp add: g'_def ctx_def)
  have Mn: "Element m em km \<in> set (nodes g)" by (rule lookup_in_nodes [OF lm])
  \<comment> \<open>the removed marker is a child of nothing\<close>
  have nokid: "h \<notin> nid ` set km'" if "lookup g' m = Some (Element m em km')" for km'
  proof
    assume "h \<in> nid ` set km'"
    then obtain k where k: "k \<in> set km'" "nid k = h" by auto
    from lookup_in_nodes [OF that] have "Element m em km' \<in> set (nodes g')" .
    from kid_not_root [OF wf' this, of k] k(1) have "nid k \<notin> nid ` set g'" by simp
    moreover from hroot have "nid (Element h eh []) \<in> nid ` set g'" by (rule imageI)
    ultimately show False using k(2) by simp
  qed
  have fin: ?thesis if l: "lookup g' m = Some (Element m em km')"
    and t: "text_of km' = text_of km" and i: "nid ` set (elems km') = nid ` set (elems km)"
  for km'
  proof -
    from nokid [OF l] have "h \<notin> nid ` set (elems km')" using elems_subset [of km'] by auto
    with i have "nid ` set (elems km') = nid ` set (elems km) - {h}" by auto
    with l t show ?thesis unfolding g'_def by blast
  qed
  show ?thesis
  proof (cases "m = p")
    case True
    with lm lp' have km: "km = cs" "em = e" by simp_all
    from ctx_lookup(1) [OF wf lp' fit'] True km
    have l: "lookup g' m = Some (Element m em X)" by (simp add: g'_def)
    from roots_apart [OF dcs [unfolded cs_def]]
    have "h \<notin> nid ` set pre" "h \<notin> nid ` set post" by simp_all
    then have "h \<notin> nid ` set (elems (pre @ post))" using elems_subset [of "pre @ post"] by auto
    then have "nid ` set (elems X) = nid ` set (elems cs) - {h}"
      unfolding ex cs_def by auto
    with l tx' km show ?thesis unfolding g'_def by blast
  next
    case mp: False
    show ?thesis
    proof (cases "m \<in> set (ids cs)")
      case True
      from lookup_in_kids [OF wf lp' True] lm have "lookup cs m = Some (Element m em km)" by simp
      from nodes_root [OF lookup_in_nodes [OF this]] obtain c
        where c: "c \<in> set cs" "Element m em km \<in> set (nodes [c])" by auto
      have "c \<noteq> Element h eh ks"
      proof
        assume "c = Element h eh ks"
        with c(2) mh have "Element m em km \<in> set (nodes ks)" by simp
        with nodes_texts [OF tk] tk show False by auto
      qed
      moreover have "\<not> is_text c" using c(2) by (cases c) auto
      ultimately have "c \<in> set (elems (pre @ post))" using c(1) by (auto simp: cs_def elems_def)
      with ex elems_subset [of X] have cX: "c \<in> set X" by auto
      from nodes_of_root [OF cX] c(2) have MX: "Element m em km \<in> set (nodes X)" by auto
      from lookup_unique [OF dX MX] have "lookup X m = Some (Element m em km)" by simp
      moreover from in_nodes_ids [OF MX] have "m \<in> set (ids X)" by simp
      from ctx_lookup(2) [OF wf lp' fit' this] have "lookup g' m = lookup X m" by (simp add: g'_def)
      ultimately have "lookup g' m = Some (Element m em km)" by simp
      from fin [OF this] show ?thesis by simp
    next
      case False
      from lookup_Some_in_ids [OF lm] False have out: "m \<in> set (ids g) - set (ids cs)" by simp
      with fit' have mX: "m \<notin> set (ids X)" and mR: "m \<notin> set (ids R)" by (auto simp: fits_def)
      from fit' have dj: "set (ids ((\<lambda>c. X) cs)) \<inter> (set (ids g) - set (ids cs)) = {}"
        by (auto simp: fits_def)
      from lookup_edit_kids [of g p e cs "\<lambda>c. X" m, OF wf lp' dj] mp mX False lm
      have "lookup (edit_kids p (\<lambda>c. X) g) m = Some (Element m em (edit_kids p (\<lambda>c. X) km))"
        by simp
      then have l: "lookup g' m = Some (Element m em (edit_kids p (\<lambda>c. X) km))"
        by (simp add: g'_def ctx_def lookup_append)
      have "\<forall>n\<in>set (nodes km). nid n = p \<longrightarrow> kids n = cs"
      proof (intro ballI impI)
        fix n assume n: "n \<in> set (nodes km)" "nid n = p"
        from nodes_kids_subset [OF Mn] n(1) have "n \<in> set (nodes g)" by auto
        from lookup_unique [OF wf this] n(2) lp' show "kids n = cs" by auto
      qed
      from text_of_edit_kids [OF tx' this]
      have t: "text_of (edit_kids p (\<lambda>c. X) km) = text_of km" .
      have "nid ` set (elems (edit_kids p (\<lambda>c. X) km)) = nid ` set (elems km)"
        using elems_edit_kids [of p "\<lambda>c. X" km] by (metis set_map)
      from fin [OF l t this] show ?thesis .
    qed
  qed
qed

subsection \<open>The outer loop\<close>

text \<open>
  What the loop keeps true of the markers still to be removed: each is an element in
  the tree, below a parent, and the elements among its children are markers still to be
  removed; a marker comes in the list before the marker it is a child of.
\<close>

definition markers_ok :: "dnode list \<Rightarrow> nat list \<Rightarrow> bool" where
  "markers_ok g L \<longleftrightarrow>
     (\<forall>m\<in>set L. \<exists>em km. lookup g m = Some (Element m em km) \<and> parentNode g m \<noteq> None \<and>
        nid ` set (elems km) \<subseteq> set L)"

fun inner_first :: "dnode list \<Rightarrow> nat list \<Rightarrow> bool" where
  "inner_first g [] = True"
| "inner_first g (h # t) = ((\<forall>m\<in>set t. parentNode g m \<noteq> Some h) \<and> inner_first g t)"

lemma inner_first_cong:
  "\<forall>m\<in>set L. parentNode g' m = parentNode g m \<Longrightarrow> inner_first g L \<Longrightarrow> inner_first g' L"
  by (induction L) auto

lemma not_own_kid:
  assumes "distinct (ids g)" "lookup g h = Some (Element h eh ks)"
  shows "h \<notin> nid ` set ks"
proof
  assume "h \<in> nid ` set ks"
  then obtain k where k: "k \<in> set ks" "nid k = h" by auto
  from lookup_kid [OF assms k(1)] k(2) assms(2) have "k = Element h eh ks" by simp
  with k(1) kid_size [of k "Element h eh ks"] show False by simp
qed

lemma parent_of_kid:
  assumes "distinct (ids g)" "lookup g h = Some (Element h eh ks)" "k \<in> set ks"
  shows "parentNode g (nid k) = Some h"
proof -
  from lookup_in_nodes [OF assms(2)] have "Element h eh ks \<in> set (nodes g)" .
  from parent_of_unique [OF assms(1) this, of "nid k"] assms(3) show ?thesis
    by (simp add: parentNode_def)
qed

lemma remove_one_step:
  assumes wf: "distinct (ids g)"
    and ok: "markers_ok g (h # t)"
    and io: "inner_first g (h # t)"
    and dl: "distinct (h # t)"
  shows "\<exists>g'. remove_one g h = Inr g' \<and> distinct (ids g') \<and> markers_ok g' t \<and>
     inner_first g' t \<and>
     (\<forall>c ec kc. lookup g c = Some (Element c ec kc) \<and> c \<noteq> h \<longrightarrow>
        (\<exists>kc'. lookup g' c = Some (Element c ec kc') \<and> text_of kc' = text_of kc))"
proof -
  from ok obtain eh ks where lh: "lookup g h = Some (Element h eh ks)"
    and ph: "parentNode g h \<noteq> None" and eh: "nid ` set (elems ks) \<subseteq> set (h # t)"
    by (auto simp: markers_ok_def)
  from ph obtain p where pp: "parentNode g h = Some p" by auto
  from kid_of_parent [OF wf lh pp] obtain e cs
    where lp0: "lookup g p = Some (Element p e cs)" and hin: "Element h eh ks \<in> set cs" by auto
  from split_list [OF hin] obtain pre post where cs: "cs = pre @ Element h eh ks # post" by auto
  note lp = lp0 [unfolded cs]
  \<comment> \<open>the markers that were children of \<open>h\<close> are gone\<close>
  have tk: "\<forall>k\<in>set ks. is_text k"
  proof (rule ccontr)
    assume "\<not> (\<forall>k\<in>set ks. is_text k)"
    then obtain k where k: "k \<in> set ks" "\<not> is_text k" by auto
    from in_elems [OF k] eh have "nid k \<in> set (h # t)" by auto
    moreover from not_own_kid [OF wf lh] k(1) have "nid k \<noteq> h" by auto
    ultimately have "nid k \<in> set t" by simp
    with io parent_of_kid [OF wf lh k(1)] show False by auto
  qed
  from remove_one_ctx [OF wf lp tk] obtain X R
    where r: "remove_one g h = Inr (ctx g p X R) \<and>
     fits g (pre @ Element h eh ks # post) X R \<and>
     text_of X = text_of (pre @ Element h eh ks # post) \<and>
     elems X = elems (pre @ post) \<and> elems R = [Element h eh []] \<and>
     mset (ids X @ ids R) = mset (ids (pre @ Element h eh ks # post))"
    by (elim exE)
  define g' where "g' = ctx g p X R"
  from r have r1: "remove_one g h = Inr g'"
    and fit: "fits g (pre @ Element h eh ks # post) X R"
    and tx: "text_of X = text_of (pre @ Element h eh ks # post)"
    and ex: "elems X = elems (pre @ post)" and eR: "elems R = [Element h eh []]"
    by (simp_all add: g'_def)
  from eR elems_subset [of R] have er: "Element h eh [] \<in> set R" by auto
  have wf': "distinct (ids g')" unfolding g'_def by (rule ctx_distinct [OF wf lp fit])
  note frame = element_frame [OF wf lp tk fit tx ex er, folded g'_def]
  have par: "parentNode g' m = parentNode g m" if m: "m \<in> set t" for m
  proof -
    from ok m obtain em km where lm: "lookup g m = Some (Element m em km)"
      and pm: "parentNode g m \<noteq> None" by (auto simp: markers_ok_def)
    from pm obtain q where pq: "parentNode g m = Some q" by auto
    from kid_of_parent [OF wf lm pq] obtain eq kq
      where lq: "lookup g q = Some (Element q eq kq)" and Min: "Element m em km \<in> set kq" by auto
    have qh: "q \<noteq> h"
    proof
      assume "q = h"
      with lq lh Min have "Element m em km \<in> set ks" by simp
      with tk show False by auto
    qed
    from frame [OF lq qh] obtain kq' where lq': "lookup g' q = Some (Element q eq kq')"
      and el: "nid ` set (elems kq') = nid ` set (elems kq) - {h}" by auto
    from Min have "Element m em km \<in> set (elems kq)" by (simp add: elems_def)
    then have "nid (Element m em km) \<in> nid ` set (elems kq)" by (rule imageI)
    moreover from m dl have "m \<noteq> h" by auto
    ultimately have "m \<in> nid ` set (elems kq')" using el by simp
    with elems_subset [of kq'] have "m \<in> nid ` set kq'" by auto
    with lq' have "m \<in> set (childNodes g' q)" by (simp add: childNodes_def)
    with parentNode_iff [OF wf'] pq show ?thesis by simp
  qed
  have ok': "markers_ok g' t"
    unfolding markers_ok_def
  proof
    fix m assume m: "m \<in> set t"
    from ok m obtain em km where lm: "lookup g m = Some (Element m em km)"
      and pm: "parentNode g m \<noteq> None" and em: "nid ` set (elems km) \<subseteq> set (h # t)"
      by (auto simp: markers_ok_def)
    from m dl have mh: "m \<noteq> h" by auto
    from frame [OF lm mh] obtain km' where lm': "lookup g' m = Some (Element m em km')"
      and el: "nid ` set (elems km') = nid ` set (elems km) - {h}" by auto
    from el em have "nid ` set (elems km') \<subseteq> set t" by auto
    with lm' par [OF m] pm
    show "\<exists>em km. lookup g' m = Some (Element m em km) \<and> parentNode g' m \<noteq> None \<and>
        nid ` set (elems km) \<subseteq> set t" by simp
  qed
  from io have "inner_first g t" by simp
  with inner_first_cong [of t g' g] par have io': "inner_first g' t" by simp
  have tc: "\<forall>c ec kc. lookup g c = Some (Element c ec kc) \<and> c \<noteq> h \<longrightarrow>
        (\<exists>kc'. lookup g' c = Some (Element c ec kc') \<and> text_of kc' = text_of kc)"
  proof (intro allI impI)
    fix c ec kc assume "lookup g c = Some (Element c ec kc) \<and> c \<noteq> h"
    then have "lookup g c = Some (Element c ec kc)" "c \<noteq> h" by simp_all
    from frame [OF this]
    show "\<exists>kc'. lookup g' c = Some (Element c ec kc') \<and> text_of kc' = text_of kc" by blast
  qed
  from r1 wf' ok' io' tc show ?thesis by blast
qed

lemma remove_each_ok:
  "distinct (ids g) \<Longrightarrow> markers_ok g L \<Longrightarrow> inner_first g L \<Longrightarrow> distinct L \<Longrightarrow>
   lookup g c = Some (Element c ec kc) \<Longrightarrow> c \<notin> set L \<Longrightarrow>
   \<exists>g' kc'. remove_each g L = Inr g' \<and> lookup g' c = Some (Element c ec kc') \<and>
     text_of kc' = text_of kc"
proof (induction L arbitrary: g kc)
  case Nil
  then show ?case by simp
next
  case (Cons h t)
  from remove_one_step [OF Cons.prems(1-4)] obtain g1
    where s: "remove_one g h = Inr g1 \<and> distinct (ids g1) \<and> markers_ok g1 t \<and>
     inner_first g1 t \<and>
     (\<forall>c ec kc. lookup g c = Some (Element c ec kc) \<and> c \<noteq> h \<longrightarrow>
        (\<exists>kc'. lookup g1 c = Some (Element c ec kc') \<and> text_of kc' = text_of kc))"
    by (elim exE)
  then have r: "remove_one g h = Inr g1" and wf1: "distinct (ids g1)"
    and ok1: "markers_ok g1 t" and io1: "inner_first g1 t"
    and tc: "\<forall>c ec kc. lookup g c = Some (Element c ec kc) \<and> c \<noteq> h \<longrightarrow>
        (\<exists>kc'. lookup g1 c = Some (Element c ec kc') \<and> text_of kc' = text_of kc)"
    by simp_all
  from Cons.prems(6) have ch: "c \<noteq> h" "c \<notin> set t" by simp_all
  from tc Cons.prems(5) ch(1) obtain kc1
    where l1: "lookup g1 c = Some (Element c ec kc1)" and t1: "text_of kc1 = text_of kc"
    by blast
  from Cons.prems(4) have dt: "distinct t" by simp
  from Cons.IH [OF wf1 ok1 io1 dt l1 ch(2)] obtain g' kc'
    where "remove_each g1 t = Inr g'" "lookup g' c = Some (Element c ec kc')"
      "text_of kc' = text_of kc1" by blast
  with r t1 show ?case by simp
qed

subsection \<open>The depth of a node\<close>

lemma ancestors_None: "k \<notin> set (ids F) \<Longrightarrow> ancestors k F = None"
  by (induction F rule: forest_induct) auto

lemma ancestors_root:
  "distinct (ids F) \<Longrightarrow> c \<in> set F \<Longrightarrow> ancestors (nid c) F = Some []"
proof (induction F rule: forest_induct)
  case Nil
  then show ?case by simp
next
  case (Text i s f)
  then show ?case by (auto dest: roots_in_ids)
next
  case (Element i e cs f)
  show ?case
  proof (cases "c = Element i e cs")
    case True
    then show ?thesis by simp
  next
    case False
    with Element.prems have c: "c \<in> set f" by simp
    from roots_in_ids [OF c] Element.prems(1) have "nid c \<noteq> i" "nid c \<notin> set (ids cs)" by auto
    with ancestors_None [of "nid c" cs] Element.IH(2) [OF _ c] Element.prems(1)
    show ?thesis by simp
  qed
qed

lemma ancestors_kid:
  "distinct (ids F) \<Longrightarrow> P \<in> set (nodes F) \<Longrightarrow> k \<in> set (kids P) \<Longrightarrow>
   \<exists>up. ancestors (nid P) F = Some up \<and> ancestors (nid k) F = Some (nid P # up)"
proof (induction F rule: forest_induct)
  case Nil
  then show ?case by simp
next
  case (Text i s f)
  from Text.prems(2,3) have P: "P \<in> set (nodes f)" by auto
  from Text.prems(1) have df: "distinct (ids f)" by simp
  from Text.IH [OF df P Text.prems(3)] obtain up
    where up: "ancestors (nid P) f = Some up" "ancestors (nid k) f = Some (nid P # up)" by auto
  from in_nodes_ids [OF P] in_nodes_ids [OF kids_in_nodes [OF P Text.prems(3)]] Text.prems(1)
  have "nid P \<noteq> i" "nid k \<noteq> i" by auto
  with up show ?case by simp
next
  case (Element i e cs f)
  from Element.prems(1) have dcs: "distinct (ids cs)" and df: "distinct (ids f)" by simp_all
  from Element.prems(2) consider (top) "P = Element i e cs" | (inner) "P \<in> set (nodes cs)"
    | (rest) "P \<in> set (nodes f)" by auto
  then show ?case
  proof cases
    case top
    with Element.prems(3) have k: "k \<in> set cs" by simp
    from roots_in_ids [OF k] Element.prems(1) have "nid k \<noteq> i" by auto
    with ancestors_root [OF dcs k] top show ?thesis by simp
  next
    case inner
    from Element.IH(1) [OF dcs inner Element.prems(3)] obtain up
      where up: "ancestors (nid P) cs = Some up" "ancestors (nid k) cs = Some (nid P # up)"
      by auto
    from in_nodes_ids [OF inner] in_nodes_ids [OF kids_in_nodes [OF inner Element.prems(3)]]
      Element.prems(1)
    have "nid P \<noteq> i" "nid k \<noteq> i" by auto
    with up show ?thesis by simp
  next
    case rest
    from Element.IH(2) [OF df rest Element.prems(3)] obtain up
      where up: "ancestors (nid P) f = Some up" "ancestors (nid k) f = Some (nid P # up)"
      by auto
    from in_nodes_ids [OF rest] in_nodes_ids [OF kids_in_nodes [OF rest Element.prems(3)]]
      Element.prems(1)
    have "nid P \<noteq> i" "nid k \<noteq> i" "nid P \<notin> set (ids cs)" "nid k \<notin> set (ids cs)" by auto
    with up ancestors_None [of "nid P" cs] ancestors_None [of "nid k" cs] show ?thesis by simp
  qed
qed

lemma depth_of_kid:
  assumes "distinct (ids f)" "parentNode f m = Some h"
  shows "length (parents f m) = Suc (length (parents f h))"
proof -
  from assms(2) obtain P where P: "parent_of f m = Some P" "nid P = h"
    by (auto simp: parentNode_def)
  from parent_of_Some_D [OF P(1)] obtain k where k: "P \<in> set (nodes f)" "k \<in> set (kids P)"
    "nid k = m" by auto
  from ancestors_kid [OF assms(1) k(1,2)] P(2) k(3) show ?thesis
    by (auto simp: parents_def)
qed

lemma sorted_inner_first:
  assumes "\<And>m h. parentNode g m = Some h \<Longrightarrow> key m < (key h :: int)"
  shows "sorted (map key L) \<Longrightarrow> inner_first g L"
proof (induction L)
  case Nil
  then show ?case by simp
next
  case (Cons h t)
  have "\<forall>m\<in>set t. parentNode g m \<noteq> Some h"
  proof
    fix m assume "m \<in> set t"
    with Cons.prems have "key h \<le> key m" by simp
    with assms [of m h] show "parentNode g m \<noteq> Some h" by auto
  qed
  with Cons show ?case by simp
qed

lemma sortByDepth_inner_first:
  assumes "distinct (ids f)"
  shows "inner_first f (sortByDepth f L True)"
  unfolding sortByDepth_def
  using sorted_inner_first [of f "\<lambda>k. - int (length (parents f k))"
      "sort_key (\<lambda>k. - int (length (parents f k))) L"]
    depth_of_kid [OF assms]
  by simp

subsection \<open>The markers of a container\<close>

text \<open>
  The trees that the highlighter builds: the children of a marker are text nodes and
  markers.
\<close>

fun plain :: "dnode \<Rightarrow> bool" where
  "plain (Text i s) = True"
| "plain (Element i e cs) =
     ((hasAttribute e DATA_ATTR \<longrightarrow> (\<forall>k\<in>set cs. is_text k \<or> is_marker k)) \<and>
      (\<forall>k\<in>set cs. plain k))"

lemma plain_nodes: "\<forall>n\<in>set F. plain n \<Longrightarrow> \<forall>m\<in>set (nodes F). plain m"
  by (induction F rule: forest_induct) auto

lemma remove_each_all:
  "distinct (ids g) \<Longrightarrow> markers_ok g L \<Longrightarrow> inner_first g L \<Longrightarrow> distinct L \<Longrightarrow>
   \<exists>g'. remove_each g L = Inr g' \<and>
     (\<forall>c ec kc. lookup g c = Some (Element c ec kc) \<and> c \<notin> set L \<longrightarrow>
        (\<exists>kc'. lookup g' c = Some (Element c ec kc') \<and> text_of kc' = text_of kc))"
proof (induction L arbitrary: g)
  case Nil
  then show ?case by simp
next
  case (Cons h t)
  from remove_one_step [OF Cons.prems(1-4)] obtain g1
    where s: "remove_one g h = Inr g1 \<and> distinct (ids g1) \<and> markers_ok g1 t \<and>
     inner_first g1 t \<and>
     (\<forall>c ec kc. lookup g c = Some (Element c ec kc) \<and> c \<noteq> h \<longrightarrow>
        (\<exists>kc'. lookup g1 c = Some (Element c ec kc') \<and> text_of kc' = text_of kc))"
    by (elim exE)
  then have r: "remove_one g h = Inr g1" and wf1: "distinct (ids g1)"
    and ok1: "markers_ok g1 t" and io1: "inner_first g1 t"
    and tc: "\<And>c ec kc. lookup g c = Some (Element c ec kc) \<Longrightarrow> c \<noteq> h \<Longrightarrow>
        \<exists>kc'. lookup g1 c = Some (Element c ec kc') \<and> text_of kc' = text_of kc"
    by simp_all
  from Cons.prems(4) have dt: "distinct t" by simp
  from Cons.IH [OF wf1 ok1 io1 dt] obtain g'
    where e: "remove_each g1 t = Inr g'"
      and k: "\<And>c ec kc. lookup g1 c = Some (Element c ec kc) \<Longrightarrow> c \<notin> set t \<Longrightarrow>
        \<exists>kc'. lookup g' c = Some (Element c ec kc') \<and> text_of kc' = text_of kc"
    by blast
  have "\<forall>c ec kc. lookup g c = Some (Element c ec kc) \<and> c \<notin> set (h # t) \<longrightarrow>
        (\<exists>kc'. lookup g' c = Some (Element c ec kc') \<and> text_of kc' = text_of kc)"
  proof (intro allI impI)
    fix c ec kc assume a: "lookup g c = Some (Element c ec kc) \<and> c \<notin> set (h # t)"
    then have "c \<noteq> h" "c \<notin> set t" by simp_all
    from tc [of c ec kc] a this(1) obtain kc1
      where l1: "lookup g1 c = Some (Element c ec kc1)" and t1: "text_of kc1 = text_of kc"
      by auto
    from k [OF l1 \<open>c \<notin> set t\<close>] t1
    show "\<exists>kc'. lookup g' c = Some (Element c ec kc') \<and> text_of kc' = text_of kc" by auto
  qed
  with r e show ?case by simp
qed

lemma not_in_own_kids:
  assumes "distinct (ids f)" "lookup f c = Some (Element c ec kc)"
  shows "c \<notin> set (ids kc)"
proof -
  from ids_edit_kids_split [OF assms, of "\<lambda>cs. cs"] obtain l1 l2
    where "ids f = l1 @ c # ids kc @ l2" by auto
  with assms(1) show ?thesis by auto
qed

lemma attached_below:
  assumes wf: "distinct (ids f)" and lc: "lookup f c = Some (Element c ec kc)"
    and m: "m \<in> set (ids kc)"
  shows "parentNode f m \<noteq> None"
proof -
  from lookup_in_nodes [OF lc] have C: "Element c ec kc \<in> set (nodes f)" .
  from ids_cases [OF m] show ?thesis
  proof
    assume "m \<in> nid ` set kc"
    with parent_of_unique [OF wf C, of m] show ?thesis by (simp add: parentNode_def)
  next
    assume "\<exists>P\<in>set (nodes kc). m \<in> nid ` set (kids P)"
    then obtain P where P: "P \<in> set (nodes kc)" "m \<in> nid ` set (kids P)" by auto
    from nodes_kids_subset [OF C] P(1) have "P \<in> set (nodes f)" by auto
    from parent_of_unique [OF wf this P(2)] show ?thesis by (simp add: parentNode_def)
  qed
qed

lemma is_marker_Element: "is_marker M \<Longrightarrow> \<exists>i e ks. M = Element i e ks \<and> hasAttribute e DATA_ATTR"
  by (cases M) auto

lemma getHighlights_ok:
  assumes wf: "distinct (ids f)" and lc: "lookup f c = Some (Element c ec kc)"
    and pl: "plain (Element c ec kc)"
    and at: "hasAttribute ec DATA_ATTR \<longrightarrow> parentNode f c \<noteq> None"
  defines "L \<equiv> map nid (filter is_marker (nodes kc)) @ (if hasAttribute ec DATA_ATTR then [c] else [])"
  shows "getHighlights f c = Inr L" and "distinct L" and "markers_ok f L"
    and "\<And>a ea ka. lookup f a = Some (Element a ea ka) \<Longrightarrow> \<not> hasAttribute ea DATA_ATTR \<Longrightarrow> a \<notin> set L"
proof -
  from lookup_in_nodes [OF lc] have C: "Element c ec kc \<in> set (nodes f)" .
  from nodes_kids_subset [OF C] have sub: "set (nodes kc) \<subseteq> set (nodes f)" by simp
  show "getHighlights f c = Inr L" using lc by (simp add: getHighlights_def L_def)
  from distinct_kids [OF wf lc] have "distinct (map nid (nodes kc))" by (simp add: ids_def)
  then have "distinct (map nid (filter is_marker (nodes kc)))" by (rule distinct_map_filter)
  moreover have "c \<notin> nid ` set (filter is_marker (nodes kc))"
    using not_in_own_kids [OF wf lc] by (auto simp: ids_def)
  ultimately show "distinct L" by (simp add: L_def)
  have pk: "\<forall>m\<in>set (nodes kc). plain m" using pl plain_nodes [of kc] by simp
  have inL: "nid k \<in> set L" if "k \<in> set (nodes kc)" "is_marker k" for k
    using that by (simp add: L_def)
  show "markers_ok f L"
    unfolding markers_ok_def
  proof
    fix m assume "m \<in> set L"
    then consider (below) "m \<in> nid ` set (filter is_marker (nodes kc))"
      | (self) "m = c" "hasAttribute ec DATA_ATTR"
      by (auto simp: L_def split: if_splits)
    then show "\<exists>em km. lookup f m = Some (Element m em km) \<and> parentNode f m \<noteq> None \<and>
        nid ` set (elems km) \<subseteq> set L"
    proof cases
      case below
      then obtain M where M: "M \<in> set (nodes kc)" "is_marker M" "nid M = m" by auto
      from is_marker_Element [OF M(2)] M(3) obtain em km
        where Me: "M = Element m em km" "hasAttribute em DATA_ATTR" by auto
      from lookup_unique [OF wf] M(1,3) sub have l: "lookup f m = Some M" by auto
      from in_nodes_ids [OF M(1)] M(3) have "m \<in> set (ids kc)" by simp
      from attached_below [OF wf lc this] have p: "parentNode f m \<noteq> None" .
      have "nid ` set (elems km) \<subseteq> set L"
      proof
        fix x assume "x \<in> nid ` set (elems km)"
        then obtain k where k: "k \<in> set km" "\<not> is_text k" "nid k = x" by (auto simp: elems_def)
        from pk M(1) have "plain M" by simp
        with Me have "\<forall>k\<in>set km. is_text k \<or> is_marker k" by simp
        with k have mk: "is_marker k" by auto
        from kids_in_nodes [OF M(1)] k(1) Me have "k \<in> set (nodes kc)" by simp
        from inL [OF this mk] k(3) show "x \<in> set L" by simp
      qed
      with l p Me show ?thesis by simp
    next
      case self
      have "nid ` set (elems kc) \<subseteq> set L"
      proof
        fix x assume "x \<in> nid ` set (elems kc)"
        then obtain k where k: "k \<in> set kc" "\<not> is_text k" "nid k = x" by (auto simp: elems_def)
        from pl self(2) have "\<forall>k\<in>set kc. is_text k \<or> is_marker k" by simp
        with k have mk: "is_marker k" by auto
        from roots_subset_nodes [of kc] k(1) have "k \<in> set (nodes kc)" by auto
        from inL [OF this mk] k(3) show "x \<in> set L" by simp
      qed
      with lc at self show ?thesis by simp
    qed
  qed
  fix a ea ka assume la: "lookup f a = Some (Element a ea ka)" and na: "\<not> hasAttribute ea DATA_ATTR"
  show "a \<notin> set L"
  proof
    assume "a \<in> set L"
    then consider (below) "a \<in> nid ` set (filter is_marker (nodes kc))"
      | (self) "a = c" "hasAttribute ec DATA_ATTR"
      by (auto simp: L_def split: if_splits)
    then show False
    proof cases
      case below
      then obtain M where M: "M \<in> set (nodes kc)" "is_marker M" "nid M = a" by auto
      from lookup_unique [OF wf] M(1,3) sub have "lookup f a = Some M" by auto
      with la M(2) na show False by simp
    next
      case self
      with la lc na show False by simp
    qed
  qed
qed


subsection \<open>A marker in a marker\<close>

definition red_span :: einfo where
  "red_span =
     \<lparr>tagName = ''SPAN'', attributes = [(''data-highlighted'', ''true'')],
      backgroundColor = ''red''\<rparr>"

definition nested_doc :: "dnode list" where
  "nested_doc =
     [Element 0 p_elem
        [Text 1 ''x'',
         Element 2 yellow_span [Text 3 ''a'', Element 4 red_span [Text 5 ''b''], Text 6 ''c''],
         Text 7 ''y'']]"

text \<open>
  The tree after the removal of the highlights of the yellow marker: the paragraph
  has one text node; the markers are empty roots, and so are the text nodes that were
  joined to the first.
\<close>

definition nested_removed :: "dnode list" where
  "nested_removed =
     [Element 0 p_elem [Text 5 ''xabcy''],
      Element 4 red_span [], Text 3 ''a'', Text 6 ''c'',
      Element 2 yellow_span [], Text 1 ''x'', Text 7 ''y'']"



section \<open>The merge pass over a list of markers\<close>

subsection \<open>What a change below one element leaves as it is\<close>

text \<open>The identity of a node and, for an element, its tag, attributes and style.\<close>

fun tag :: "dnode \<Rightarrow> nat \<times> einfo option" where
  "tag (Text i s) = (i, None)"
| "tag (Element i e cs) = (i, Some e)"

lemma tag_nid: "tag a = tag b \<Longrightarrow> nid a = nid b"
  by (cases a; cases b) auto

lemma tag_Element: "tag n = (i, Some e) \<Longrightarrow> \<exists>ks. n = Element i e ks"
  by (cases n) auto

lemma tag_edit_kids: "map tag (edit_kids p g F) = map tag F"
  by (induction p g F rule: edit_kids.induct) auto

lemma texts_edit_kids:
  assumes "text_of X = text_of cs"
  shows "\<forall>n\<in>set (nodes F). nid n = p \<longrightarrow> kids n = cs \<Longrightarrow>
     map textContent_of (edit_kids p (\<lambda>c. X) F) = map textContent_of F"
proof (induction F rule: forest_induct)
  case Nil
  then show ?case by simp
next
  case (Text i s f)
  then show ?case by simp
next
  case (Element i e ks f)
  from Element.prems have k: "\<forall>n\<in>set (nodes ks). nid n = p \<longrightarrow> kids n = cs"
    and f: "\<forall>n\<in>set (nodes f). nid n = p \<longrightarrow> kids n = cs" by auto
  from text_of_edit_kids [OF assms k] Element.IH(2) [OF f] Element.prems assms
  show ?case by (auto simp: text_of_def)
qed

lemma ctx_node:
  assumes "distinct (ids g)" "lookup g r = Some (Element r e cs)" "fits g cs X R"
    and "M \<in> set (nodes X) \<union> set (nodes R)"
  shows "lookup (ctx g r X R) (nid M) = Some M"
proof -
  from assms(3) have d: "distinct (ids X)" "distinct (ids R)" by (simp_all add: fits_def)
  from assms(4) show ?thesis
  proof
    assume M: "M \<in> set (nodes X)"
    from ctx_lookup(2) [OF assms(1-3) in_nodes_ids [OF M]] lookup_unique [OF d(1) M]
    show ?thesis by simp
  next
    assume M: "M \<in> set (nodes R)"
    from ctx_lookup(3) [OF assms(1-3) in_nodes_ids [OF M]] lookup_unique [OF d(2) M]
    show ?thesis by simp
  qed
qed

lemma ctx_outside:
  assumes wf: "distinct (ids g)" and lr: "lookup g r = Some (Element r e cs)"
    and fit: "fits g cs X R"
    and lm: "lookup g m = Some M" and out: "m \<notin> set (ids cs)" and mr: "m \<noteq> r"
  shows "lookup (ctx g r X R) m = Some (edit1 r (\<lambda>c. X) M)"
proof -
  from lookup_Some_in_ids [OF lm] out have o: "m \<in> set (ids g) - set (ids cs)" by simp
  with fit have mX: "m \<notin> set (ids X)" by (auto simp: fits_def)
  from fit have dj: "set (ids ((\<lambda>c. X) cs)) \<inter> (set (ids g) - set (ids cs)) = {}"
    by (auto simp: fits_def)
  from lookup_edit_kids [of g r e cs "\<lambda>c. X" m, OF wf lr dj] mr mX out lm
  have "lookup (edit_kids r (\<lambda>c. X) g) m = Some (edit1 r (\<lambda>c. X) M)" by simp
  then show ?thesis by (simp add: ctx_def lookup_append)
qed

text \<open>
  The children of \<open>r\<close> become \<open>X\<close>, with the same text, and the nodes \<open>R\<close> leave the
  tree. An element other than \<open>r\<close> that is not among the changed nodes \<open>Mod\<close> keeps
  the identities and attributes of its children, and their text contents.
\<close>

lemma ctx_frame:
  assumes wf: "distinct (ids g)" and lr: "lookup g r = Some (Element r e cs)"
    and fit: "fits g cs X R" and tx: "text_of X = text_of cs"
    and kept: "\<forall>M\<in>set (nodes cs). nid M \<notin> Mod \<longrightarrow> M \<in> set (nodes X) \<union> set (nodes R)"
    and lm: "lookup g m = Some (Element m em km)" and mm: "m \<notin> Mod" and mr: "m \<noteq> r"
  shows "\<exists>km'. lookup (ctx g r X R) m = Some (Element m em km') \<and>
     map tag km' = map tag km \<and> map textContent_of km' = map textContent_of km"
proof (cases "m \<in> set (ids cs)")
  case True
  from lookup_in_kids [OF wf lr True] lm have "lookup cs m = Some (Element m em km)" by simp
  from lookup_in_nodes [OF this] kept mm
  have "Element m em km \<in> set (nodes X) \<union> set (nodes R)" by auto
  from ctx_node [OF wf lr fit this] show ?thesis by simp
next
  case False
  from ctx_outside [OF wf lr fit lm False mr] mr
  have l: "lookup (ctx g r X R) m = Some (Element m em (edit_kids r (\<lambda>c. X) km))" by simp
  have Mn: "Element m em km \<in> set (nodes g)" by (rule lookup_in_nodes [OF lm])
  have "\<forall>n\<in>set (nodes km). nid n = r \<longrightarrow> kids n = cs"
  proof (intro ballI impI)
    fix n assume n: "n \<in> set (nodes km)" "nid n = r"
    from nodes_kids_subset [OF Mn] n(1) have "n \<in> set (nodes g)" by auto
    from lookup_unique [OF wf this] n(2) lr show "kids n = cs" by auto
  qed
  from texts_edit_kids [OF tx this] tag_edit_kids [of r "\<lambda>c. X" km] l show ?thesis by simp
qed

text \<open>Every element stays an element, with its attributes.\<close>

lemma ctx_labels:
  assumes wf: "distinct (ids g)" and lr: "lookup g r = Some (Element r e cs)"
    and fit: "fits g cs X R"
    and lab: "\<forall>M\<in>set (nodes cs). \<not> is_text M \<longrightarrow>
       (\<exists>M'\<in>set (nodes X) \<union> set (nodes R). tag M' = tag M)"
    and lm: "lookup g m = Some (Element m em km)"
  shows "\<exists>km'. lookup (ctx g r X R) m = Some (Element m em km')"
proof (cases "m = r")
  case True
  with ctx_lookup(1) [OF wf lr fit] lm lr show ?thesis by simp
next
  case mr: False
  show ?thesis
  proof (cases "m \<in> set (ids cs)")
    case True
    from lookup_in_kids [OF wf lr True] lm have "lookup cs m = Some (Element m em km)" by simp
    from lookup_in_nodes [OF this] lab obtain M'
      where M': "M' \<in> set (nodes X) \<union> set (nodes R)" "tag M' = (m, Some em)" by force
    from tag_Element [OF M'(2)] obtain ks where "M' = Element m em ks" by auto
    with ctx_node [OF wf lr fit M'(1)] show ?thesis by simp
  next
    case False
    from ctx_outside [OF wf lr fit lm False mr] mr show ?thesis by simp
  qed
qed

lemma root_stays:
  "Element k ek [] \<in> set g \<Longrightarrow> k \<noteq> r \<Longrightarrow> Element k ek [] \<in> set (ctx g r X R)"
proof -
  have "Element k ek [] \<in> set F \<Longrightarrow> k \<noteq> r \<Longrightarrow> Element k ek [] \<in> set (edit_kids r h F)" for F h
    by (induction r h F rule: edit_kids.induct) auto
  then show "Element k ek [] \<in> set g \<Longrightarrow> k \<noteq> r \<Longrightarrow> Element k ek [] \<in> set (ctx g r X R)"
    by (simp add: ctx_def)
qed

subsection \<open>The three changes of one visit\<close>

lemma absorb_prev_ctx:
  assumes wf: "distinct (ids g)"
    and lq: "lookup g q = Some (Element q e (l1 @ Element P eP kP # Element Y eY kY # l2))"
  defines "cs \<equiv> l1 @ Element P eP kP # Element Y eY kY # l2"
    and "X \<equiv> l1 @ Element Y eY (kP @ kY) # l2"
    and "R \<equiv> [Element P eP []]"
  shows "dom_remove (dom_prepend g Y P) P = ctx g q X R"
    and "fits g cs X R"
    and "text_of X = text_of cs"
    and "\<forall>M\<in>set (nodes cs). nid M \<notin> {P, Y} \<longrightarrow> M \<in> set (nodes X) \<union> set (nodes R)"
    and "\<forall>M\<in>set (nodes cs). \<not> is_text M \<longrightarrow> (\<exists>M'\<in>set (nodes X) \<union> set (nodes R). tag M' = tag M)"
proof -
  note lq' = lq [folded cs_def]
  have dcs: "distinct (ids cs)" by (rule distinct_kids [OF wf lq'])
  have f0: "g = ctx g q cs []" by (simp add: ctx_initial [OF wf lq'])
  have fit0: "fits g cs cs []" by (rule fits_initial [OF wf lq'])
  have lP: "lookup g P = Some (Element P eP kP)"
    using lookup_kid [OF wf lq', of "Element P eP kP"] by (simp add: cs_def)
  have ap: "P \<notin> set (ids l1)" "Y \<notin> set (ids l1)" "P \<noteq> Y" "Y \<notin> set (ids kP)"
    using dcs by (auto simp: cs_def)
  have ar: "P \<notin> nid ` set l1" "P \<notin> nid ` set l2" "Y \<notin> nid ` set l1"
    using dcs by (auto simp: cs_def dest: roots_in_ids)
  define X1 where "X1 = l1 @ Element P eP [] # Element Y eY kY # l2"
  define X2 where "X2 = l1 @ Element P eP [] # Element Y eY (kP @ kY) # l2"
  have fit1: "fits g cs X1 []" using dcs by (auto simp: fits_def cs_def X1_def)
  have fit2: "fits g cs X2 []" using dcs by (auto simp: fits_def cs_def X2_def)
  show fit3: "fits g cs X R" using dcs by (auto simp: fits_def cs_def X_def R_def)
  have e1: "edit_kids P (\<lambda>c. []) g = ctx g q X1 []"
  proof -
    have "P \<in> set (ids cs)" by (simp add: cs_def)
    from ctx_edit [OF wf lq' fit0 this, of "\<lambda>c. []"] f0
    have "edit_kids P (\<lambda>c. []) g = ctx g q (edit_kids P (\<lambda>c. []) cs) []" by simp
    moreover have "edit_kids P (\<lambda>c. []) cs = X1"
      using edit_kids_at [of P l1 "\<lambda>c. []" eP kP "Element Y eY kY # l2"] ap
      by (simp add: cs_def X1_def)
    ultimately show ?thesis by simp
  qed
  have e2: "dom_prepend g Y P = ctx g q X2 []"
  proof -
    have "Y \<in> set (ids X1)" by (simp add: X1_def)
    from ctx_edit [OF wf lq' fit1 this, of "\<lambda>c. kP @ c"]
    have "edit_kids Y (\<lambda>c. kP @ c) (ctx g q X1 []) =
      ctx g q (edit_kids Y (\<lambda>c. kP @ c) X1) []" .
    moreover have "edit_kids Y (\<lambda>c. kP @ c) X1 = X2"
      using edit_kids_at [of Y "l1 @ [Element P eP []]" "\<lambda>c. kP @ c" eY kY l2] ap
      by (simp add: X1_def X2_def)
    ultimately show ?thesis using lP e1 by (simp add: dom_prepend_def)
  qed
  show "dom_remove (dom_prepend g Y P) P = ctx g q X R"
  proof -
    have "Element P eP [] \<in> set X2" by (simp add: X2_def)
    from ctx_detach [OF wf lq' fit2 this]
    have "detach (ctx g q X2 []) P = ctx g q (without P X2) [Element P eP []]" by simp
    moreover have "without P X2 = X"
      using without_at [of P l1 "Element Y eY (kP @ kY) # l2" "Element P eP []"]
        without_id [of P "Element Y eY (kP @ kY) # l2"] ar ap
      by (simp add: X2_def X_def without_def)
    ultimately show ?thesis by (simp add: dom_remove_def e2 R_def)
  qed
  show "text_of X = text_of cs" by (simp add: X_def cs_def text_of_def)
  show "\<forall>M\<in>set (nodes cs). nid M \<notin> {P, Y} \<longrightarrow> M \<in> set (nodes X) \<union> set (nodes R)"
    by (auto simp: cs_def X_def)
  show "\<forall>M\<in>set (nodes cs). \<not> is_text M \<longrightarrow>
      (\<exists>M'\<in>set (nodes X) \<union> set (nodes R). tag M' = tag M)"
  proof (intro ballI impI)
    fix M assume M: "M \<in> set (nodes cs)" "\<not> is_text M"
    show "\<exists>M'\<in>set (nodes X) \<union> set (nodes R). tag M' = tag M"
    proof (cases "nid M \<in> {P, Y}")
      case False
      with M(1) have "M \<in> set (nodes X) \<union> set (nodes R)" by (auto simp: cs_def X_def)
      then show ?thesis by blast
    next
      case True
      from lookup_unique [OF dcs M(1)] have l: "lookup cs (nid M) = Some M" .
      have "Element P eP kP \<in> set (nodes cs)" "Element Y eY kY \<in> set (nodes cs)"
        by (simp_all add: cs_def)
      from lookup_unique [OF dcs this(1)] lookup_unique [OF dcs this(2)] l True
      have "M = Element P eP kP \<or> M = Element Y eY kY" by auto
      then show ?thesis
      proof
        assume "M = Element P eP kP"
        then have "Element P eP [] \<in> set (nodes X) \<union> set (nodes R)"
          "tag (Element P eP []) = tag M" by (simp_all add: R_def)
        then show ?thesis by blast
      next
        assume "M = Element Y eY kY"
        then have "Element Y eY (kP @ kY) \<in> set (nodes X) \<union> set (nodes R)"
          "tag (Element Y eY (kP @ kY)) = tag M" by (simp_all add: X_def)
        then show ?thesis by blast
      qed
    qed
  qed
qed


lemma absorb_next_ctx:
  assumes wf: "distinct (ids g)"
    and lq: "lookup g q = Some (Element q e (l1 @ Element Y eY kY # Element N eN kN # l2))"
  defines "cs \<equiv> l1 @ Element Y eY kY # Element N eN kN # l2"
    and "X \<equiv> l1 @ Element Y eY (kY @ kN) # l2"
    and "R \<equiv> [Element N eN []]"
  shows "dom_remove (dom_append g Y N) N = ctx g q X R"
    and "fits g cs X R"
    and "text_of X = text_of cs"
    and "\<forall>M\<in>set (nodes cs). nid M \<notin> {N, Y} \<longrightarrow> M \<in> set (nodes X) \<union> set (nodes R)"
    and "\<forall>M\<in>set (nodes cs). \<not> is_text M \<longrightarrow> (\<exists>M'\<in>set (nodes X) \<union> set (nodes R). tag M' = tag M)"
proof -
  note lq' = lq [folded cs_def]
  have dcs: "distinct (ids cs)" by (rule distinct_kids [OF wf lq'])
  have f0: "g = ctx g q cs []" by (simp add: ctx_initial [OF wf lq'])
  have fit0: "fits g cs cs []" by (rule fits_initial [OF wf lq'])
  have lN: "lookup g N = Some (Element N eN kN)"
    using lookup_kid [OF wf lq', of "Element N eN kN"] by (simp add: cs_def)
  have ap: "N \<notin> set (ids l1)" "Y \<notin> set (ids l1)" "N \<noteq> Y" "N \<notin> set (ids kY)"
    using dcs by (auto simp: cs_def)
  have ar: "N \<notin> nid ` set l1" "N \<notin> nid ` set l2" "Y \<notin> nid ` set l1"
    using dcs by (auto simp: cs_def dest: roots_in_ids)
  define X1 where "X1 = l1 @ Element Y eY kY # Element N eN [] # l2"
  define X2 where "X2 = l1 @ Element Y eY (kY @ kN) # Element N eN [] # l2"
  have fit1: "fits g cs X1 []" using dcs by (auto simp: fits_def cs_def X1_def)
  have fit2: "fits g cs X2 []" using dcs by (auto simp: fits_def cs_def X2_def)
  show fit3: "fits g cs X R" using dcs by (auto simp: fits_def cs_def X_def R_def)
  have e1: "edit_kids N (\<lambda>c. []) g = ctx g q X1 []"
  proof -
    have "N \<in> set (ids cs)" by (simp add: cs_def)
    from ctx_edit [OF wf lq' fit0 this, of "\<lambda>c. []"] f0
    have "edit_kids N (\<lambda>c. []) g = ctx g q (edit_kids N (\<lambda>c. []) cs) []" by simp
    moreover have "edit_kids N (\<lambda>c. []) cs = X1"
      using edit_kids_at [of N "l1 @ [Element Y eY kY]" "\<lambda>c. []" eN kN l2] ap
      by (simp add: cs_def X1_def)
    ultimately show ?thesis by simp
  qed
  have e2: "dom_append g Y N = ctx g q X2 []"
  proof -
    have "Y \<in> set (ids X1)" by (simp add: X1_def)
    from ctx_edit [OF wf lq' fit1 this, of "\<lambda>c. c @ kN"]
    have "edit_kids Y (\<lambda>c. c @ kN) (ctx g q X1 []) =
      ctx g q (edit_kids Y (\<lambda>c. c @ kN) X1) []" .
    moreover have "edit_kids Y (\<lambda>c. c @ kN) X1 = X2"
      using edit_kids_at [of Y l1 "\<lambda>c. c @ kN" eY kY "Element N eN [] # l2"] ap
      by (simp add: X1_def X2_def)
    ultimately show ?thesis using lN e1 by (simp add: dom_append_def)
  qed
  show "dom_remove (dom_append g Y N) N = ctx g q X R"
  proof -
    have "Element N eN [] \<in> set X2" by (simp add: X2_def)
    from ctx_detach [OF wf lq' fit2 this]
    have "detach (ctx g q X2 []) N = ctx g q (without N X2) [Element N eN []]" by simp
    moreover have "without N X2 = X"
      using without_at [of N "l1 @ [Element Y eY (kY @ kN)]" l2 "Element N eN []"] ar ap
      by (simp add: X2_def X_def)
    ultimately show ?thesis by (simp add: dom_remove_def e2 R_def)
  qed
  show "text_of X = text_of cs" by (simp add: X_def cs_def text_of_def)
  show "\<forall>M\<in>set (nodes cs). nid M \<notin> {N, Y} \<longrightarrow> M \<in> set (nodes X) \<union> set (nodes R)"
    by (auto simp: cs_def X_def)
  show "\<forall>M\<in>set (nodes cs). \<not> is_text M \<longrightarrow>
      (\<exists>M'\<in>set (nodes X) \<union> set (nodes R). tag M' = tag M)"
  proof (intro ballI impI)
    fix M assume M: "M \<in> set (nodes cs)" "\<not> is_text M"
    show "\<exists>M'\<in>set (nodes X) \<union> set (nodes R). tag M' = tag M"
    proof (cases "nid M \<in> {N, Y}")
      case False
      with M(1) have "M \<in> set (nodes X) \<union> set (nodes R)" by (auto simp: cs_def X_def)
      then show ?thesis by blast
    next
      case True
      from lookup_unique [OF dcs M(1)] have l: "lookup cs (nid M) = Some M" .
      have "Element N eN kN \<in> set (nodes cs)" "Element Y eY kY \<in> set (nodes cs)"
        by (simp_all add: cs_def)
      from lookup_unique [OF dcs this(1)] lookup_unique [OF dcs this(2)] l True
      have "M = Element N eN kN \<or> M = Element Y eY kY" by auto
      then show ?thesis
      proof
        assume "M = Element N eN kN"
        then have "Element N eN [] \<in> set (nodes X) \<union> set (nodes R)"
          "tag (Element N eN []) = tag M" by (simp_all add: R_def)
        then show ?thesis by blast
      next
        assume "M = Element Y eY kY"
        then have "Element Y eY (kY @ kN) \<in> set (nodes X) \<union> set (nodes R)"
          "tag (Element Y eY (kY @ kN)) = tag M" by (simp_all add: X_def)
        then show ?thesis by blast
      qed
    qed
  qed
qed

lemma elems_coalesce: "elems (coalesce ks) = elems ks"
proof (induction ks rule: coalesce.induct)
  case 1
  then show ?case by simp
next
  case (2 i s cs)
  have "elems cs = elems (takeWhile is_text cs @ dropWhile is_text cs)" by simp
  also have "\<dots> = elems (dropWhile is_text cs)"
    unfolding elems_simps(4)
    by (simp add: elems_def) (metis (mono_tags, lifting) filter_False set_takeWhileD)
  finally show ?case using 2 by simp
next
  case (3 i e ks cs)
  then show ?case by simp
qed

lemma nodes_elems: "set (nodes (elems ks)) \<subseteq> set (nodes ks)"
proof (induction ks)
  case Nil
  then show ?case by simp
next
  case (Cons k ks)
  then show ?case by (cases k) auto
qed

lemma nodes_split: "M \<in> set (nodes ks) \<Longrightarrow> M \<in> set (texts ks) \<or> M \<in> set (nodes (elems ks))"
proof (induction ks)
  case Nil
  then show ?case by simp
next
  case (Cons k ks)
  then show ?case by (cases k) auto
qed

lemma normalize_ctx:
  assumes wf: "distinct (ids g)"
    and lY: "lookup g Y = Some (Element Y eY kY)"
  shows "normalizeTextNodes g Y = ctx g Y (coalesce kY) (coalesced kY)"
    and "fits g kY (coalesce kY) (coalesced kY)"
    and "text_of (coalesce kY) = text_of kY"
    and "\<forall>M\<in>set (nodes kY). nid M \<notin> nid ` set (texts kY) \<longrightarrow>
       M \<in> set (nodes (coalesce kY)) \<union> set (nodes (coalesced kY))"
    and "\<forall>M\<in>set (nodes kY). \<not> is_text M \<longrightarrow>
       (\<exists>M'\<in>set (nodes (coalesce kY)) \<union> set (nodes (coalesced kY)). tag M' = tag M)"
proof -
  have dk: "distinct (ids kY)" by (rule distinct_kids [OF wf lY])
  have fit0: "fits g kY kY []" by (rule fits_initial [OF wf lY])
  from ctx_edit_top [OF wf lY fit0, of coalesce] ctx_initial [OF wf lY]
  have "edit_kids Y coalesce g = ctx g Y (coalesce kY) []" by simp
  with lY show "normalizeTextNodes g Y = ctx g Y (coalesce kY) (coalesced kY)"
    by (simp add: normalizeTextNodes_def ctx_def)
  have "mset (ids (coalesce kY) @ ids (coalesced kY)) = mset (ids kY @ ids [])"
    using mset_coalesce [of kY] by simp
  from fits_mset [OF fit0 this] show "fits g kY (coalesce kY) (coalesced kY)" .
  show "text_of (coalesce kY) = text_of kY" by (simp add: text_of_def textContent_coalesce)
  have el: "M \<in> set (nodes (coalesce kY))" if "M \<in> set (nodes (elems kY))" for M
    using that nodes_elems [of "coalesce kY"] by (auto simp: elems_coalesce)
  show "\<forall>M\<in>set (nodes kY). nid M \<notin> nid ` set (texts kY) \<longrightarrow>
       M \<in> set (nodes (coalesce kY)) \<union> set (nodes (coalesced kY))"
    using nodes_split [of _ kY] el by auto
  show "\<forall>M\<in>set (nodes kY). \<not> is_text M \<longrightarrow>
       (\<exists>M'\<in>set (nodes (coalesce kY)) \<union> set (nodes (coalesced kY)). tag M' = tag M)"
  proof (intro ballI impI)
    fix M assume M: "M \<in> set (nodes kY)" "\<not> is_text M"
    from nodes_split [OF M(1)] M(2) have "M \<in> set (nodes (elems kY))" by (auto simp: texts_def)
    from el [OF this]
    show "\<exists>M'\<in>set (nodes (coalesce kY)) \<union> set (nodes (coalesced kY)). tag M' = tag M" by blast
  qed
qed

subsection \<open>Two neighbours in a list with a marked middle\<close>

lemma split_at_unique:
  assumes "distinct (a @ u # b)" "a @ u # b = a' @ u # b'"
  shows "a = a' \<and> b = b'"
proof -
  from assms(1) have "u \<notin> set a" "u \<notin> set b" by auto
  from append_Cons_eq_iff [OF this, of a' b'] assms(2) show ?thesis by blast
qed

lemma align:
  assumes d: "distinct (pre @ mid @ post)"
    and eq: "pre @ mid @ post = l1 @ u # v # l2"
    and um: "u \<notin> set mid" and vm: "v \<notin> set mid" and mn: "mid \<noteq> []"
  shows "(\<exists>x. pre = l1 @ u # v # x \<and> l2 = x @ mid @ post) \<or>
         (\<exists>y. post = y @ u # v # l2 \<and> l1 = pre @ mid @ y)"
proof -
  have "u \<in> set (pre @ mid @ post)" unfolding eq by simp
  with um have "u \<in> set pre \<or> u \<in> set post" by auto
  then show ?thesis
  proof
    assume "u \<in> set pre"
    then obtain a b where pre: "pre = a @ u # b" by (auto simp: in_set_conv_decomp)
    have e: "a @ u # (b @ mid @ post) = l1 @ u # (v # l2)" using eq by (simp add: pre)
    have "distinct (a @ u # (b @ mid @ post))" using d by (simp add: pre)
    from split_at_unique [OF this e] have a: "a = l1" and b: "b @ mid @ post = v # l2" by simp_all
    have "b \<noteq> []"
    proof
      assume "b = []"
      with b mn have "v = hd mid" by (cases mid) auto
      with mn vm show False by auto
    qed
    then obtain x where "b = v # x" "l2 = x @ mid @ post" using b by (cases b) auto
    with pre a show ?thesis by auto
  next
    assume "u \<in> set post"
    then obtain y b where post: "post = y @ u # b" by (auto simp: in_set_conv_decomp)
    have e: "(pre @ mid @ y) @ u # b = l1 @ u # (v # l2)" using eq by (simp add: post)
    have "distinct ((pre @ mid @ y) @ u # b)" using d by (simp add: post)
    from split_at_unique [OF this e] have "pre @ mid @ y = l1" "b = v # l2" by simp_all
    with post show ?thesis by auto
  qed
qed

lemma touch_prev:
  assumes d: "distinct (pre @ mid @ post)"
    and eq: "pre @ mid @ post = l1 @ u # v # l2"
    and um: "u \<in> set mid" and vm: "v \<notin> set mid"
  shows "post \<noteq> [] \<and> hd post = v"
proof -
  from um obtain a b where mid: "mid = a @ u # b" by (auto simp: in_set_conv_decomp)
  have e: "(pre @ a) @ u # (b @ post) = l1 @ u # (v # l2)" using eq by (simp add: mid)
  have "distinct ((pre @ a) @ u # (b @ post))" using d by (simp add: mid)
  from split_at_unique [OF this e] have b: "b @ post = v # l2" by simp
  have "b = []"
  proof (rule ccontr)
    assume "b \<noteq> []"
    with b have "v \<in> set b" by (cases b) auto
    with vm mid show False by simp
  qed
  with b show ?thesis by simp
qed

lemma touch_next:
  assumes d: "distinct (pre @ mid @ post)"
    and eq: "pre @ mid @ post = l1 @ u # v # l2"
    and um: "u \<notin> set mid" and vm: "v \<in> set mid"
  shows "pre \<noteq> [] \<and> last pre = u"
proof -
  from vm obtain a b where mid: "mid = a @ v # b" by (auto simp: in_set_conv_decomp)
  have e: "(pre @ a) @ v # (b @ post) = (l1 @ [u]) @ v # l2" using eq by (simp add: mid)
  have "distinct ((pre @ a) @ v # (b @ post))" using d by (simp add: mid)
  from split_at_unique [OF this e] have a: "pre @ a = l1 @ [u]" by simp
  have "a = []"
  proof (rule ccontr)
    assume "a \<noteq> []"
    with a have "last a = u" by (metis last_appendR last_snoc)
    with \<open>a \<noteq> []\<close> have "u \<in> set a" using last_in_set by blast
    with um mid show False by simp
  qed
  with a show ?thesis by auto
qed

subsection \<open>The markers of one style\<close>

text \<open>What \<open>shouldMerge\<close> asks of a sibling: an element, of the style \<open>c\<close>, a marker.\<close>

fun mergeable :: "string \<Rightarrow> dnode \<Rightarrow> bool" where
  "mergeable c (Text i s) = False"
| "mergeable c (Element i e ks) = (backgroundColor e = c \<and> hasAttribute e DATA_ATTR)"

fun colour_of :: "dnode \<Rightarrow> string" where
  "colour_of (Text i s) = []"
| "colour_of (Element i e ks) = backgroundColor e"

lemma mergeable_tag: "tag a = tag b \<Longrightarrow> mergeable c a = mergeable c b"
  by (cases a; cases b) auto

lemma mergeable_same:
  "is_marker y \<Longrightarrow> mergeable (colour_of y) n \<Longrightarrow> mergeable c y = mergeable c n"
  by (cases y; cases n) auto

lemma shouldMerge_node:
  assumes "lookup g Y = Some (Element Y eY kY)" "lookup g x = Some n"
  shows "shouldMerge g Y (Some x) = Inr (mergeable (backgroundColor eY) n)"
proof (cases n)
  case (Text i s)
  with assms show ?thesis
    by (simp add: shouldMerge_def nodeType_def TEXT_NODE_def ELEMENT_NODE_def)
next
  case (Element i e ks)
  with assms(2) lookup_nid [OF assms(2)] have "lookup g x = Some (Element x e ks)" by simp
  from shouldMerge_marker [OF assms(1) this] Element show ?thesis by auto
qed

text \<open>
  The children of \<open>p\<close> are \<open>pre @ mid @ post\<close>, the nodes of \<open>mid\<close> are markers of the
  style \<open>c\<close> and the node before them and the node after them are not. The neighbours
  \<open>P\<close> and \<open>Y\<close>, with \<open>Y\<close> outside \<open>mid\<close>, become one: \<open>mid\<close> stays as it is, and so do the
  conditions on what is before and after it.
\<close>

lemma squeeze_prev:
  assumes d: "distinct (pre @ mid @ post)"
    and eq: "pre @ mid @ post = l1 @ Pn # Yn # l2"
    and Ym: "Yn \<notin> set mid" and mn: "mid \<noteq> []"
    and oL: "pre = [] \<or> \<not> mergeable c (last pre)"
    and oR: "post = [] \<or> \<not> mergeable c (hd post)"
    and mk: "\<forall>n\<in>set mid. mergeable c n"
    and Yk: "is_marker Yn" and mg: "mergeable (colour_of Yn) Pn"
    and tg: "tag Y' = tag Yn"
  shows "\<exists>pre' post'. l1 @ Y' # l2 = pre' @ mid @ post' \<and>
     (pre' = [] \<or> \<not> mergeable c (last pre')) \<and> (post' = [] \<or> \<not> mergeable c (hd post'))"
proof -
  note same = mergeable_same [OF Yk mg, of c] and mt = mergeable_tag [OF tg, of c]
  have Pm: "Pn \<notin> set mid"
  proof
    assume Pin: "Pn \<in> set mid"
    from touch_prev [OF d eq Pin Ym] oR have "\<not> mergeable c Yn" by auto
    with same mk Pin show False by auto
  qed
  from align [OF d eq Pm Ym mn] show ?thesis
  proof
    assume "\<exists>x. pre = l1 @ Pn # Yn # x \<and> l2 = x @ mid @ post"
    then obtain x where x: "pre = l1 @ Pn # Yn # x" "l2 = x @ mid @ post" by auto
    have "l1 @ Y' # l2 = (l1 @ Y' # x) @ mid @ post" using x by simp
    moreover have "\<not> mergeable c (last (l1 @ Y' # x))"
      using oL x(1) mt by (cases "x = []") auto
    ultimately show ?thesis using oR by blast
  next
    assume "\<exists>y. post = y @ Pn # Yn # l2 \<and> l1 = pre @ mid @ y"
    then obtain y where y: "post = y @ Pn # Yn # l2" "l1 = pre @ mid @ y" by auto
    have "l1 @ Y' # l2 = pre @ mid @ (y @ Y' # l2)" using y by simp
    moreover have "\<not> mergeable c (hd (y @ Y' # l2))"
      using oR y(1) mt same by (cases y) auto
    ultimately show ?thesis using oL by blast
  qed
qed

lemma squeeze_next:
  assumes d: "distinct (pre @ mid @ post)"
    and eq: "pre @ mid @ post = l1 @ Yn # Nn # l2"
    and Ym: "Yn \<notin> set mid" and mn: "mid \<noteq> []"
    and oL: "pre = [] \<or> \<not> mergeable c (last pre)"
    and oR: "post = [] \<or> \<not> mergeable c (hd post)"
    and mk: "\<forall>n\<in>set mid. mergeable c n"
    and Yk: "is_marker Yn" and mg: "mergeable (colour_of Yn) Nn"
    and tg: "tag Y' = tag Yn"
  shows "\<exists>pre' post'. l1 @ Y' # l2 = pre' @ mid @ post' \<and>
     (pre' = [] \<or> \<not> mergeable c (last pre')) \<and> (post' = [] \<or> \<not> mergeable c (hd post'))"
proof -
  note same = mergeable_same [OF Yk mg, of c] and mt = mergeable_tag [OF tg, of c]
  have Nm: "Nn \<notin> set mid"
  proof
    assume Nin: "Nn \<in> set mid"
    from touch_next [OF d eq Ym Nin] oL have "\<not> mergeable c Yn" by auto
    with same mk Nin show False by auto
  qed
  from align [OF d eq Ym Nm mn] show ?thesis
  proof
    assume "\<exists>x. pre = l1 @ Yn # Nn # x \<and> l2 = x @ mid @ post"
    then obtain x where x: "pre = l1 @ Yn # Nn # x" "l2 = x @ mid @ post" by auto
    have "l1 @ Y' # l2 = (l1 @ Y' # x) @ mid @ post" using x by simp
    moreover have "\<not> mergeable c (last (l1 @ Y' # x))"
      using oL x(1) mt same by (cases "x = []") auto
    ultimately show ?thesis using oR by blast
  next
    assume "\<exists>y. post = y @ Yn # Nn # l2 \<and> l1 = pre @ mid @ y"
    then obtain y where y: "post = y @ Yn # Nn # l2" "l1 = pre @ mid @ y" by auto
    have "l1 @ Y' # l2 = pre @ mid @ (y @ Y' # l2)" using y by simp
    moreover have "\<not> mergeable c (hd (y @ Y' # l2))"
      using oR y(1) mt by (cases y) auto
    ultimately show ?thesis using oL by blast
  qed
qed

subsection \<open>What the pass keeps true\<close>

text \<open>The forest has distinct identities and the list holds markers of the forest.\<close>

definition stands :: "dnode list \<Rightarrow> nat list \<Rightarrow> bool" where
  "stands g hs \<longleftrightarrow>
     distinct (ids g) \<and>
     (\<forall>Y\<in>set hs. \<exists>e k. lookup g Y = Some (Element Y e k) \<and> hasAttribute e DATA_ATTR)"

text \<open>
  Among the children of \<open>p\<close> stand, side by side, the markers with the tags \<open>tg\<close> and
  the text contents \<open>ts\<close>; the child before them and the child after them are not
  markers of the style \<open>c\<close>.
\<close>

definition around ::
  "dnode list \<Rightarrow> nat \<Rightarrow> einfo \<Rightarrow> string \<Rightarrow> (nat \<times> einfo option) list \<Rightarrow> string list \<Rightarrow> bool" where
  "around g p e c tg ts \<longleftrightarrow>
     (\<exists>pre mid post. lookup g p = Some (Element p e (pre @ mid @ post)) \<and>
        map tag mid = tg \<and> map textContent_of mid = ts \<and>
        (pre = [] \<or> \<not> mergeable c (last pre)) \<and> (post = [] \<or> \<not> mergeable c (hd post)))"

lemma same_shape:
  assumes "map tag km' = map tag (pre @ mid @ post)"
    and "map textContent_of km' = map textContent_of (pre @ mid @ post)"
  shows "\<exists>pre' mid' post'. km' = pre' @ mid' @ post' \<and> map tag pre' = map tag pre \<and>
     map tag mid' = map tag mid \<and> map tag post' = map tag post \<and>
     map textContent_of mid' = map textContent_of mid"
proof -
  define pre' where "pre' = take (length pre) km'"
  define mid' where "mid' = take (length mid) (drop (length pre) km')"
  define post' where "post' = drop (length mid) (drop (length pre) km')"
  have k: "km' = pre' @ mid' @ post'"
    unfolding pre'_def mid'_def post'_def by (simp only: append_take_drop_id)
  have t: "map tag pre' = map tag pre" "map tag mid' = map tag mid" "map tag post' = map tag post"
    using assms(1) unfolding pre'_def mid'_def post'_def
    by (simp_all add: take_map [symmetric] drop_map [symmetric])
  have "map textContent_of mid' = map textContent_of mid"
    using assms(2) unfolding mid'_def
    by (simp add: take_map [symmetric] drop_map [symmetric])
  with k t show ?thesis by blast
qed

lemma outer_tag:
  assumes "map tag a' = map tag a"
  shows "(a' = [] \<or> \<not> mergeable c (last a')) = (a = [] \<or> \<not> mergeable c (last a))"
    and "(a' = [] \<or> \<not> mergeable c (hd a')) = (a = [] \<or> \<not> mergeable c (hd a))"
proof -
  from assms have e: "a' = [] \<longleftrightarrow> a = []" by (metis map_is_Nil_conv)
  show "(a' = [] \<or> \<not> mergeable c (last a')) = (a = [] \<or> \<not> mergeable c (last a))"
  proof (cases "a = []")
    case True
    with e show ?thesis by simp
  next
    case False
    with e have "a' \<noteq> []" by simp
    from last_map [OF this, of tag] last_map [OF False, of tag] assms
    have "tag (last a') = tag (last a)" by simp
    from mergeable_tag [OF this] e show ?thesis by simp
  qed
  show "(a' = [] \<or> \<not> mergeable c (hd a')) = (a = [] \<or> \<not> mergeable c (hd a))"
  proof (cases "a = []")
    case True
    with e show ?thesis by simp
  next
    case False
    with e have "a' \<noteq> []" by simp
    from hd_map [OF this, of tag] hd_map [OF False, of tag] assms
    have "tag (hd a') = tag (hd a)" by simp
    from mergeable_tag [OF this] e show ?thesis by simp
  qed
qed

lemma around_frame:
  assumes wf: "distinct (ids g)" and lr: "lookup g r = Some (Element r er cs)"
    and fit: "fits g cs X R" and tx: "text_of X = text_of cs"
    and kept: "\<forall>M\<in>set (nodes cs). nid M \<notin> Mod \<longrightarrow> M \<in> set (nodes X) \<union> set (nodes R)"
    and ar: "around g p e c tg ts" and pm: "p \<notin> Mod" and pr: "p \<noteq> r"
  shows "around (ctx g r X R) p e c tg ts"
proof -
  from ar obtain pre mid post
    where lp: "lookup g p = Some (Element p e (pre @ mid @ post))"
      and m: "map tag mid = tg" "map textContent_of mid = ts"
      and o: "pre = [] \<or> \<not> mergeable c (last pre)" "post = [] \<or> \<not> mergeable c (hd post)"
    unfolding around_def by blast
  from ctx_frame [OF wf lr fit tx kept lp pm pr] obtain km'
    where l': "lookup (ctx g r X R) p = Some (Element p e km')"
      and t: "map tag km' = map tag (pre @ mid @ post)"
        "map textContent_of km' = map textContent_of (pre @ mid @ post)" by blast
  from same_shape [OF t] obtain pre' mid' post'
    where k: "km' = pre' @ mid' @ post'" and s: "map tag pre' = map tag pre"
      "map tag mid' = map tag mid" "map tag post' = map tag post"
      "map textContent_of mid' = map textContent_of mid" by blast
  from outer_tag(1) [OF s(1)] outer_tag(2) [OF s(3)] o
  have "pre' = [] \<or> \<not> mergeable c (last pre')" "post' = [] \<or> \<not> mergeable c (hd post')"
    by simp_all
  with l' k s m show ?thesis unfolding around_def by blast
qed

lemma stands_frame:
  assumes wf: "distinct (ids g)" and lr: "lookup g r = Some (Element r er cs)"
    and fit: "fits g cs X R"
    and lab: "\<forall>M\<in>set (nodes cs). \<not> is_text M \<longrightarrow>
       (\<exists>M'\<in>set (nodes X) \<union> set (nodes R). tag M' = tag M)"
    and st: "stands g hs"
  shows "stands (ctx g r X R) hs"
  unfolding stands_def
proof
  show "distinct (ids (ctx g r X R))" by (rule ctx_distinct [OF wf lr fit])
  show "\<forall>Y\<in>set hs. \<exists>e k. lookup (ctx g r X R) Y = Some (Element Y e k) \<and> hasAttribute e DATA_ATTR"
  proof
    fix Y assume "Y \<in> set hs"
    with st obtain e k where l: "lookup g Y = Some (Element Y e k)" "hasAttribute e DATA_ATTR"
      by (auto simp: stands_def)
    from ctx_labels [OF wf lr fit lab l(1)] l(2)
    show "\<exists>e k. lookup (ctx g r X R) Y = Some (Element Y e k) \<and> hasAttribute e DATA_ATTR"
      by blast
  qed
qed

text \<open>The markers already emptied are roots without children.\<close>

definition gone_ok :: "dnode list \<Rightarrow> nat list \<Rightarrow> bool" where
  "gone_ok g gone \<longleftrightarrow> (\<forall>k\<in>set gone. \<exists>ek. Element k ek [] \<in> set g)"

text \<open>The tags \<open>tg\<close> are tags of markers of the style \<open>c\<close>.\<close>

definition marked :: "string \<Rightarrow> (nat \<times> einfo option) list \<Rightarrow> bool" where
  "marked c tg \<longleftrightarrow>
     tg \<noteq> [] \<and>
     (\<forall>t\<in>set tg. \<exists>i em. t = (i, Some em) \<and> backgroundColor em = c \<and> hasAttribute em DATA_ATTR)"

lemma marked_mid:
  assumes "marked c tg" "map tag mid = tg"
  shows "mid \<noteq> []" and "\<forall>n\<in>set mid. mergeable c n"
proof -
  from assms show "mid \<noteq> []" by (auto simp: marked_def)
  show "\<forall>n\<in>set mid. mergeable c n"
  proof
    fix n assume "n \<in> set mid"
    with assms(2) have "tag n \<in> set tg" by auto
    with assms(1) obtain i em where "tag n = (i, Some em)" "backgroundColor em = c"
      "hasAttribute em DATA_ATTR" by (auto simp: marked_def)
    with tag_Element [OF this(1)] show "mergeable c n" by auto
  qed
qed

lemma root_stays2:
  assumes "Element k ek [] \<in> set g" "k = r \<longrightarrow> X = []"
  shows "Element k ek [] \<in> set (ctx g r X R)"
proof -
  have "Element k ek [] \<in> set F \<Longrightarrow> Element k ek [] \<in> set (edit_kids r (\<lambda>c. X) F)" for F
    using assms(2) by (induction r "\<lambda>c::dnode list. X" F rule: edit_kids.induct) auto
  with assms(1) show ?thesis by (simp add: ctx_def)
qed

lemma gone_frame:
  assumes wf: "distinct (ids g)" and lr: "lookup g r = Some (Element r er cs)"
    and gn: "gone_ok g gone" and c: "cs = [] \<longrightarrow> X = []"
  shows "gone_ok (ctx g r X R) gone"
  unfolding gone_ok_def
proof
  fix k assume "k \<in> set gone"
  with gn obtain ek where k: "Element k ek [] \<in> set g" by (auto simp: gone_ok_def)
  from lookup_root [OF wf k] have "lookup g k = Some (Element k ek [])" by simp
  with lr c have "k = r \<longrightarrow> X = []" by auto
  from root_stays2 [OF k this] show "\<exists>ek. Element k ek [] \<in> set (ctx g r X R)" by blast
qed

lemma kids_distinct_nodes:
  assumes "distinct (ids g)" "lookup g q = Some (Element q e cs)"
  shows "distinct cs"
  using distinct_roots [OF distinct_kids [OF assms]] by (simp add: distinct_map)

lemma not_in_mid:
  assumes "map tag mid = tg" "Y \<notin> fst ` set tg" "nid n = Y"
  shows "n \<notin> set mid"
proof
  assume "n \<in> set mid"
  with assms(1) have "tag n \<in> set tg" by auto
  moreover have "fst (tag n) = nid n" by (cases n) auto
  ultimately show False using assms(2,3) by force
qed

subsection \<open>The preceding sibling of another marker\<close>

lemma absorb_prev_keeps:
  assumes st: "stands g hs" and ar: "around g p e c tg ts" and gn: "gone_ok g gone"
    and pe: "\<not> hasAttribute e DATA_ATTR" and mk: "marked c tg"
    and Y: "Y \<in> set hs" and Yt: "Y \<notin> fst ` set tg"
  shows "\<exists>g1. absorb_prev g Y (previousSibling g Y) = Inr g1 \<and> stands g1 hs \<and>
     around g1 p e c tg ts \<and> gone_ok g1 gone \<and> nextSibling g1 Y = nextSibling g Y"
proof -
  from st have wf: "distinct (ids g)" by (simp add: stands_def)
  from st Y obtain eY kY where lY: "lookup g Y = Some (Element Y eY kY)"
    and aY: "hasAttribute eY DATA_ATTR" by (auto simp: stands_def)
  have same: "absorb_prev g Y (previousSibling g Y) = Inr g \<and> stands g hs \<and>
     around g p e c tg ts \<and> gone_ok g gone \<and> nextSibling g Y = nextSibling g Y"
    if "absorb_prev g Y (previousSibling g Y) = Inr g"
    using that st ar gn by simp
  show ?thesis
  proof (cases "previousSibling g Y")
    case None
    then have "absorb_prev g Y (previousSibling g Y) = Inr g" by (simp add: absorb_prev_def)
    from same [OF this] show ?thesis by blast
  next
    case (Some pv)
    from adjacent_siblings [OF wf Some] obtain q eq l1 nP nY l2
      where lq: "lookup g q = Some (Element q eq (l1 @ nP # nY # l2))"
        and n: "nid nP = pv" "nid nY = Y" by blast
    from lookup_kid [OF wf lq, of nP] n have lP: "lookup g pv = Some nP" by simp
    from lookup_kid [OF wf lq, of nY] n lY have nY: "nY = Element Y eY kY" by simp
    from shouldMerge_node [OF lY lP]
    have sm: "shouldMerge g Y (Some pv) = Inr (mergeable (backgroundColor eY) nP)" .
    show ?thesis
    proof (cases "mergeable (backgroundColor eY) nP")
      case False
      with sm Some have "absorb_prev g Y (previousSibling g Y) = Inr g"
        by (simp add: absorb_prev_def)
      from same [OF this] show ?thesis by blast
    next
      case True
      then obtain eP kP where nP: "nP = Element pv eP kP" and aP: "hasAttribute eP DATA_ATTR"
        using n(1) by (cases nP) auto
      define cs where "cs = l1 @ Element pv eP kP # Element Y eY kY # l2"
      define X where "X = l1 @ Element Y eY (kP @ kY) # l2"
      define R where "R = [Element pv eP []]"
      define g1 where "g1 = ctx g q X R"
      note lq' = lq [unfolded nP nY]
      note op = absorb_prev_ctx [OF wf lq', folded cs_def X_def R_def]
      note lq'' = lq' [folded cs_def]
      from sm Some True op(1) have r: "absorb_prev g Y (previousSibling g Y) = Inr g1"
        by (simp add: absorb_prev_def g1_def)
      have st1: "stands g1 hs" unfolding g1_def by (rule stands_frame [OF wf lq'' op(2,5) st])
      have wf1: "distinct (ids g1)" using st1 by (simp add: stands_def)
      have gn1: "gone_ok g1 gone"
        unfolding g1_def by (rule gone_frame [OF wf lq'' gn]) (simp add: cs_def)
      from ar obtain pre mid post
        where lp: "lookup g p = Some (Element p e (pre @ mid @ post))"
          and m: "map tag mid = tg" "map textContent_of mid = ts"
          and o: "pre = [] \<or> \<not> mergeable c (last pre)" "post = [] \<or> \<not> mergeable c (hd post)"
        unfolding around_def by blast
      have ar1: "around g1 p e c tg ts"
      proof (cases "q = p")
        case True
        with lp lq'' have eq: "pre @ mid @ post = l1 @ Element pv eP kP # Element Y eY kY # l2"
          and ee: "eq = e" by (simp_all add: cs_def)
        from kids_distinct_nodes [OF wf lp] have d: "distinct (pre @ mid @ post)" .
        have Ym: "Element Y eY kY \<notin> set mid" by (rule not_in_mid [OF m(1) Yt]) simp
        have Yk: "is_marker (Element Y eY kY)" using aY by simp
        have mg: "mergeable (colour_of (Element Y eY kY)) (Element pv eP kP)"
          using \<open>mergeable (backgroundColor eY) nP\<close> nP by simp
        have tg': "tag (Element Y eY (kP @ kY)) = tag (Element Y eY kY)" by simp
        from squeeze_prev [OF d eq Ym marked_mid(1) [OF mk m(1)] o marked_mid(2) [OF mk m(1)]
            Yk mg tg']
        obtain pre' post' where X': "X = pre' @ mid @ post'"
          and o': "pre' = [] \<or> \<not> mergeable c (last pre')" "post' = [] \<or> \<not> mergeable c (hd post')"
          unfolding X_def by blast
        from ctx_lookup(1) [OF wf lq'' op(2)] True ee X'
        have "lookup g1 p = Some (Element p e (pre' @ mid @ post'))" by (simp add: g1_def)
        with m o' show ?thesis unfolding around_def by blast
      next
        case False
        have "p \<noteq> Y" using lp lY pe aY by auto
        moreover have "p \<noteq> pv" using lp lP nP pe aP by auto
        ultimately have "p \<notin> {pv, Y}" by simp
        from around_frame [OF wf lq'' op(2,3,4) ar this] False show ?thesis
          by (simp add: g1_def)
      qed
      have nx: "nextSibling g1 Y = nextSibling g Y"
      proof -
        have dcs: "distinct (map nid cs)" by (rule distinct_roots [OF distinct_kids [OF wf lq'']])
        then have a: "Y \<notin> set (map nid (l1 @ [Element pv eP kP]))" "Y \<notin> set (map nid l1)"
          by (auto simp: cs_def)
        have "Y \<in> nid ` set cs" by (simp add: cs_def)
        from ctx_nav(3) [OF wf lq'' fits_initial [OF wf lq''] this] ctx_initial [OF wf lq'']
        have "nextSibling g Y = after Y (map nid cs)" by simp
        also have "\<dots> = (case map nid l2 of [] \<Rightarrow> None | n # ns \<Rightarrow> Some n)"
          using after_split [OF a(1), of "map nid l2"] by (simp add: cs_def)
        finally have 1: "nextSibling g Y = (case map nid l2 of [] \<Rightarrow> None | n # ns \<Rightarrow> Some n)" .
        have "Y \<in> nid ` set X" by (simp add: X_def)
        from ctx_nav(3) [OF wf lq'' op(2) this]
        have "nextSibling g1 Y = after Y (map nid X)" by (simp add: g1_def)
        also have "\<dots> = (case map nid l2 of [] \<Rightarrow> None | n # ns \<Rightarrow> Some n)"
          using after_split [OF a(2), of "map nid l2"] by (simp add: X_def)
        finally show ?thesis using 1 by simp
      qed
      from r st1 ar1 gn1 nx show ?thesis by blast
    qed
  qed
qed

subsection \<open>The following sibling of another marker\<close>

lemma next_as_prev:
  assumes wf: "distinct (ids g)" and nx: "nextSibling g Y = Some nv"
  shows "previousSibling g nv = Some Y"
proof -
  from nx obtain P where P: "parent_of g Y = Some P" "after Y (map nid (kids P)) = Some nv"
    by (auto simp: nextSibling_def split: option.splits)
  from parent_of_Some_D [OF P(1)] have Pn: "P \<in> set (nodes g)" by simp
  from distinct_childNodes [OF wf, of "nid P"] lookup_unique [OF wf Pn]
  have d: "distinct (map nid (kids P))" by (simp add: childNodes_def)
  have "\<And>xs. distinct xs \<Longrightarrow> after Y xs = Some nv \<Longrightarrow> before nv xs = Some Y \<and> nv \<in> set xs"
  proof -
    fix xs :: "nat list"
    show "distinct xs \<Longrightarrow> after Y xs = Some nv \<Longrightarrow> before nv xs = Some Y \<and> nv \<in> set xs"
    proof (induction Y xs rule: after.induct)
      case (1 k)
      then show ?case by simp
    next
      case (2 k x)
      then show ?case by simp
    next
      case (3 k x y ys)
      then show ?case by (cases ys) (auto split: if_splits)
    qed
  qed
  from this [OF d P(2)] have b: "before nv (map nid (kids P)) = Some Y"
    and "nv \<in> nid ` set (kids P)" by auto
  from parent_of_unique [OF wf Pn this(2)] b show ?thesis
    by (simp add: previousSibling_def)
qed

lemma absorb_next_keeps:
  assumes st: "stands g hs" and ar: "around g p e c tg ts" and gn: "gone_ok g gone"
    and pe: "\<not> hasAttribute e DATA_ATTR" and mk: "marked c tg"
    and Y: "Y \<in> set hs" and Yt: "Y \<notin> fst ` set tg"
  shows "\<exists>g1. absorb_next g Y (nextSibling g Y) = Inr g1 \<and> stands g1 hs \<and>
     around g1 p e c tg ts \<and> gone_ok g1 gone"
proof -
  from st have wf: "distinct (ids g)" by (simp add: stands_def)
  from st Y obtain eY kY where lY: "lookup g Y = Some (Element Y eY kY)"
    and aY: "hasAttribute eY DATA_ATTR" by (auto simp: stands_def)
  have same: "absorb_next g Y (nextSibling g Y) = Inr g \<and> stands g hs \<and>
     around g p e c tg ts \<and> gone_ok g gone"
    if "absorb_next g Y (nextSibling g Y) = Inr g"
    using that st ar gn by simp
  show ?thesis
  proof (cases "nextSibling g Y")
    case None
    then have "absorb_next g Y (nextSibling g Y) = Inr g" by (simp add: absorb_next_def)
    from same [OF this] show ?thesis by blast
  next
    case (Some nv)
    from adjacent_siblings [OF wf next_as_prev [OF wf Some]] obtain q eq l1 nY nN l2
      where lq: "lookup g q = Some (Element q eq (l1 @ nY # nN # l2))"
        and n: "nid nY = Y" "nid nN = nv" by blast
    from lookup_kid [OF wf lq, of nN] n have lN: "lookup g nv = Some nN" by simp
    from lookup_kid [OF wf lq, of nY] n lY have nY: "nY = Element Y eY kY" by simp
    from shouldMerge_node [OF lY lN]
    have sm: "shouldMerge g Y (Some nv) = Inr (mergeable (backgroundColor eY) nN)" .
    show ?thesis
    proof (cases "mergeable (backgroundColor eY) nN")
      case False
      with sm Some have "absorb_next g Y (nextSibling g Y) = Inr g"
        by (simp add: absorb_next_def)
      from same [OF this] show ?thesis by blast
    next
      case True
      then obtain eN kN where nN: "nN = Element nv eN kN" and aN: "hasAttribute eN DATA_ATTR"
        using n(2) by (cases nN) auto
      define cs where "cs = l1 @ Element Y eY kY # Element nv eN kN # l2"
      define X where "X = l1 @ Element Y eY (kY @ kN) # l2"
      define R where "R = [Element nv eN []]"
      define g1 where "g1 = ctx g q X R"
      note lq' = lq [unfolded nN nY]
      note op = absorb_next_ctx [OF wf lq', folded cs_def X_def R_def]
      note lq'' = lq' [folded cs_def]
      from sm Some True op(1) have r: "absorb_next g Y (nextSibling g Y) = Inr g1"
        by (simp add: absorb_next_def g1_def)
      have st1: "stands g1 hs" unfolding g1_def by (rule stands_frame [OF wf lq'' op(2,5) st])
      have gn1: "gone_ok g1 gone"
        unfolding g1_def by (rule gone_frame [OF wf lq'' gn]) (simp add: cs_def)
      from ar obtain pre mid post
        where lp: "lookup g p = Some (Element p e (pre @ mid @ post))"
          and m: "map tag mid = tg" "map textContent_of mid = ts"
          and o: "pre = [] \<or> \<not> mergeable c (last pre)" "post = [] \<or> \<not> mergeable c (hd post)"
        unfolding around_def by blast
      have ar1: "around g1 p e c tg ts"
      proof (cases "q = p")
        case True
        with lp lq'' have eq: "pre @ mid @ post = l1 @ Element Y eY kY # Element nv eN kN # l2"
          and ee: "eq = e" by (simp_all add: cs_def)
        from kids_distinct_nodes [OF wf lp] have d: "distinct (pre @ mid @ post)" .
        have Ym: "Element Y eY kY \<notin> set mid" by (rule not_in_mid [OF m(1) Yt]) simp
        have Yk: "is_marker (Element Y eY kY)" using aY by simp
        have mg: "mergeable (colour_of (Element Y eY kY)) (Element nv eN kN)"
          using \<open>mergeable (backgroundColor eY) nN\<close> nN by simp
        have tg': "tag (Element Y eY (kY @ kN)) = tag (Element Y eY kY)" by simp
        from squeeze_next [OF d eq Ym marked_mid(1) [OF mk m(1)] o marked_mid(2) [OF mk m(1)]
            Yk mg tg']
        obtain pre' post' where X': "X = pre' @ mid @ post'"
          and o': "pre' = [] \<or> \<not> mergeable c (last pre')" "post' = [] \<or> \<not> mergeable c (hd post')"
          unfolding X_def by blast
        from ctx_lookup(1) [OF wf lq'' op(2)] True ee X'
        have "lookup g1 p = Some (Element p e (pre' @ mid @ post'))" by (simp add: g1_def)
        with m o' show ?thesis unfolding around_def by blast
      next
        case False
        have "p \<noteq> Y" using lp lY pe aY by auto
        moreover have "p \<noteq> nv" using lp lN nN pe aN by auto
        ultimately have "p \<notin> {nv, Y}" by simp
        from around_frame [OF wf lq'' op(2,3,4) ar this] False show ?thesis
          by (simp add: g1_def)
      qed
      from r st1 ar1 gn1 show ?thesis by blast
    qed
  qed
qed

subsection \<open>The text nodes of a marker\<close>

lemma normalize_keeps:
  assumes st: "stands g hs" and ar: "around g p e c tg ts" and gn: "gone_ok g gone"
    and pe: "\<not> hasAttribute e DATA_ATTR \<or> p \<noteq> Y" and Y: "Y \<in> set hs"
  shows "stands (normalizeTextNodes g Y) hs \<and> around (normalizeTextNodes g Y) p e c tg ts \<and>
     gone_ok (normalizeTextNodes g Y) gone"
proof -
  from st have wf: "distinct (ids g)" by (simp add: stands_def)
  from st Y obtain eY kY where lY: "lookup g Y = Some (Element Y eY kY)"
    and aY: "hasAttribute eY DATA_ATTR" by (auto simp: stands_def)
  note op = normalize_ctx [OF wf lY]
  from ar obtain ks where lp: "lookup g p = Some (Element p e ks)" unfolding around_def by blast
  have pY: "p \<noteq> Y" using pe lp lY aY by auto
  have "p \<notin> nid ` set (texts kY)"
  proof
    assume "p \<in> nid ` set (texts kY)"
    then obtain T where T: "T \<in> set kY" "is_text T" "nid T = p" by (auto simp: texts_def)
    from lookup_kid [OF wf lY T(1)] T(2,3) lp show False by auto
  qed
  from around_frame [OF wf lY op(2,3,4) ar this pY] stands_frame [OF wf lY op(2,5) st]
    gone_frame [OF wf lY gn, of "coalesce kY" "coalesced kY"] op(1)
  show ?thesis by simp
qed

subsection \<open>The visit of another marker\<close>

lemma visit_other:
  assumes st: "stands g hs" and ar: "around g p e c tg ts" and gn: "gone_ok g gone"
    and pe: "\<not> hasAttribute e DATA_ATTR" and mk: "marked c tg"
    and Y: "Y \<in> set hs" and Yt: "Y \<notin> fst ` set tg"
  shows "\<exists>g'. merge_one g Y = Inr g' \<and> stands g' hs \<and> around g' p e c tg ts \<and> gone_ok g' gone"
proof -
  from absorb_prev_keeps [OF st ar gn pe mk Y Yt] obtain g1
    where a: "absorb_prev g Y (previousSibling g Y) = Inr g1" and s1: "stands g1 hs"
      and a1: "around g1 p e c tg ts" and n1: "gone_ok g1 gone"
      and nx: "nextSibling g1 Y = nextSibling g Y" by blast
  from absorb_next_keeps [OF s1 a1 n1 pe mk Y Yt] obtain g2
    where b: "absorb_next g1 Y (nextSibling g1 Y) = Inr g2" and s2: "stands g2 hs"
      and a2: "around g2 p e c tg ts" and n2: "gone_ok g2 gone" by blast
  from pe have "\<not> hasAttribute e DATA_ATTR \<or> p \<noteq> Y" by simp
  from normalize_keeps [OF s2 a2 n2 this Y]
  have "stands (normalizeTextNodes g2 Y) hs \<and> around (normalizeTextNodes g2 Y) p e c tg ts \<and>
     gone_ok (normalizeTextNodes g2 Y) gone" .
  moreover have "merge_one g Y = Inr (normalizeTextNodes g2 Y)"
    using a b nx by (simp add: merge_one_def)
  ultimately show ?thesis by blast
qed

subsection \<open>The visit of a marker of the middle\<close>

lemma siblings_of_kid:
  assumes wf: "distinct (ids g)" and lp: "lookup g p = Some (Element p e (pre @ n # post))"
  shows "previousSibling g (nid n) = (if pre = [] then None else Some (nid (last pre)))"
    and "nextSibling g (nid n) = (case post of [] \<Rightarrow> None | x # xs \<Rightarrow> Some (nid x))"
proof -
  define cs where "cs = pre @ n # post"
  note lp' = lp [folded cs_def]
  have d: "distinct (map nid cs)" by (rule distinct_roots [OF distinct_kids [OF wf lp']])
  then have a: "nid n \<notin> set (map nid pre)" by (auto simp: cs_def)
  have "nid n \<in> nid ` set cs" by (simp add: cs_def)
  note nav = ctx_nav(2,3) [OF wf lp' fits_initial [OF wf lp'] this,
      unfolded ctx_initial [OF wf lp']]
  show "previousSibling g (nid n) = (if pre = [] then None else Some (nid (last pre)))"
    using nav(1) before_split [OF a, of "map nid post"] by (simp add: cs_def last_map)
  show "nextSibling g (nid n) = (case post of [] \<Rightarrow> None | x # xs \<Rightarrow> Some (nid x))"
    using nav(2) after_split [OF a, of "map nid post"] by (simp add: cs_def split: list.splits)
qed

lemma outer_no_merge:
  assumes wf: "distinct (ids g)"
    and lp: "lookup g p = Some (Element p e (pre @ Element A eA kA # post))"
  shows "pre = [] \<or> \<not> mergeable (backgroundColor eA) (last pre) \<Longrightarrow>
      shouldMerge g A (previousSibling g A) = Inr False"
    and "post = [] \<or> \<not> mergeable (backgroundColor eA) (hd post) \<Longrightarrow>
      shouldMerge g A (nextSibling g A) = Inr False"
proof -
  have lA: "lookup g A = Some (Element A eA kA)"
    using lookup_kid [OF wf lp, of "Element A eA kA"] by simp
  note sib = siblings_of_kid [OF wf lp, simplified]
  {
    assume o: "pre = [] \<or> \<not> mergeable (backgroundColor eA) (last pre)"
    show "shouldMerge g A (previousSibling g A) = Inr False"
    proof (cases "pre = []")
      case True
      with sib(1) show ?thesis by simp
    next
      case False
      then have "last pre \<in> set (pre @ Element A eA kA # post)" by simp
      from lookup_kid [OF wf lp this] have "lookup g (nid (last pre)) = Some (last pre)" .
      from shouldMerge_node [OF lA this] o False sib(1) show ?thesis by simp
    qed
  }
  {
    assume o: "post = [] \<or> \<not> mergeable (backgroundColor eA) (hd post)"
    show "shouldMerge g A (nextSibling g A) = Inr False"
    proof (cases post)
      case Nil
      with sib(2) show ?thesis by simp
    next
      case (Cons x xs)
      then have "x \<in> set (pre @ Element A eA kA # post)" by simp
      from lookup_kid [OF wf lp this] have "lookup g (nid x) = Some x" .
      from shouldMerge_node [OF lA this] o Cons sib(2) show ?thesis by simp
    qed
  }
qed

lemma single_mid:
  assumes "map tag mid = [(S, Some eS)]"
  shows "\<exists>kS. mid = [Element S eS kS]"
proof -
  from assms obtain n where "mid = [n]" "tag n = (S, Some eS)" by auto
  with tag_Element [of n S eS] show ?thesis by auto
qed

lemma pair_mid:
  assumes "map tag mid = [(A, Some eA), (B, Some eB)]"
  shows "\<exists>kA kB. mid = [Element A eA kA, Element B eB kB]"
proof -
  from assms obtain a b where "mid = [a, b]" "tag a = (A, Some eA)" "tag b = (B, Some eB)"
    by auto
  with tag_Element [of a A eA] tag_Element [of b B eB] show ?thesis by auto
qed

text \<open>The marker that took the other one in is visited again: nothing is merged.\<close>

lemma visit_survivor:
  assumes st: "stands g hs" and ar: "around g p e c [(S, Some eS)] ts" and gn: "gone_ok g gone"
    and cS: "backgroundColor eS = c" and S: "S \<in> set hs"
  shows "\<exists>g'. merge_one g S = Inr g' \<and> stands g' hs \<and> around g' p e c [(S, Some eS)] ts \<and>
     gone_ok g' gone"
proof -
  from st have wf: "distinct (ids g)" by (simp add: stands_def)
  from ar obtain pre mid post
    where lp0: "lookup g p = Some (Element p e (pre @ mid @ post))"
      and m: "map tag mid = [(S, Some eS)]" and mt: "map textContent_of mid = ts"
      and o: "pre = [] \<or> \<not> mergeable c (last pre)" "post = [] \<or> \<not> mergeable c (hd post)"
    unfolding around_def by (elim exE conjE)
  from single_mid [OF m] obtain kS where mid: "mid = [Element S eS kS]" by blast
  from lp0 have lp: "lookup g p = Some (Element p e (pre @ Element S eS kS # post))"
    by (simp add: mid)
  from outer_no_merge [OF wf lp] o cS
  have n: "shouldMerge g S (previousSibling g S) = Inr False"
    "shouldMerge g S (nextSibling g S) = Inr False" by simp_all
  have a: "absorb_prev g S (previousSibling g S) = Inr g"
    using n(1) by (simp add: absorb_prev_def split: option.splits)
  have b: "absorb_next g S (nextSibling g S) = Inr g"
    using n(2) by (simp add: absorb_next_def split: option.splits)
  have "p \<noteq> S" using not_own_kid [OF wf lp] by auto
  then have "\<not> hasAttribute e DATA_ATTR \<or> p \<noteq> S" by simp
  from normalize_keeps [OF st ar gn this S]
  have "stands (normalizeTextNodes g S) hs \<and>
     around (normalizeTextNodes g S) p e c [(S, Some eS)] ts \<and>
     gone_ok (normalizeTextNodes g S) gone" .
  moreover have "merge_one g S = Inr (normalizeTextNodes g S)"
    using a b by (simp add: merge_one_def)
  ultimately show ?thesis by blast
qed

text \<open>The emptied marker is visited: it has no siblings and no children.\<close>

lemma visit_gone:
  assumes st: "stands g hs" and gn: "gone_ok g gone" and k: "k \<in> set gone"
  shows "merge_one g k = Inr g"
proof -
  from st have wf: "distinct (ids g)" by (simp add: stands_def)
  from gn k obtain ek where "Element k ek [] \<in> set g" by (auto simp: gone_ok_def)
  from merge_detached [OF wf this] show ?thesis .
qed

subsection \<open>The visit of one marker of the pair\<close>

lemma nodes_Cons: "nodes (n # F) = nodes [n] @ nodes F"
  by (simp add: nodes_def)

lemma pair_lab:
  assumes "tag S' = tag a \<and> tag G' = tag b \<or> tag S' = tag b \<and> tag G' = tag a"
    and "kids a = kA" "kids b = kB" "\<not> is_text a" "\<not> is_text b"
    and "kids S' = coalesce (kA @ kB)"
  shows "\<forall>M\<in>set (nodes (pre @ a # b # post)). \<not> is_text M \<longrightarrow>
     (\<exists>M'\<in>set (nodes (pre @ S' # post)) \<union> set (nodes (G' # coalesced (kA @ kB))).
        tag M' = tag M)"
proof (intro ballI impI)
  fix M assume M: "M \<in> set (nodes (pre @ a # b # post))" "\<not> is_text M"
  have S: "S' \<in> set (nodes (pre @ S' # post))"
    and G: "G' \<in> set (nodes (G' # coalesced (kA @ kB)))"
    using roots_subset_nodes [of "pre @ S' # post"]
      roots_subset_nodes [of "G' # coalesced (kA @ kB)"] by auto
  have na: "set (nodes [a]) = insert a (set (nodes kA))" using assms(2,4) by (cases a) auto
  have nb: "set (nodes [b]) = insert b (set (nodes kB))" using assms(3,5) by (cases b) auto
  have nS: "set (nodes (coalesce (kA @ kB))) \<subseteq> set (nodes [S'])"
    using assms(6) by (cases S') auto
  have sp: "nodes (pre @ a # b # post) = nodes pre @ nodes [a] @ nodes [b] @ nodes post"
    "nodes (pre @ S' # post) = nodes pre @ nodes [S'] @ nodes post"
    using nodes_Cons [of a "b # post"] nodes_Cons [of b post] nodes_Cons [of S' post]
    by simp_all
  from M(1) na nb consider "M \<in> set (nodes pre) \<union> set (nodes post)" | "M = a" | "M = b"
    | "M \<in> set (nodes kA) \<union> set (nodes kB)" unfolding sp(1) by auto
  then show "\<exists>M'\<in>set (nodes (pre @ S' # post)) \<union> set (nodes (G' # coalesced (kA @ kB))).
        tag M' = tag M"
  proof cases
    case 1
    then have "M \<in> set (nodes (pre @ S' # post))" unfolding sp(2) by auto
    then show ?thesis by blast
  next
    case 2
    from assms(1) have "tag S' = tag a \<or> tag G' = tag a" by auto
    then show ?thesis
    proof
      assume "tag S' = tag a"
      with 2 S show ?thesis by (intro bexI [of _ S']) simp_all
    next
      assume "tag G' = tag a"
      with 2 G show ?thesis by (intro bexI [of _ G']) simp_all
    qed
  next
    case 3
    from assms(1) have "tag S' = tag b \<or> tag G' = tag b" by auto
    then show ?thesis
    proof
      assume "tag S' = tag b"
      with 3 S show ?thesis by (intro bexI [of _ S']) simp_all
    next
      assume "tag G' = tag b"
      with 3 G show ?thesis by (intro bexI [of _ G']) simp_all
    qed
  next
    case 4
    then have "M \<in> set (nodes (kA @ kB))" by simp
    from nodes_split [OF this] M(2) have "M \<in> set (nodes (elems (kA @ kB)))"
      by (auto simp: texts_def)
    with nodes_elems [of "coalesce (kA @ kB)"] have "M \<in> set (nodes (coalesce (kA @ kB)))"
      by (auto simp: elems_coalesce)
    with nS have "M \<in> set (nodes [S'])" by auto
    then have "M \<in> set (nodes (pre @ S' # post))" unfolding sp(2) by simp
    then show ?thesis by blast
  qed
qed

lemma visit_first:
  assumes st: "stands g hs"
    and ar: "around g p e c [(A, Some eA), (B, Some eB)] [tA, tB]"
    and mk: "marked c [(A, Some eA), (B, Some eB)]"
  shows "\<exists>g'. merge_one g A = Inr g' \<and> stands g' hs \<and>
     around g' p e c [(A, Some eA)] [tA @ tB] \<and> gone_ok g' [B]"
proof -
  from st have wf: "distinct (ids g)" by (simp add: stands_def)
  from mk have cA: "backgroundColor eA = c" and cB: "backgroundColor eB = c"
    and hB: "hasAttribute eB DATA_ATTR" by (auto simp: marked_def)
  from ar obtain pre mid post
    where lp0: "lookup g p = Some (Element p e (pre @ mid @ post))"
      and m: "map tag mid = [(A, Some eA), (B, Some eB)]"
      and mt: "map textContent_of mid = [tA, tB]"
      and o: "pre = [] \<or> \<not> mergeable c (last pre)" "post = [] \<or> \<not> mergeable c (hd post)"
    unfolding around_def by (elim exE conjE)
  from pair_mid [OF m] obtain kA kB where mid: "mid = [Element A eA kA, Element B eB kB]"
    by blast
  define cs where "cs = pre @ Element A eA kA # Element B eB kB # post"
  define X where "X = pre @ Element A eA (coalesce (kA @ kB)) # post"
  define R where "R = Element B eB [] # coalesced (kA @ kB)"
  from lp0 have lp: "lookup g p = Some (Element p e (pre @ Element A eA kA # Element B eB kB # post))"
    by (simp add: mid)
  note lp' = lp [folded cs_def]
  from outer_no_merge(1) [OF wf lp] o(1) cA
  have prev: "shouldMerge g A (previousSibling g A) = Inr False" by simp
  from cA cB have col: "backgroundColor eA = backgroundColor eB" by simp
  note mo = merge_one_absorbs_next [OF wf lp hB col prev, folded X_def R_def cs_def]
  have lab: "\<forall>M\<in>set (nodes cs). \<not> is_text M \<longrightarrow>
     (\<exists>M'\<in>set (nodes X) \<union> set (nodes R). tag M' = tag M)"
    unfolding cs_def X_def R_def
    by (rule pair_lab [where kA = kA and kB = kB]) simp_all
  have st': "stands (ctx g p X R) hs" by (rule stands_frame [OF wf lp' mo(2) lab st])
  from ctx_lookup(1) [OF wf lp' mo(2)]
  have "lookup (ctx g p X R) p = Some (Element p e (pre @ [Element A eA (coalesce (kA @ kB))] @ post))"
    by (simp add: X_def)
  moreover have "map textContent_of [Element A eA (coalesce (kA @ kB))] = [tA @ tB]"
    using mt textContent_coalesce [of "kA @ kB"] by (simp add: mid)
  ultimately have ar': "around (ctx g p X R) p e c [(A, Some eA)] [tA @ tB]"
    unfolding around_def using o by (intro exI [of _ pre] exI [of _ post]
        exI [of _ "[Element A eA (coalesce (kA @ kB))]"]) simp
  have "gone_ok (ctx g p X R) [B]" by (auto simp: gone_ok_def ctx_def R_def)
  with mo(1) st' ar' show ?thesis by blast
qed

lemma visit_second:
  assumes st: "stands g hs"
    and ar: "around g p e c [(A, Some eA), (B, Some eB)] [tA, tB]"
    and mk: "marked c [(A, Some eA), (B, Some eB)]"
  shows "\<exists>g'. merge_one g B = Inr g' \<and> stands g' hs \<and>
     around g' p e c [(B, Some eB)] [tA @ tB] \<and> gone_ok g' [A]"
proof -
  from st have wf: "distinct (ids g)" by (simp add: stands_def)
  from mk have cA: "backgroundColor eA = c" and cB: "backgroundColor eB = c"
    and hA: "hasAttribute eA DATA_ATTR" by (auto simp: marked_def)
  from ar obtain pre mid post
    where lp0: "lookup g p = Some (Element p e (pre @ mid @ post))"
      and m: "map tag mid = [(A, Some eA), (B, Some eB)]"
      and mt: "map textContent_of mid = [tA, tB]"
      and o: "pre = [] \<or> \<not> mergeable c (last pre)" "post = [] \<or> \<not> mergeable c (hd post)"
    unfolding around_def by (elim exE conjE)
  from pair_mid [OF m] obtain kA kB where mid: "mid = [Element A eA kA, Element B eB kB]"
    by blast
  define cs where "cs = pre @ Element A eA kA # Element B eB kB # post"
  define X where "X = pre @ Element B eB (coalesce (kA @ kB)) # post"
  define R where "R = Element A eA [] # coalesced (kA @ kB)"
  from lp0 have lp: "lookup g p = Some (Element p e (pre @ Element A eA kA # Element B eB kB # post))"
    by (simp add: mid)
  note lp' = lp [folded cs_def]
  from lp have lpB: "lookup g p =
      Some (Element p e ((pre @ [Element A eA kA]) @ Element B eB kB # post))" by simp
  from outer_no_merge(2) [OF wf lpB] o(2) cB
  have nxt: "shouldMerge g B (nextSibling g B) = Inr False" by simp
  from cA cB have col: "backgroundColor eA = backgroundColor eB" by simp
  note mo = merge_one_absorbs_prev [OF wf lp hA col nxt, folded X_def R_def cs_def]
  have lab: "\<forall>M\<in>set (nodes cs). \<not> is_text M \<longrightarrow>
     (\<exists>M'\<in>set (nodes X) \<union> set (nodes R). tag M' = tag M)"
    unfolding cs_def X_def R_def
    by (rule pair_lab [where kA = kA and kB = kB]) simp_all
  have st': "stands (ctx g p X R) hs" by (rule stands_frame [OF wf lp' mo(2) lab st])
  from ctx_lookup(1) [OF wf lp' mo(2)]
  have "lookup (ctx g p X R) p = Some (Element p e (pre @ [Element B eB (coalesce (kA @ kB))] @ post))"
    by (simp add: X_def)
  moreover have "map textContent_of [Element B eB (coalesce (kA @ kB))] = [tA @ tB]"
    using mt textContent_coalesce [of "kA @ kB"] by (simp add: mid)
  ultimately have ar': "around (ctx g p X R) p e c [(B, Some eB)] [tA @ tB]"
    unfolding around_def using o by (intro exI [of _ pre] exI [of _ post]
        exI [of _ "[Element B eB (coalesce (kA @ kB))]"]) simp
  have "gone_ok (ctx g p X R) [A]" by (auto simp: gone_ok_def ctx_def R_def)
  with mo(1) st' ar' show ?thesis by blast
qed

subsection \<open>The pass\<close>

text \<open>The first marker of the pair that the pass comes to.\<close>

definition first_of :: "nat \<Rightarrow> nat \<Rightarrow> nat list \<Rightarrow> nat" where
  "first_of A B hs = hd (filter (\<lambda>x. x = A \<or> x = B) hs)"

lemma first_of_simps:
  "first_of A B (A # ys) = A"
  "first_of A B (B # ys) = B"
  "Y \<noteq> A \<Longrightarrow> Y \<noteq> B \<Longrightarrow> first_of A B (Y # ys) = first_of A B ys"
  by (simp_all add: first_of_def)

lemma pass_after:
  assumes cS: "backgroundColor eS = c" "hasAttribute eS DATA_ATTR"
  shows "stands g hs \<Longrightarrow> around g p e c [(S, Some eS)] ts \<Longrightarrow> gone_ok g [G] \<Longrightarrow>
     set ys \<subseteq> set hs \<Longrightarrow> (hasAttribute e DATA_ATTR \<longrightarrow> set ys \<subseteq> {S, G}) \<Longrightarrow>
     \<exists>g'. mergeSiblingHighlights g ys = Inr g' \<and> stands g' hs \<and>
       around g' p e c [(S, Some eS)] ts \<and> gone_ok g' [G]"
proof (induction ys arbitrary: g)
  case Nil
  then show ?case by simp
next
  case (Cons Y ys)
  from Cons.prems(4) have Y: "Y \<in> set hs" and ys: "set ys \<subseteq> set hs" by simp_all
  from Cons.prems(5) have pa: "hasAttribute e DATA_ATTR \<longrightarrow> set ys \<subseteq> {S, G}" by auto
  have mk: "marked c [(S, Some eS)]" using cS by (simp add: marked_def)
  have "\<exists>g1. merge_one g Y = Inr g1 \<and> stands g1 hs \<and> around g1 p e c [(S, Some eS)] ts \<and>
      gone_ok g1 [G]"
  proof (cases "Y = G")
    case True
    from visit_gone [OF Cons.prems(1,3), of Y] True Cons.prems(1-3) show ?thesis by simp
  next
    case YG: False
    show ?thesis
    proof (cases "Y = S")
      case True
      from visit_survivor [OF Cons.prems(1,2,3) cS(1)] Y True show ?thesis by simp
    next
      case False
      with YG Cons.prems(5) have pe: "\<not> hasAttribute e DATA_ATTR" by auto
      from False have "Y \<notin> fst ` set [(S, Some eS)]" by simp
      from visit_other [OF Cons.prems(1,2,3) pe mk Y this] show ?thesis .
    qed
  qed
  then obtain g1 where v: "merge_one g Y = Inr g1" and i: "stands g1 hs"
    "around g1 p e c [(S, Some eS)] ts" "gone_ok g1 [G]" by blast
  from Cons.IH [OF i ys pa] v show ?case by simp
qed

lemma pass_before:
  assumes mk: "marked c [(A, Some eA), (B, Some eB)]"
  shows "stands g hs \<Longrightarrow> around g p e c [(A, Some eA), (B, Some eB)] [tA, tB] \<Longrightarrow>
     set ys \<subseteq> set hs \<Longrightarrow> (hasAttribute e DATA_ATTR \<longrightarrow> set ys \<subseteq> {A, B}) \<Longrightarrow>
     A \<in> set ys \<or> B \<in> set ys \<Longrightarrow>
     \<exists>g' eS G. mergeSiblingHighlights g ys = Inr g' \<and>
       (eS = eA \<and> first_of A B ys = A \<and> G = B \<or> eS = eB \<and> first_of A B ys = B \<and> G = A) \<and>
       stands g' hs \<and> around g' p e c [(first_of A B ys, Some eS)] [tA @ tB] \<and> gone_ok g' [G]"
proof (induction ys arbitrary: g)
  case Nil
  then show ?case by simp
next
  case (Cons Y ys)
  from Cons.prems(3) have Y: "Y \<in> set hs" and ys: "set ys \<subseteq> set hs" by simp_all
  from mk have c: "backgroundColor eA = c" "hasAttribute eA DATA_ATTR"
    "backgroundColor eB = c" "hasAttribute eB DATA_ATTR" by (auto simp: marked_def)
  show ?case
  proof (cases "Y = A")
    case True
    from visit_first [OF Cons.prems(1,2) mk] obtain g1
      where v: "merge_one g A = Inr g1" and i: "stands g1 hs"
        "around g1 p e c [(A, Some eA)] [tA @ tB]" "gone_ok g1 [B]" by blast
    from Cons.prems(4) have "hasAttribute e DATA_ATTR \<longrightarrow> set ys \<subseteq> {A, B}" by auto
    from pass_after [OF c(1,2) i ys this] obtain g'
      where "mergeSiblingHighlights g1 ys = Inr g'" "stands g' hs"
        "around g' p e c [(A, Some eA)] [tA @ tB]" "gone_ok g' [B]" by blast
    with v True have "mergeSiblingHighlights g (Y # ys) = Inr g' \<and>
       (eA = eA \<and> first_of A B (Y # ys) = A \<and> B = B \<or>
        eA = eB \<and> first_of A B (Y # ys) = B \<and> B = A) \<and>
       stands g' hs \<and> around g' p e c [(first_of A B (Y # ys), Some eA)] [tA @ tB] \<and>
       gone_ok g' [B]"
      by (simp add: first_of_simps)
    then show ?thesis by blast
  next
    case YA: False
    show ?thesis
    proof (cases "Y = B")
      case True
      from visit_second [OF Cons.prems(1,2) mk] obtain g1
        where v: "merge_one g B = Inr g1" and i: "stands g1 hs"
          "around g1 p e c [(B, Some eB)] [tA @ tB]" "gone_ok g1 [A]" by blast
      from Cons.prems(4) have "hasAttribute e DATA_ATTR \<longrightarrow> set ys \<subseteq> {B, A}" by auto
      from pass_after [OF c(3,4) i ys this] obtain g'
        where "mergeSiblingHighlights g1 ys = Inr g'" "stands g' hs"
          "around g' p e c [(B, Some eB)] [tA @ tB]" "gone_ok g' [A]" by blast
      with v True have "mergeSiblingHighlights g (Y # ys) = Inr g' \<and>
         (eB = eA \<and> first_of A B (Y # ys) = A \<and> A = B \<or>
          eB = eB \<and> first_of A B (Y # ys) = B \<and> A = A) \<and>
         stands g' hs \<and> around g' p e c [(first_of A B (Y # ys), Some eB)] [tA @ tB] \<and>
         gone_ok g' [A]"
        by (simp add: first_of_simps)
      then show ?thesis by blast
    next
      case False
      with YA Cons.prems(4) have pe: "\<not> hasAttribute e DATA_ATTR" by auto
      from YA False have Yt: "Y \<notin> fst ` set [(A, Some eA), (B, Some eB)]" by simp
      have "gone_ok g []" by (simp add: gone_ok_def)
      from visit_other [OF Cons.prems(1,2) this pe mk Y Yt] obtain g1
        where v: "merge_one g Y = Inr g1" and i: "stands g1 hs"
          "around g1 p e c [(A, Some eA), (B, Some eB)] [tA, tB]" by blast
      from pe have pa: "hasAttribute e DATA_ATTR \<longrightarrow> set ys \<subseteq> {A, B}" by simp
      from Cons.prems(5) YA False have ab: "A \<in> set ys \<or> B \<in> set ys" by auto
      from Cons.IH [OF i ys pa ab] obtain g' eS G
        where r: "mergeSiblingHighlights g1 ys = Inr g'"
          "eS = eA \<and> first_of A B ys = A \<and> G = B \<or> eS = eB \<and> first_of A B ys = B \<and> G = A"
          "stands g' hs" "around g' p e c [(first_of A B ys, Some eS)] [tA @ tB]" "gone_ok g' [G]"
        by blast
      have "mergeSiblingHighlights g (Y # ys) = Inr g' \<and>
         (eS = eA \<and> first_of A B (Y # ys) = A \<and> G = B \<or>
          eS = eB \<and> first_of A B (Y # ys) = B \<and> G = A) \<and>
         stands g' hs \<and> around g' p e c [(first_of A B (Y # ys), Some eS)] [tA @ tB] \<and>
         gone_ok g' [G]"
        using v r YA False by (simp add: first_of_simps)
      then show ?thesis by blast
    qed
  qed
qed

subsection \<open>The pair after the pass\<close>

lemma outer_of_no_merge:
  assumes wf: "distinct (ids g)"
    and lp: "lookup g p = Some (Element p e (pre @ Element A eA kA # post))"
  shows "shouldMerge g A (previousSibling g A) = Inr False \<Longrightarrow>
      pre = [] \<or> \<not> mergeable (backgroundColor eA) (last pre)"
    and "shouldMerge g A (nextSibling g A) = Inr False \<Longrightarrow>
      post = [] \<or> \<not> mergeable (backgroundColor eA) (hd post)"
proof -
  have lA: "lookup g A = Some (Element A eA kA)"
    using lookup_kid [OF wf lp, of "Element A eA kA"] by simp
  note sib = siblings_of_kid [OF wf lp, simplified]
  {
    assume s: "shouldMerge g A (previousSibling g A) = Inr False"
    show "pre = [] \<or> \<not> mergeable (backgroundColor eA) (last pre)"
    proof (cases "pre = []")
      case True
      then show ?thesis by simp
    next
      case False
      then have "last pre \<in> set (pre @ Element A eA kA # post)" by simp
      from lookup_kid [OF wf lp this] have "lookup g (nid (last pre)) = Some (last pre)" .
      from shouldMerge_node [OF lA this] s False sib(1) show ?thesis by simp
    qed
  }
  {
    assume s: "shouldMerge g A (nextSibling g A) = Inr False"
    show "post = [] \<or> \<not> mergeable (backgroundColor eA) (hd post)"
    proof (cases post)
      case Nil
      then show ?thesis by simp
    next
      case (Cons x xs)
      then have "x \<in> set (pre @ Element A eA kA # post)" by simp
      from lookup_kid [OF wf lp this] have "lookup g (nid x) = Some x" .
      from shouldMerge_node [OF lA this] s Cons sib(2) show ?thesis by simp
    qed
  }
qed

lemma isHighlight_lookup:
  "isHighlight g (Some Y) \<Longrightarrow> \<exists>e k. lookup g Y = Some (Element Y e k) \<and> hasAttribute e DATA_ATTR"
proof -
  assume h: "isHighlight g (Some Y)"
  then obtain n where n: "lookup g Y = Some n" by (auto simp: isHighlight_def split: option.splits)
  from lookup_nid [OF n] h n show ?thesis by (cases n) (auto simp: isHighlight_def)
qed


subsection \<open>Examples\<close>

text \<open>
  A paragraph with two pairs of adjacent markers of one style, a text between the
  pairs.
\<close>

definition row_doc :: "dnode list" where
  "row_doc =
     [Element 0 p_elem
        [Element 1 yellow_span [Text 2 ''a''], Element 3 yellow_span [Text 4 ''b''],
         Text 7 ''-'',
         Element 5 yellow_span [Text 6 ''c''], Element 8 yellow_span [Text 9 ''d'']]]"


text \<open>
  Why the list has only the pair when the parent of the pair is a marker. The red
  marker 20 holds the yellow pair 21, 23; the red marker before it ends with a yellow
  marker. The pass visits 20, which takes in the children of the marker before it, and
  then 21, which now has a yellow marker on either side: its text is \<open>zab\<close>.
\<close>

definition nest_doc :: "dnode list" where
  "nest_doc =
     [Element 0 p_elem
        [Element 10 red_span [Element 11 yellow_span [Text 12 ''z'']],
         Element 20 red_span
           [Element 21 yellow_span [Text 22 ''a''], Element 23 yellow_span [Text 24 ''b'']]]]"

lemma visited_parent_brings_a_neighbour:
  "previousSibling nest_doc 23 = Some 21 \<and>
   shouldMerge nest_doc 21 (previousSibling nest_doc 21) = Inr False \<and>
   shouldMerge nest_doc 23 (nextSibling nest_doc 23) = Inr False \<and>
   isHighlight nest_doc (parentNode nest_doc 21) \<and>
   textContent nest_doc 21 @ textContent nest_doc 23 = ''ab'' \<and>
   (case mergeSiblingHighlights nest_doc [20, 21] of
      Inl err \<Rightarrow> False
    | Inr f' \<Rightarrow> textContent f' 21 = ''zab'')"
  by code_simp

section \<open>Normalizing highlights\<close>

text \<open>
  \<open>parent.replaceChild(node, child)\<close> of the DOM. A null node is a TypeError; the
  parent must be an element that the node does not contain, and the child must be a
  child of the parent. The child leaves the tree, and the node goes where the child
  was.
\<close>

definition replaceChild ::
  "dnode list \<Rightarrow> nat \<Rightarrow> nat option \<Rightarrow> nat \<Rightarrow> js_error + dnode list" where
  "replaceChild f parent node child =
     (case node of
        None \<Rightarrow> Inl TypeError
      | Some n \<Rightarrow>
          (case lookup f parent of
             None \<Rightarrow> Inl TypeError
           | Some (Text i s) \<Rightarrow> Inl HierarchyRequestError
           | Some (Element i e cs) \<Rightarrow>
               (case lookup f n of
                  None \<Rightarrow> Inl TypeError
                | Some sub \<Rightarrow>
                    if parent \<in> set (map nid (subtrees sub)) then Inl HierarchyRequestError
                    else if parentNode f child \<noteq> Some parent then Inl NotFoundError
                    else
                      (let reference = nextSibling f child;
                           reference = (if reference = Some n then nextSibling f n else reference)
                       in insertBefore (detach f child) parent n reference))))"

subsection \<open>flattenNestedHighlights\<close>

text \<open>
  The body of the loop of \<open>flattenOnce\<close>, for the highlight at the index \<open>i\<close>. The
  result has the tree, the array of highlights and whether something was changed.
  \<open>parentElement\<close> is null for a node without a parent, and reading the sibling of
  null is a TypeError.
\<close>

definition move_out ::
  "dnode list \<Rightarrow> nat \<Rightarrow> nat \<Rightarrow> nat option \<Rightarrow> nat option \<Rightarrow> js_error + dnode list \<times> bool" where
  "move_out f hl parent parentPrev parentNext =
     (case (if nextSibling f hl = None
            then (case dom_insertBefore f hl (case parentNext of None \<Rightarrow> parent | Some n \<Rightarrow> n) of
                    Inl e \<Rightarrow> Inl e
                  | Inr f1 \<Rightarrow> Inr (f1, True))
            else Inr (f, False)) of
        Inl e \<Rightarrow> Inl e
      | Inr (f1, again1) \<Rightarrow>
          (case (if previousSibling f1 hl = None
                 then (case dom_insertAfter f1 hl (case parentPrev of None \<Rightarrow> parent | Some n \<Rightarrow> n) of
                         Inl e \<Rightarrow> Inl e
                       | Inr f2 \<Rightarrow> Inr (f2, True))
                 else Inr (f1, again1)) of
             Inl e \<Rightarrow> Inl e
           | Inr (f2, again2) \<Rightarrow>
               Inr (if \<not> hasChildNodes f2 parent then dom_remove f2 parent else f2, again2)))"

definition flatten_one ::
  "dnode list \<Rightarrow> nat list \<Rightarrow> nat \<Rightarrow> js_error + dnode list \<times> nat list \<times> bool" where
  "flatten_one f highlights i =
     (let hl = highlights ! i in
      case parentNode f hl of
        None \<Rightarrow> Inl TypeError
      | Some parent \<Rightarrow>
          (let parentPrev = previousSibling f parent;
               parentNext = nextSibling f parent
           in if isHighlight f (Some parent)
              then (case haveSameColor f parent hl of
                      Inl e \<Rightarrow> Inl e
                    | Inr same \<Rightarrow>
                        if \<not> same
                        then (case move_out f hl parent parentPrev parentNext of
                                Inl e \<Rightarrow> Inl e
                              | Inr (f1, again) \<Rightarrow> Inr (f1, highlights, again))
                        else (case replaceChild f parent (firstChild f hl) hl of
                                Inl e \<Rightarrow> Inl e
                              | Inr f1 \<Rightarrow> Inr (f1, highlights[i := parent], True)))
              else Inr (f, highlights, False)))"

text \<open>\<open>flattenOnce\<close>: the indices of the array in their order; \<open>again\<close> starts false.\<close>

fun flatten_from ::
  "nat list \<Rightarrow> dnode list \<Rightarrow> nat list \<Rightarrow> bool \<Rightarrow> js_error + dnode list \<times> nat list \<times> bool" where
  "flatten_from [] f highlights again = Inr (f, highlights, again)"
| "flatten_from (i # is) f highlights again =
     (case flatten_one f highlights i of
        Inl e \<Rightarrow> Inl e
      | Inr (f1, highlights1, changed) \<Rightarrow> flatten_from is f1 highlights1 (again \<or> changed))"

definition flattenOnce ::
  "dnode list \<Rightarrow> nat list \<Rightarrow> js_error + dnode list \<times> nat list \<times> bool" where
  "flattenOnce f highlights = flatten_from [0..<length highlights] f highlights False"

text \<open>The loop \<open>do again = flattenOnce() while (again)\<close>; it may run forever.\<close>

partial_function (option) flatten_loop ::
  "dnode list \<Rightarrow> nat list \<Rightarrow> (js_error + dnode list \<times> nat list) option" where
  "flatten_loop f highlights =
     (case flattenOnce f highlights of
        Inl e \<Rightarrow> Some (Inl e)
      | Inr (f1, highlights1, again) \<Rightarrow>
          if again then flatten_loop f1 highlights1 else Some (Inr (f1, highlights1)))"

declare flatten_loop.simps [code]

definition flattenNestedHighlights ::
  "dnode list \<Rightarrow> nat list \<Rightarrow> (js_error + dnode list \<times> nat list) option" where
  "flattenNestedHighlights f highlights = flatten_loop f (sortByDepth f highlights True)"

subsection \<open>normalizeHighlights\<close>

text \<open>
  The last sort is by \<open>offsetTop\<close> and then \<open>offsetLeft\<close>, which the rendering gives:
  \<open>layout\<close> gives both for a node of a tree. The sort is stable, so it is the stable
  sort by \<open>offsetLeft\<close> followed by the stable sort by \<open>offsetTop\<close>. The result has the
  tree and the array that is returned.
\<close>

definition normalizeHighlights ::
  "(dnode list \<Rightarrow> nat \<Rightarrow> int \<times> int) \<Rightarrow> dnode list \<Rightarrow> nat list \<Rightarrow>
   (js_error + dnode list \<times> nat list) option" where
  "normalizeHighlights layout f highlights =
     (case flattenNestedHighlights f highlights of
        None \<Rightarrow> None
      | Some (Inl e) \<Rightarrow> Some (Inl e)
      | Some (Inr (f1, highlights1)) \<Rightarrow>
          (case mergeSiblingHighlights f1 highlights1 of
             Inl e \<Rightarrow> Some (Inl e)
           | Inr f2 \<Rightarrow>
               Some (Inr (f2,
                 sort_key (\<lambda>h. fst (layout f2 h))
                   (sort_key (\<lambda>h. snd (layout f2 h))
                     (unique (filter (\<lambda>hl. parentNode f2 hl \<noteq> None) highlights1)))))))"

section \<open>Trees that normalizing leaves as they are\<close>

text \<open>
  No two neighbours in the list are text nodes: \<open>normalizeTextNodes\<close> finds nothing to
  join.
\<close>

fun joined :: "dnode list \<Rightarrow> bool" where
  "joined [] = True"
| "joined [a] = True"
| "joined (a # b # cs) = (\<not> (is_text a \<and> is_text b) \<and> joined (b # cs))"

text \<open>
  A node on which neither step of \<open>normalizeHighlights\<close> acts. It has a parent, and the
  parent is not a highlight, or it is a highlight of another colour and the node has a
  sibling on either side (\<open>flattenOnce\<close> then moves nothing); no sibling next to it is
  one that \<open>shouldMerge\<close> accepts; no two neighbours among its children are text nodes.
\<close>

definition at_rest :: "dnode list \<Rightarrow> nat \<Rightarrow> bool" where
  "at_rest f h \<longleftrightarrow>
     (case parentNode f h of
        None \<Rightarrow> False
      | Some p \<Rightarrow>
          \<not> isHighlight f (Some p) \<or>
          haveSameColor f p h = Inr False \<and> previousSibling f h \<noteq> None \<and> nextSibling f h \<noteq> None) \<and>
     shouldMerge f h (previousSibling f h) = Inr False \<and>
     shouldMerge f h (nextSibling f h) = Inr False \<and>
     (case lookup f h of Some (Element i e cs) \<Rightarrow> joined cs | _ \<Rightarrow> True)"

lemma joined_coalesce: "joined cs \<Longrightarrow> coalesce cs = cs \<and> coalesced cs = []"
proof (induction cs rule: joined.induct)
  case 1
  then show ?case by simp
next
  case (2 a)
  then show ?case by (cases a) auto
next
  case (3 a b cs)
  then show ?case by (cases a; cases b) auto
qed

lemma normalizeTextNodes_joined:
  assumes "distinct (ids f)"
    and "case lookup f h of Some (Element i e cs) \<Rightarrow> joined cs | _ \<Rightarrow> True"
  shows "normalizeTextNodes f h = f"
proof (cases "lookup f h")
  case None
  then show ?thesis by (simp add: normalizeTextNodes_def)
next
  case (Some n)
  show ?thesis
  proof (cases n)
    case (Text i s)
    with Some show ?thesis by (simp add: normalizeTextNodes_def)
  next
    case (Element i e cs)
    with Some lookup_nid [OF Some] have l: "lookup f h = Some (Element h e cs)" by simp
    with assms(2) have "joined cs" by simp
    from joined_coalesce [OF this] edit_kids_same [OF assms(1) l, of coalesce] l
    show ?thesis by (simp add: normalizeTextNodes_def)
  qed
qed

lemma absorb_prev_rest: "shouldMerge f h pv = Inr False \<Longrightarrow> absorb_prev f h pv = Inr f"
  by (simp add: absorb_prev_def split: option.splits)

lemma absorb_next_rest: "shouldMerge f h nx = Inr False \<Longrightarrow> absorb_next f h nx = Inr f"
  by (simp add: absorb_next_def split: option.splits)

lemma merge_one_rest:
  assumes "distinct (ids f)" "at_rest f h"
  shows "merge_one f h = Inr f"
  using assms normalizeTextNodes_joined [OF assms(1), of h]
  by (simp add: merge_one_def at_rest_def absorb_prev_rest absorb_next_rest)

lemma merge_rest:
  assumes "distinct (ids f)" "\<forall>h\<in>set hs. at_rest f h"
  shows "mergeSiblingHighlights f hs = Inr f"
  using assms(2) by (induction hs) (simp_all add: merge_one_rest [OF assms(1)])

lemma hasChildNodes_parent:
  assumes "distinct (ids f)" "parentNode f h = Some p"
  shows "hasChildNodes f p"
  using parentNode_iff [OF assms(1), of h p] assms(2) by (auto simp: hasChildNodes_def)

lemma move_out_rest:
  assumes "distinct (ids f)" "parentNode f h = Some p"
    and "previousSibling f h \<noteq> None" "nextSibling f h \<noteq> None"
  shows "move_out f h p pp pn = Inr (f, False)"
proof -
  from assms(3) have a: "(previousSibling f h = None) = False" by simp
  from assms(4) have b: "(nextSibling f h = None) = False" by simp
  from hasChildNodes_parent [OF assms(1,2)] show ?thesis
    unfolding move_out_def by (simp only: a b if_False sum.case prod.case not_True_eq_False simp_thms)
qed

lemma flatten_one_rest:
  assumes "distinct (ids f)" "at_rest f (hs ! i)"
  shows "flatten_one f hs i = Inr (f, hs, False)"
proof -
  from assms(2) obtain p where p: "parentNode f (hs ! i) = Some p"
    by (auto simp: at_rest_def split: option.splits)
  show ?thesis
  proof (cases "isHighlight f (Some p)")
    case False
    with p show ?thesis by (simp add: flatten_one_def)
  next
    case True
    with assms(2) p have c: "haveSameColor f p (hs ! i) = Inr False"
      and s: "previousSibling f (hs ! i) \<noteq> None" "nextSibling f (hs ! i) \<noteq> None"
      by (auto simp: at_rest_def)
    from move_out_rest [OF assms(1) p s] True p c show ?thesis
      by (simp add: flatten_one_def)
  qed
qed

lemma flatten_from_rest:
  assumes "distinct (ids f)" "\<forall>h\<in>set hs. at_rest f h"
  shows "set js \<subseteq> {..<length hs} \<Longrightarrow> flatten_from js f hs again = Inr (f, hs, again)"
proof (induction js arbitrary: again)
  case Nil
  then show ?case by simp
next
  case (Cons j js)
  from Cons.prems have "j < length hs" by simp
  with assms(2) have "at_rest f (hs ! j)" by simp
  from flatten_one_rest [OF assms(1) this] Cons show ?case by simp
qed

lemma flatten_loop_rest:
  assumes "distinct (ids f)" "\<forall>h\<in>set hs. at_rest f h"
  shows "flatten_loop f hs = Some (Inr (f, hs))"
proof -
  have "flattenOnce f hs = Inr (f, hs, False)"
    unfolding flattenOnce_def by (rule flatten_from_rest [OF assms]) auto
  then show ?thesis by (subst flatten_loop.simps) simp
qed

lemma set_sortByDepth [simp]: "set (sortByDepth f hs d) = set hs"
  by (simp add: sortByDepth_def)

lemma indexOf_nth: "x \<in> set xs \<Longrightarrow> indexOf x xs < length xs \<and> xs ! indexOf x xs = x"
  by (induction xs) auto

lemma set_unique [simp]: "set (unique xs) = set xs"
proof
  show "set (unique xs) \<subseteq> set xs"
    by (auto simp: unique_def in_set_enumerate_eq) (metis nth_mem)
  show "set xs \<subseteq> set (unique xs)"
  proof
    fix x assume "x \<in> set xs"
    from indexOf_nth [OF this] have "(indexOf x xs, x) \<in> set (enumerate 0 xs)"
      by (simp add: in_set_enumerate_eq)
    then show "x \<in> set (unique xs)" unfolding unique_def by force
  qed
qed

lemma normalize_rest:
  assumes "distinct (ids f)" "\<forall>h\<in>set hs. at_rest f h"
  shows "\<exists>hs'. normalizeHighlights lay f hs = Some (Inr (f, hs')) \<and> set hs' = set hs"
proof -
  let ?s = "sortByDepth f hs True"
  from assms(2) have r: "\<forall>h\<in>set ?s. at_rest f h" by simp
  from assms(2) have a: "filter (\<lambda>hl. parentNode f hl \<noteq> None) ?s = ?s"
    by (auto simp: at_rest_def filter_id_conv split: option.splits)
  from flatten_loop_rest [OF assms(1) r] merge_rest [OF assms(1) r] a
  show ?thesis by (simp add: normalizeHighlights_def flattenNestedHighlights_def)
qed

subsection \<open>Four markers in a row\<close>

text \<open>A paragraph with four adjacent markers of one style.\<close>

definition abcd_doc :: "dnode list" where
  "abcd_doc =
     [Element 0 p_elem
        [Element 1 yellow_span [Text 2 ''a''], Element 3 yellow_span [Text 4 ''b''],
         Element 5 yellow_span [Text 6 ''c''], Element 7 yellow_span [Text 8 ''d'']]]"

text \<open>
  A rendering with every node in one line, from left to right in the order of the
  document.
\<close>

definition in_a_line :: "dnode list \<Rightarrow> nat \<Rightarrow> int \<times> int" where
  "in_a_line f k = (0, int (indexOf k (ids f)))"

text \<open>
  The paragraph after one and after two runs of \<open>normalizeHighlights\<close>; the emptied
  markers and the text nodes that were joined to their neighbours are out of the tree.
\<close>

definition abcd_once :: "dnode list" where
  "abcd_once =
     [Element 0 p_elem [Element 1 yellow_span [Text 2 ''ab''], Element 7 yellow_span [Text 6 ''cd'']],
      Element 3 yellow_span [], Text 4 ''b'', Element 5 yellow_span [], Text 8 ''d'']"

definition abcd_twice :: "dnode list" where
  "abcd_twice =
     [Element 0 p_elem [Element 1 yellow_span [Text 2 ''abcd'']],
      Element 3 yellow_span [], Text 4 ''b'', Element 5 yellow_span [], Text 8 ''d'',
      Element 7 yellow_span [], Text 6 ''cd'']"




end
